(* ===== verification/Prelude.thy ===== *)
theory Prelude
  imports Main "HOL-Library.AList" "HOL-Library.Sublist"
begin

text \<open>
  Shared vocabulary of the development: Python dictionaries as association lists in
  insertion order, bounded buffers, lists whose keys strictly increase, and the generic
  notion of an event system with an invariant.
\<close>

named_theorems dict_simps \<open>rewriting of dictionary operations\<close>
named_theorems buffer_simps \<open>rewriting of bounded buffers\<close>
named_theorems order_simps \<open>lists that strictly increase under a key\<close>

section \<open>Dictionaries\<close>

text \<open>
  A Python dict keeps its keys in insertion order; assigning an existing key keeps the
  key's position. \<^const>\<open>AList.update\<close> has exactly this behaviour.
\<close>

type_synonym ('k, 'v) pydict = "('k \<times> 'v) list"

definition dget :: "('k, 'v) pydict \<Rightarrow> 'k \<Rightarrow> 'v option" where
  "dget d k = map_of d k"

definition dset :: "'k \<Rightarrow> 'v \<Rightarrow> ('k, 'v) pydict \<Rightarrow> ('k, 'v) pydict" where
  "dset k v d = AList.update k v d"

definition dpop :: "'k \<Rightarrow> ('k, 'v) pydict \<Rightarrow> ('k, 'v) pydict" where
  "dpop k d = AList.delete k d"

text \<open>The dict display \<open>{**a, **b}\<close>: the entries of \<open>b\<close> override those of \<open>a\<close>.\<close>

definition dmerge :: "('k, 'v) pydict \<Rightarrow> ('k, 'v) pydict \<Rightarrow> ('k, 'v) pydict" where
  "dmerge a b = foldl (\<lambda>d (k, v). dset k v d) a b"

definition dkeys :: "('k, 'v) pydict \<Rightarrow> 'k list" where
  "dkeys d = map fst d"

definition dvalues :: "('k, 'v) pydict \<Rightarrow> 'v list" where
  "dvalues d = map snd d"

text \<open>Every dictionary of the code has each key once.\<close>

definition dict_wf :: "('k, 'v) pydict \<Rightarrow> bool" where
  "dict_wf d = distinct (dkeys d)"

lemma dget_Nil [simp, dict_simps]: "dget [] k = None"
  by (simp add: dget_def)

lemma dget_Cons [simp, dict_simps]:
  "dget ((k', v) # d) k = (if k' = k then Some v else dget d k)"
  by (simp add: dget_def)

lemma dget_dset [simp, dict_simps]:
  "dget (dset k v d) k' = (if k' = k then Some v else dget d k')"
  by (simp add: dget_def dset_def update_conv')

lemma dget_dpop [simp, dict_simps]:
  "dget (dpop k d) k' = (if k' = k then None else dget d k')"
  by (simp add: dget_def dpop_def delete_conv')

lemma dget_append [dict_simps]:
  "dget (d @ e) k = (case dget d k of None \<Rightarrow> dget e k | Some v \<Rightarrow> Some v)"
  by (induction d) auto

lemma dget_foldl_dset:
  "distinct (map fst b) \<Longrightarrow>
   dget (foldl (\<lambda>d (k, v). dset k v d) a b) k
     = (case dget b k of None \<Rightarrow> dget a k | Some v \<Rightarrow> Some v)"
proof (induction b arbitrary: a)
  case Nil
  then show ?case by simp
next
  case (Cons p b)
  obtain k' v where p: "p = (k', v)" by (cases p)
  have "dget b k' = None" using Cons.prems p by (simp add: dget_def map_of_eq_None_iff)
  then show ?case using Cons p by (auto split: option.splits)
qed

lemma dget_dmerge [dict_simps]:
  "dict_wf b \<Longrightarrow>
   dget (dmerge a b) k = (case dget b k of None \<Rightarrow> dget a k | Some v \<Rightarrow> Some v)"
  by (simp add: dmerge_def dict_wf_def dkeys_def dget_foldl_dset)

lemma dkeys_dset [dict_simps]:
  "set (dkeys (dset k v d)) = insert k (set (dkeys d))"
  by (simp add: dkeys_def dset_def dom_update)

lemma dict_wf_Nil [simp]: "dict_wf []"
  by (simp add: dict_wf_def dkeys_def)

lemma dict_wf_dset [simp, intro]: "dict_wf d \<Longrightarrow> dict_wf (dset k v d)"
  by (simp add: dict_wf_def dkeys_def dset_def distinct_update)

lemma dict_wf_dmerge [simp, intro]: "dict_wf a \<Longrightarrow> dict_wf (dmerge a b)"
  unfolding dmerge_def by (induction b arbitrary: a) auto

lemma dget_Some_keys: "dget d k = Some v \<Longrightarrow> k \<in> set (dkeys d)"
  by (induction d) (auto simp: dkeys_def split: if_splits)

lemma dget_None_keys: "dget d k = None \<longleftrightarrow> k \<notin> set (dkeys d)"
  by (simp add: dget_def dkeys_def map_of_eq_None_iff)

lemma dset_new [dict_simps]: "dget d k = None \<Longrightarrow> dset k v d = d @ [(k, v)]"
  by (induction d) (auto simp: dset_def split: if_splits)

lemma dset_same [dict_simps]: "dget d k = Some v \<Longrightarrow> dset k v d = d"
  by (induction d) (auto simp: dset_def split: if_splits)

lemma dget_in_values: "dget d k = Some v \<Longrightarrow> v \<in> set (dvalues d)"
  by (induction d) (auto simp: dvalues_def split: if_splits)


section \<open>Bounded buffers\<close>

text \<open>
  \<open>last_n n xs\<close> are the last \<open>n\<close> elements of \<open>xs\<close>; \<open>push_bounded n buf x\<close> is
  \<open>append\<close> on a \<open>collections.deque\<close> with \<open>maxlen = n\<close>, which discards from the left.
\<close>

definition last_n :: "nat \<Rightarrow> 'a list \<Rightarrow> 'a list" where
  "last_n n xs = drop (length xs - n) xs"

definition push_bounded :: "nat \<Rightarrow> 'a list \<Rightarrow> 'a \<Rightarrow> 'a list" where
  "push_bounded n buf x = last_n n (buf @ [x])"

lemma last_n_Nil [simp, buffer_simps]: "last_n n [] = []"
  by (simp add: last_n_def)

lemma length_last_n [buffer_simps]: "length (last_n n xs) = min n (length xs)"
  by (simp add: last_n_def)

lemma last_n_all [buffer_simps]: "length xs \<le> n \<Longrightarrow> last_n n xs = xs"
  by (simp add: last_n_def)

lemma set_last_n: "set (last_n n xs) \<subseteq> set xs"
  by (simp add: last_n_def set_drop_subset)

lemma last_n_suffix: "\<exists>ys. xs = ys @ last_n n xs"
  unfolding last_n_def by (metis append_take_drop_id)

lemma push_bounded_last_n [buffer_simps]:
  "push_bounded n (last_n n xs) x = last_n n (xs @ [x])"
proof (cases "length xs \<le> n")
  case True
  then show ?thesis by (simp add: push_bounded_def last_n_def)
next
  case False
  then have "length (last_n n xs) = n" by (simp add: last_n_def)
  then have "push_bounded n (last_n n xs) x = drop 1 (last_n n xs @ [x])"
    by (simp add: push_bounded_def last_n_def)
  also have "\<dots> = drop (Suc (length xs - n)) (xs @ [x])"
    using False by (simp add: last_n_def)
  finally show ?thesis using False by (simp add: last_n_def Suc_diff_le)
qed

section \<open>Lists that strictly increase under a key\<close>

definition incr :: "('a \<Rightarrow> int) \<Rightarrow> 'a list \<Rightarrow> bool" where
  "incr f xs = sorted_wrt (\<lambda>a b. f a < f b) xs"

lemma incr_Nil [simp, order_simps]: "incr f []"
  by (simp add: incr_def)

lemma incr_Cons [order_simps]:
  "incr f (x # xs) \<longleftrightarrow> (\<forall>y \<in> set xs. f x < f y) \<and> incr f xs"
  by (simp add: incr_def)

lemma incr_append [order_simps]:
  "incr f (xs @ ys) \<longleftrightarrow> incr f xs \<and> incr f ys \<and> (\<forall>x \<in> set xs. \<forall>y \<in> set ys. f x < f y)"
  by (simp add: incr_def sorted_wrt_append)

lemma incr_filter: "incr f xs \<Longrightarrow> incr f (filter P xs)"
  by (simp add: incr_def sorted_wrt_filter)

lemma incr_drop: "incr f xs \<Longrightarrow> incr f (drop n xs)"
  by (simp add: incr_def sorted_wrt_drop)

lemma incr_last_n: "incr f xs \<Longrightarrow> incr f (last_n n xs)"
  by (simp add: last_n_def incr_drop)

lemma incr_subseq: "incr f xs \<Longrightarrow> incr f ys \<Longrightarrow> set xs \<subseteq> set ys \<Longrightarrow> subseq xs ys"
proof (induction ys arbitrary: xs)
  case (Cons y ys)
  show ?case
  proof (cases xs)
    case (Cons x xs')
    show ?thesis
    proof (cases "x = y")
      case True
      with Cons Cons.prems have "set xs' \<subseteq> set ys" by (auto simp: incr_Cons)
      with Cons.IH [of xs'] Cons.prems Cons True show ?thesis by (simp add: incr_Cons)
    next
      case False
      with Cons Cons.prems have "f y < f x" by (auto simp: incr_Cons)
      moreover have "\<forall>z \<in> set xs'. f x < f z" using Cons Cons.prems by (simp add: incr_Cons)
      ultimately have "y \<notin> set xs" using Cons False by force
      with Cons.IH [of xs] Cons.prems show ?thesis by (auto simp: incr_Cons intro: list_emb_Cons)
    qed
  qed simp
qed simp

lemma incr_distinct: "incr f xs \<Longrightarrow> distinct xs"
  by (induction xs) (auto simp: incr_Cons)

lemma incr_le_last: "incr f xs \<Longrightarrow> x \<in> set xs \<Longrightarrow> f x \<le> f (last xs)"
proof (induction xs)
  case Nil
  then show ?case by simp
next
  case (Cons y ys)
  then show ?case using last_in_set [of ys] by (cases "ys = []") (auto simp: incr_Cons less_imp_le)
qed

lemma distinct_set_single: "distinct xs \<Longrightarrow> set xs = {x} \<Longrightarrow> xs = [x]"
  by (cases xs) (auto simp: subset_singleton_iff dest: equalityD1)

section \<open>Event systems\<close>

text \<open>
  Every stateful component of the program is a function that takes its state and an
  event to its next state. An invariant that every event keeps holds after every run;
  the components provide such an invariant by interpreting this locale.
\<close>

locale event_system =
  fixes step :: "'s \<Rightarrow> 'e \<Rightarrow> 's"
    and inv :: "'s \<Rightarrow> bool"
  assumes inv_step: "inv s \<Longrightarrow> inv (step s e)"
begin

lemma inv_run: "inv s \<Longrightarrow> inv (foldl step s es)"
  by (induction es arbitrary: s) (auto simp: inv_step)

lemma inv_run_prefix: "inv s \<Longrightarrow> es = es1 @ es2 \<Longrightarrow> inv (foldl step s es1)"
  by (simp add: inv_run)

end

text \<open>
  A refinement of event systems: an abstraction \<open>abs\<close> of the states under which every
  concrete step is the abstract step.
\<close>

locale event_refinement = event_system step inv
  for step :: "'s \<Rightarrow> 'e \<Rightarrow> 's" and inv :: "'s \<Rightarrow> bool" +
  fixes astep :: "'a \<Rightarrow> 'e \<Rightarrow> 'a"
    and abs :: "'s \<Rightarrow> 'a"
  assumes simulates: "inv s \<Longrightarrow> abs (step s e) = astep (abs s) e"
begin

lemma simulates_run: "inv s \<Longrightarrow> abs (foldl step s es) = foldl astep (abs s) es"
  by (induction es arbitrary: s) (auto simp: simulates inv_step)

end

text \<open>
  A simulation: every concrete step is matched by finitely many abstract steps, possibly none, that
  keep the states related.
\<close>

locale event_simulation =
  fixes cstep :: "'s \<Rightarrow> 'e \<Rightarrow> 's"
    and astep :: "'a \<Rightarrow> 'f \<Rightarrow> 'a"
    and rel :: "'s \<Rightarrow> 'a \<Rightarrow> bool"
  assumes simulated: "rel s a \<Longrightarrow> \<exists>fs. rel (cstep s e) (foldl astep a fs)"
begin

lemma simulated_run: "rel s a \<Longrightarrow> \<exists>fs. rel (foldl cstep s es) (foldl astep a fs)"
proof (induction es arbitrary: s a)
  case Nil
  then show ?case by (intro exI [of _ "[]"]) simp
next
  case (Cons e es)
  from simulated [OF Cons.prems] obtain fs where "rel (cstep s e) (foldl astep a fs)" by blast
  from Cons.IH [OF this] obtain gs where "rel (foldl cstep s (e # es)) (foldl astep (foldl astep a fs) gs)" by auto
  then show ?case by (intro exI [of _ "fs @ gs"]) simp
qed

end

end
