(* ===== verification/PyValues.thy ===== *)
theory PyValues
  imports Prelude
begin

text \<open>
  The dynamically typed values the program handles: JSON bodies, graph state, message
  chunks. A character is a code point below 256. A dict has string keys (a JSON object, a
  state dict keyed by channel name) in insertion order. An object is given by its
  \<open>__dict__\<close> (absent for classes with slots), the attributes \<open>getattr\<close> finds besides,
  and its \<open>str\<close> and \<open>repr\<close>. A float is carried by the text of its literal.
\<close>

datatype pyval =
    PNone
  | PBool bool
  | PInt int
  | PFloat string
  | PStr string
  | PList "pyval list"
  | PTuple "pyval list"
  | PSet "pyval list"
  | PDict "(string \<times> pyval) list"
  | PObj "(string \<times> pyval) list option" "(string \<times> pyval) list" string string

type_synonym dict = "(string, pyval) pydict"

text \<open>A raised exception: the class name and \<open>str(exc)\<close>.\<close>

datatype exn = Exn (exn_type: string) (exn_str: string)

abbreviation TypeError :: "string \<Rightarrow> exn" where "TypeError m \<equiv> Exn ''TypeError'' m"
abbreviation ValueError :: "string \<Rightarrow> exn" where "ValueError m \<equiv> Exn ''ValueError'' m"
abbreviation AttributeError :: "string \<Rightarrow> exn" where
  "AttributeError m \<equiv> Exn ''AttributeError'' m"

section \<open>Truth value and boolean operators\<close>

text \<open>A float literal is zero when its mantissa has no digit but 0.\<close>

definition float_zero :: "string \<Rightarrow> bool" where
  "float_zero s =
     list_all (\<lambda>c. c \<in> {CHR ''-'', CHR ''0'', CHR ''.''})
       (takeWhile (\<lambda>c. c \<noteq> CHR ''e'' \<and> c \<noteq> CHR ''E'') s)"

fun truthy :: "pyval \<Rightarrow> bool" where
  "truthy PNone = False"
| "truthy (PBool b) = b"
| "truthy (PInt i) = (i \<noteq> 0)"
| "truthy (PFloat s) = (\<not> float_zero s)"
| "truthy (PStr s) = (s \<noteq> [])"
| "truthy (PList xs) = (xs \<noteq> [])"
| "truthy (PTuple xs) = (xs \<noteq> [])"
| "truthy (PSet xs) = (xs \<noteq> [])"
| "truthy (PDict d) = (d \<noteq> [])"
| "truthy (PObj v a s r) = True"

text \<open>\<open>a or b\<close>\<close>

definition py_or :: "pyval \<Rightarrow> pyval \<Rightarrow> pyval" where
  "py_or a b = (if truthy a then a else b)"

text \<open>An optional argument or a missing dict entry, read as a value.\<close>

definition or_none :: "pyval option \<Rightarrow> pyval" where
  "or_none v = (case v of None \<Rightarrow> PNone | Some x \<Rightarrow> x)"

section \<open>Attributes\<close>

text \<open>\<open>getattr(value, name, None)\<close> for the values with data attributes.\<close>

fun py_getattr :: "pyval \<Rightarrow> string \<Rightarrow> pyval option" where
  "py_getattr (PObj vars attrs s r) name =
     (case dget (case vars of None \<Rightarrow> [] | Some d \<Rightarrow> d) name of
        Some v \<Rightarrow> Some v
      | None \<Rightarrow> dget attrs name)"
| "py_getattr v name = None"

section \<open>Hashing\<close>

text \<open>List, dict and set values are unhashable, a tuple is when a component is.\<close>

fun hashable :: "pyval \<Rightarrow> bool" where
  "hashable (PList xs) = False"
| "hashable (PSet xs) = False"
| "hashable (PDict d) = False"
| "hashable (PTuple xs) = list_all hashable xs"
| "hashable v = True"

fun py_type_name :: "pyval \<Rightarrow> string" where
  "py_type_name PNone = ''NoneType''"
| "py_type_name (PBool b) = ''bool''"
| "py_type_name (PInt i) = ''int''"
| "py_type_name (PFloat s) = ''float''"
| "py_type_name (PStr s) = ''str''"
| "py_type_name (PList xs) = ''list''"
| "py_type_name (PTuple xs) = ''tuple''"
| "py_type_name (PSet xs) = ''set''"
| "py_type_name (PDict d) = ''dict''"
| "py_type_name (PObj v a s r) = ''object''"

section \<open>Decimal integers\<close>

definition digit :: "nat \<Rightarrow> char" where
  "digit n = ''0123456789'' ! n"

fun show_nat :: "nat \<Rightarrow> string" where
  "show_nat n = (if n < 10 then [digit n] else show_nat (n div 10) @ [digit (n mod 10)])"

declare show_nat.simps [simp del]

definition show_int :: "int \<Rightarrow> string" where
  "show_int i = (if i < 0 then CHR ''-'' # show_nat (nat (- i)) else show_nat (nat i))"


definition is_digit :: "char \<Rightarrow> bool" where
  "is_digit c = (c \<in> set ''0123456789'')"

definition digit_val :: "char \<Rightarrow> nat" where
  "digit_val c = of_char c - 48"

definition nat_of_digits :: "string \<Rightarrow> nat" where
  "nat_of_digits ds = foldl (\<lambda>n c. 10 * n + digit_val c) 0 ds"

lemma digit_cases: "n < 10 \<Longrightarrow> n = 0 \<or> n = 1 \<or> n = 2 \<or> n = 3 \<or> n = 4 \<or> n = 5 \<or> n = 6 \<or> n = 7 \<or> n = 8 \<or> n = (9::nat)"
  by arith

lemma digit_val_digit [simp]: "n < 10 \<Longrightarrow> digit_val (digit n) = n"
  using digit_cases [of n] by (auto simp: digit_def digit_val_def)

lemma is_digit_digit [simp]: "n < 10 \<Longrightarrow> is_digit (digit n)"
  using digit_cases [of n] by (auto simp: digit_def is_digit_def)

lemma digit_zero_iff: "n < 10 \<Longrightarrow> digit n = CHR ''0'' \<longleftrightarrow> n = 0"
  using digit_cases [of n] by (auto simp: digit_def)

lemma show_nat_small: "n < 10 \<Longrightarrow> show_nat n = [digit n]"
  by (subst show_nat.simps) simp

lemma show_nat_step: "\<not> n < 10 \<Longrightarrow> show_nat n = show_nat (n div 10) @ [digit (n mod 10)]"
  by (subst show_nat.simps) simp

lemma show_nat_nonempty [simp]: "show_nat n \<noteq> []"
  by (subst show_nat.simps) simp

lemma show_nat_digits: "list_all is_digit (show_nat n)"
proof (induction n rule: show_nat.induct)
  case (1 n)
  then show ?case by (cases "n < 10") (simp_all add: show_nat_small show_nat_step)
qed

lemma nat_of_digits_append [simp]:
  "nat_of_digits (ds @ [c]) = 10 * nat_of_digits ds + digit_val c"
  by (simp add: nat_of_digits_def)

lemma nat_of_digits_show_nat [simp]: "nat_of_digits (show_nat n) = n"
proof (induction n rule: show_nat.induct)
  case (1 n)
  then show ?case
    by (cases "n < 10") (simp_all add: show_nat_small show_nat_step nat_of_digits_def)
qed

text \<open>Only zero is printed with a leading zero.\<close>

lemma show_nat_hd: "0 < n \<Longrightarrow> hd (show_nat n) \<noteq> CHR ''0''"
proof (induction n rule: show_nat.induct)
  case (1 n)
  show ?case
  proof (cases "n < 10")
    case True
    with 1 show ?thesis by (simp add: show_nat_small digit_zero_iff)
  next
    case False
    moreover from False have "0 < n div 10" by (simp add: div_greater_zero_iff)
    ultimately show ?thesis using 1 by (simp add: show_nat_step)
  qed
qed

lemma show_nat_inj: "show_nat m = show_nat n \<longleftrightarrow> m = n"
  by (metis nat_of_digits_show_nat)

lemma show_int_inj: "show_int i = show_int j \<longleftrightarrow> i = j"
proof
  have no_minus: "show_nat n \<noteq> CHR ''-'' # ds" for n ds
    using show_nat_digits [of n] by (auto simp: is_digit_def)
  then have minus_no: "CHR ''-'' # ds \<noteq> show_nat n" for n ds by metis
  assume "show_int i = show_int j"
  then show "i = j"
    by (auto simp: show_int_def show_nat_inj no_minus minus_no split: if_splits)
qed simp

section \<open>str and repr\<close>

definition hex_digit :: "nat \<Rightarrow> char" where
  "hex_digit n = ''0123456789abcdef'' ! n"

definition hex2 :: "nat \<Rightarrow> string" where
  "hex2 n = [hex_digit (n div 16 mod 16), hex_digit (n mod 16)]"

text \<open>\<open>str.isprintable\<close> on code points below 256.\<close>

definition printable :: "char \<Rightarrow> bool" where
  "printable c =
     (let n = of_char c :: nat
      in (32 \<le> n \<and> n < 127) \<or> (160 < n \<and> n \<noteq> 173))"

definition repr_char :: "char \<Rightarrow> char \<Rightarrow> string" where
  "repr_char q c =
     (if c = q \<or> c = CHR 0x5C then [CHR 0x5C, c]
      else if c = CHR 0x0A then [CHR 0x5C, CHR ''n'']
      else if c = CHR 0x0D then [CHR 0x5C, CHR ''r'']
      else if c = CHR 0x09 then [CHR 0x5C, CHR ''t'']
      else if printable c then [c]
      else [CHR 0x5C, CHR ''x''] @ hex2 (of_char c))"

definition repr_str :: "string \<Rightarrow> string" where
  "repr_str s =
     (let q = (if CHR 0x27 \<in> set s \<and> CHR 0x22 \<notin> set s then CHR 0x22 else CHR 0x27)
      in [q] @ concat (map (repr_char q) s) @ [q])"

text \<open>\<open>sep.join(parts)\<close>\<close>

fun join :: "string \<Rightarrow> string list \<Rightarrow> string" where
  "join sep [] = []"
| "join sep [x] = x"
| "join sep (x # y # ys) = x @ sep @ join sep (y # ys)"

fun py_repr :: "pyval \<Rightarrow> string"
  and py_repr_list :: "pyval list \<Rightarrow> string list"
  and py_repr_items :: "(string \<times> pyval) list \<Rightarrow> string list" where
  "py_repr PNone = ''None''"
| "py_repr (PBool b) = (if b then ''True'' else ''False'')"
| "py_repr (PInt i) = show_int i"
| "py_repr (PFloat s) = s"
| "py_repr (PStr s) = repr_str s"
| "py_repr (PList xs) = ''['' @ join '', '' (py_repr_list xs) @ '']''"
| "py_repr (PTuple xs) =
     (case xs of
        [x] \<Rightarrow> ''('' @ join '', '' (py_repr_list xs) @ '',)''
      | _ \<Rightarrow> ''('' @ join '', '' (py_repr_list xs) @ '')'')"
| "py_repr (PSet xs) =
     (if xs = [] then ''set()'' else ''{'' @ join '', '' (py_repr_list xs) @ ''}'')"
| "py_repr (PDict d) = ''{'' @ join '', '' (py_repr_items d) @ ''}''"
| "py_repr (PObj v a s r) = r"
| "py_repr_list [] = []"
| "py_repr_list (x # xs) = py_repr x # py_repr_list xs"
| "py_repr_items [] = []"
| "py_repr_items ((k, v) # d) = (repr_str k @ '': '' @ py_repr v) # py_repr_items d"

fun py_str :: "pyval \<Rightarrow> string" where
  "py_str (PStr s) = s"
| "py_str (PObj v a s r) = s"
| "py_str v = py_repr v"

section \<open>Conversions\<close>

text \<open>\<open>v if isinstance(v, int) else None\<close>: a bool is an int.\<close>

fun as_int :: "pyval \<Rightarrow> int option" where
  "as_int (PInt i) = Some i"
| "as_int (PBool b) = Some (if b then 1 else 0)"
| "as_int v = None"

fun as_str :: "pyval \<Rightarrow> string option" where
  "as_str (PStr s) = Some s"
| "as_str v = None"

text \<open>
  \<open>dict(v)\<close>. From a list or tuple: the elements must be pairs; a pair whose key is not a
  string would leave the model's dicts and is reported as such.
\<close>

definition beyond_model :: exn where
  "beyond_model = Exn ''(beyond the model)'' ''a dict key that is not a string''"

fun elements :: "pyval \<Rightarrow> pyval list option" where
  "elements (PList xs) = Some xs"
| "elements (PTuple xs) = Some xs"
| "elements (PSet xs) = Some xs"
| "elements (PStr s) = Some (map (\<lambda>c. PStr [c]) s)"
| "elements (PDict d) = Some (map PStr (dkeys d))"
| "elements v = None"

definition dict_pair :: "pyval \<Rightarrow> exn + (string \<times> pyval)" where
  "dict_pair x =
     (case elements x of
        None \<Rightarrow> Inl (TypeError ''cannot convert dictionary update sequence element to a sequence'')
      | Some ys \<Rightarrow>
          if length ys \<noteq> 2
          then Inl (ValueError ''dictionary update sequence element has wrong length; 2 is required'')
          else (case as_str (ys ! 0) of
                  Some k \<Rightarrow> Inr (k, ys ! 1)
                | None \<Rightarrow>
                    Inl (if hashable (ys ! 0) then beyond_model
                         else TypeError (''unhashable type: '' @ repr_str (py_type_name (ys ! 0))))))"

fun dict_pairs :: "pyval list \<Rightarrow> dict \<Rightarrow> exn + dict" where
  "dict_pairs [] d = Inr d"
| "dict_pairs (x # xs) d =
     (case dict_pair x of Inl e \<Rightarrow> Inl e | Inr (k, v) \<Rightarrow> dict_pairs xs (dset k v d))"

definition py_dict :: "pyval \<Rightarrow> exn + dict" where
  "py_dict v =
     (case v of
        PDict d \<Rightarrow> Inr d
      | _ \<Rightarrow> (case elements v of
               Some xs \<Rightarrow> dict_pairs xs []
             | None \<Rightarrow> Inl (TypeError (repr_str (py_type_name v) @ '' object is not iterable''))))"

text \<open>\<open>{**v}\<close>: only a mapping unpacks.\<close>

fun py_mapping :: "pyval \<Rightarrow> exn + dict" where
  "py_mapping (PDict d) = Inr d"
| "py_mapping v = Inl (TypeError (repr_str (py_type_name v) @ '' object is not a mapping''))"

text \<open>\<open>v.get(k)\<close>: only a dict has it.\<close>

fun py_get :: "pyval \<Rightarrow> string \<Rightarrow> exn + pyval" where
  "py_get (PDict d) k = Inr (or_none (dget d k))"
| "py_get v k =
     Inl (AttributeError (repr_str (py_type_name v) @ '' object has no attribute '' @ repr_str ''get''))"

end
