(* ===== verification/PyJson.thy ===== *)
theory PyJson
  imports PyValues
begin

text \<open>
  What the program uses of the standard library's \<open>json\<close>: \<open>json.dumps\<close> with its default
  ASCII escaping and given separators, and \<open>json.loads\<close>. Not modelled: the recursion limit
  of the interpreter, and code points from 256 on, which are no characters of the model:
  \<open>loads\<close> reports a \<open>\u\<close> escape of one instead of reading it.
\<close>

section \<open>json.dumps\<close>

abbreviation quote :: char where "quote \<equiv> CHR 0x22"
abbreviation backslash :: char where "backslash \<equiv> CHR 0x5C"

definition esc_char :: "char \<Rightarrow> string" where
  "esc_char c =
     (if c = quote \<or> c = backslash then [backslash, c]
      else if c = CHR 0x0A then [backslash, CHR ''n'']
      else if c = CHR 0x0D then [backslash, CHR ''r'']
      else if c = CHR 0x09 then [backslash, CHR ''t'']
      else if c = CHR 0x08 then [backslash, CHR ''b'']
      else if c = CHR 0x0C then [backslash, CHR ''f'']
      else if 32 \<le> (of_char c :: nat) \<and> (of_char c :: nat) < 127 then [c]
      else [backslash, CHR ''u'', CHR ''0'', CHR ''0''] @ hex2 (of_char c))"

definition json_str :: "string \<Rightarrow> string" where
  "json_str s = quote # concat (map esc_char s) @ [quote]"

fun enc :: "string \<Rightarrow> string \<Rightarrow> pyval \<Rightarrow> string"
  and enc_list :: "string \<Rightarrow> string \<Rightarrow> pyval list \<Rightarrow> string"
  and enc_items :: "string \<Rightarrow> string \<Rightarrow> (string \<times> pyval) list \<Rightarrow> string" where
  "enc isep ksep PNone = ''null''"
| "enc isep ksep (PBool b) = (if b then ''true'' else ''false'')"
| "enc isep ksep (PInt i) = show_int i"
| "enc isep ksep (PFloat s) = s"
| "enc isep ksep (PStr s) = json_str s"
| "enc isep ksep (PList xs) = ''['' @ enc_list isep ksep xs @ '']''"
| "enc isep ksep (PTuple xs) = ''['' @ enc_list isep ksep xs @ '']''"
| "enc isep ksep (PDict d) = ''{'' @ enc_items isep ksep d @ ''}''"
| "enc isep ksep (PSet xs) = []"
| "enc isep ksep (PObj v a s r) = []"
| "enc_list isep ksep [] = []"
| "enc_list isep ksep [x] = enc isep ksep x"
| "enc_list isep ksep (x # y # ys) = enc isep ksep x @ isep @ enc_list isep ksep (y # ys)"
| "enc_items isep ksep [] = []"
| "enc_items isep ksep [(k, v)] = json_str k @ ksep @ enc isep ksep v"
| "enc_items isep ksep ((k, v) # p # d) =
     json_str k @ ksep @ enc isep ksep v @ isep @ enc_items isep ksep (p # d)"

fun serialisable :: "pyval \<Rightarrow> bool"
  and serialisable_list :: "pyval list \<Rightarrow> bool"
  and serialisable_items :: "(string \<times> pyval) list \<Rightarrow> bool" where
  "serialisable PNone = True"
| "serialisable (PBool b) = True"
| "serialisable (PInt i) = True"
| "serialisable (PFloat s) = True"
| "serialisable (PStr s) = True"
| "serialisable (PList xs) = serialisable_list xs"
| "serialisable (PTuple xs) = serialisable_list xs"
| "serialisable (PDict d) = serialisable_items d"
| "serialisable (PSet xs) = False"
| "serialisable (PObj v a s r) = False"
| "serialisable_list [] = True"
| "serialisable_list (x # xs) = (serialisable x \<and> serialisable_list xs)"
| "serialisable_items [] = True"
| "serialisable_items ((k, v) # d) = (serialisable v \<and> serialisable_items d)"

definition json_dumps :: "string \<Rightarrow> string \<Rightarrow> pyval \<Rightarrow> exn + string" where
  "json_dumps isep ksep v =
     (if serialisable v then Inr (enc isep ksep v)
      else Inl (TypeError ''Object is not JSON serializable''))"

section \<open>json.loads\<close>

text \<open>
  Why a text is not read: it is not JSON; an integer literal is longer than the
  interpreter converts (4300 digits); it escapes a code point the model does not have; the
  fuel is used up, which never happens from \<open>json_loads\<close>.
\<close>

datatype parse_error = NotJson | IntTooLong | BeyondModel | OutOfFuel

definition MAX_STR_DIGITS :: nat where
  "MAX_STR_DIGITS = 4300"

definition is_ws :: "char \<Rightarrow> bool" where
  "is_ws c = (c \<in> {CHR '' '', CHR 0x09, CHR 0x0A, CHR 0x0D})"

definition skip_ws :: "string \<Rightarrow> string" where
  "skip_ws s = dropWhile is_ws s"

definition starts :: "char \<Rightarrow> string \<Rightarrow> bool" where
  "starts c s = (s \<noteq> [] \<and> hd s = c)"

definition hex_val :: "char \<Rightarrow> nat option" where
  "hex_val c =
     (let n = of_char c :: nat
      in if 48 \<le> n \<and> n \<le> 57 then Some (n - 48)
         else if 97 \<le> n \<and> n \<le> 102 then Some (n - 87)
         else if 65 \<le> n \<and> n \<le> 70 then Some (n - 55)
         else None)"

definition hex4 :: "char \<Rightarrow> char \<Rightarrow> char \<Rightarrow> char \<Rightarrow> nat option" where
  "hex4 a b c d =
     (case (hex_val a, hex_val b, hex_val c, hex_val d) of
        (Some w, Some x, Some y, Some z) \<Rightarrow> Some (((w * 16 + x) * 16 + y) * 16 + z)
      | _ \<Rightarrow> None)"

definition simple_escape :: "char \<Rightarrow> char option" where
  "simple_escape c =
     (if c = quote \<or> c = backslash \<or> c = CHR ''/'' then Some c
      else if c = CHR ''n'' then Some (CHR 0x0A)
      else if c = CHR ''r'' then Some (CHR 0x0D)
      else if c = CHR ''t'' then Some (CHR 0x09)
      else if c = CHR ''b'' then Some (CHR 0x08)
      else if c = CHR ''f'' then Some (CHR 0x0C)
      else None)"

definition cons_to :: "char \<Rightarrow> parse_error + (string \<times> string) \<Rightarrow> parse_error + (string \<times> string)" where
  "cons_to c r = (case r of Inl e \<Rightarrow> Inl e | Inr (s, rest) \<Rightarrow> Inr (c # s, rest))"

text \<open>The characters of a string literal, after its opening quote.\<close>

fun scan_string :: "string \<Rightarrow> parse_error + (string \<times> string)" where
  "scan_string [] = Inl NotJson"
| "scan_string (c # cs) =
     (if c = quote then Inr ([], cs)
      else if c = backslash then
        (case cs of
           [] \<Rightarrow> Inl NotJson
         | d # ds \<Rightarrow>
             if d = CHR ''u'' then
               (case ds of
                  h1 # h2 # h3 # h4 # rest \<Rightarrow>
                    (case hex4 h1 h2 h3 h4 of
                       None \<Rightarrow> Inl NotJson
                     | Some n \<Rightarrow> if n < 256 then cons_to (char_of n) (scan_string rest)
                                 else Inl BeyondModel)
                | _ \<Rightarrow> Inl NotJson)
             else (case simple_escape d of
                     None \<Rightarrow> Inl NotJson
                   | Some x \<Rightarrow> cons_to x (scan_string ds)))
      else if (of_char c :: nat) < 32 then Inl NotJson
      else cons_to c (scan_string cs))"


text \<open>A number: sign, integer part without a superfluous zero, fraction, exponent.\<close>

definition frac_part :: "string \<Rightarrow> string \<times> string" where
  "frac_part s =
     (let ds = takeWhile is_digit (tl s)
      in if starts (CHR ''.'') s \<and> ds \<noteq> [] then (CHR ''.'' # ds, dropWhile is_digit (tl s))
         else ([], s))"

definition split_sign :: "string \<Rightarrow> string \<times> string" where
  "split_sign s =
     (if starts (CHR ''-'') s \<or> starts (CHR ''+'') s then ([hd s], tl s) else ([], s))"

definition exp_part :: "string \<Rightarrow> string \<times> string" where
  "exp_part s =
     (let (sg, r) = split_sign (tl s);
          ds = takeWhile is_digit r
      in if (starts (CHR ''e'') s \<or> starts (CHR ''E'') s) \<and> ds \<noteq> []
         then (hd s # sg @ ds, dropWhile is_digit r)
         else ([], s))"

definition split_minus :: "string \<Rightarrow> string \<times> string" where
  "split_minus s = (if starts (CHR ''-'') s then ([CHR ''-''], tl s) else ([], s))"

definition int_part :: "string \<Rightarrow> string" where
  "int_part s =
     (let ds = takeWhile is_digit s
      in if ds \<noteq> [] \<and> hd ds = CHR ''0'' then [CHR ''0''] else ds)"

definition parse_number :: "string \<Rightarrow> parse_error + (pyval \<times> string)" where
  "parse_number s =
     (let (sg, r0) = split_minus s;
          ip = int_part r0;
          (fp, r2) = frac_part (drop (length ip) r0);
          (ep, r3) = exp_part r2
      in if ip = [] then Inl NotJson
         else if fp \<noteq> [] \<or> ep \<noteq> [] then Inr (PFloat (sg @ ip @ fp @ ep), r3)
         else if MAX_STR_DIGITS < length ip then Inl IntTooLong
         else Inr (PInt (if sg \<noteq> [] then - int (nat_of_digits ip) else int (nat_of_digits ip)), r3))"

definition literals :: "(string \<times> pyval) list" where
  "literals =
     [(''null'', PNone), (''true'', PBool True), (''false'', PBool False),
      (''NaN'', PFloat ''NaN''), (''Infinity'', PFloat ''Infinity''),
      (''-Infinity'', PFloat ''-Infinity'')]"

fun parse_literal :: "(string \<times> pyval) list \<Rightarrow> string \<Rightarrow> (pyval \<times> string) option" where
  "parse_literal [] s = None"
| "parse_literal ((w, v) # ws) s =
     (if take (length w) s = w then Some (v, drop (length w) s) else parse_literal ws s)"

text \<open>Values, the elements of an array after its bracket, the members of an object.\<close>

fun parse_value :: "nat \<Rightarrow> string \<Rightarrow> parse_error + (pyval \<times> string)"
  and parse_elements :: "nat \<Rightarrow> string \<Rightarrow> parse_error + (pyval list \<times> string)"
  and parse_members :: "nat \<Rightarrow> dict \<Rightarrow> string \<Rightarrow> parse_error + (dict \<times> string)" where
  "parse_value 0 s = Inl OutOfFuel"
| "parse_value (Suc n) s =
     (if starts quote s then
        (case scan_string (tl s) of Inl e \<Rightarrow> Inl e | Inr (t, r) \<Rightarrow> Inr (PStr t, r))
      else if starts (CHR ''{'') s then
        (let r = skip_ws (tl s)
         in if starts (CHR ''}'') r then Inr (PDict [], tl r)
            else (case parse_members n [] r of Inl e \<Rightarrow> Inl e | Inr (d, r') \<Rightarrow> Inr (PDict d, r')))
      else if starts (CHR ''['') s then
        (let r = skip_ws (tl s)
         in if starts (CHR '']'') r then Inr (PList [], tl r)
            else (case parse_elements n r of Inl e \<Rightarrow> Inl e | Inr (xs, r') \<Rightarrow> Inr (PList xs, r')))
      else (case parse_literal literals s of
              Some vr \<Rightarrow> Inr vr
            | None \<Rightarrow> parse_number s))"
| "parse_elements 0 s = Inl OutOfFuel"
| "parse_elements (Suc n) s =
     (case parse_value n s of
        Inl e \<Rightarrow> Inl e
      | Inr (v, r) \<Rightarrow>
          (let r1 = skip_ws r
           in if starts (CHR '']'') r1 then Inr ([v], tl r1)
              else if starts (CHR '','') r1 then
                (case parse_elements n (skip_ws (tl r1)) of
                   Inl e \<Rightarrow> Inl e
                 | Inr (vs, r2) \<Rightarrow> Inr (v # vs, r2))
              else Inl NotJson))"
| "parse_members 0 d s = Inl OutOfFuel"
| "parse_members (Suc n) d s =
     (if \<not> starts quote s then Inl NotJson
      else (case scan_string (tl s) of
              Inl e \<Rightarrow> Inl e
            | Inr (k, r) \<Rightarrow>
                (let r1 = skip_ws r
                 in if \<not> starts (CHR '':'') r1 then Inl NotJson
                    else (case parse_value n (skip_ws (tl r1)) of
                            Inl e \<Rightarrow> Inl e
                          | Inr (v, r2) \<Rightarrow>
                              (let r3 = skip_ws r2
                               in if starts (CHR ''}'') r3 then Inr (dset k v d, tl r3)
                                  else if starts (CHR '','') r3
                                  then parse_members n (dset k v d) (skip_ws (tl r3))
                                  else Inl NotJson)))))"

definition parse_exn :: "parse_error \<Rightarrow> exn" where
  "parse_exn e =
     (case e of
        NotJson \<Rightarrow> Exn ''JSONDecodeError'' ''not a JSON text''
      | IntTooLong \<Rightarrow> ValueError ''Exceeds the limit (4300 digits) for integer string conversion''
      | BeyondModel \<Rightarrow> Exn ''(beyond the model)'' ''a code point from 256 on''
      | OutOfFuel \<Rightarrow> Exn ''(beyond the model)'' ''out of fuel'')"

definition json_parse :: "string \<Rightarrow> parse_error + pyval" where
  "json_parse s =
     (case parse_value (2 * length s + 2) (skip_ws s) of
        Inl e \<Rightarrow> Inl e
      | Inr (v, r) \<Rightarrow> if skip_ws r = [] then Inr v else Inl NotJson)"

definition json_loads :: "string \<Rightarrow> exn + pyval" where
  "json_loads s = (case json_parse s of Inl e \<Rightarrow> Inl (parse_exn e) | Inr v \<Rightarrow> Inr v)"


section \<open>Reading back what was written\<close>

text \<open>
  The values \<open>json.loads\<close> can produce: JSON data whose float texts are JSON float literals
  and whose integers stay below the digit limit. (Tuples come back as lists.)
\<close>

definition float_ok :: "string \<Rightarrow> bool" where
  "float_ok s =
     (s \<in> {''NaN'', ''Infinity'', ''-Infinity''} \<or> parse_number s = Inr (PFloat s, []))"

fun json_ok :: "pyval \<Rightarrow> bool"
  and json_ok_list :: "pyval list \<Rightarrow> bool"
  and json_ok_items :: "(string \<times> pyval) list \<Rightarrow> bool" where
  "json_ok PNone = True"
| "json_ok (PBool b) = True"
| "json_ok (PInt i) = (length (show_nat (nat \<bar>i\<bar>)) \<le> MAX_STR_DIGITS)"
| "json_ok (PFloat s) = float_ok s"
| "json_ok (PStr s) = True"
| "json_ok (PList xs) = json_ok_list xs"
| "json_ok (PTuple xs) = False"
| "json_ok (PDict d) = (dict_wf d \<and> json_ok_items d)"
| "json_ok (PSet xs) = False"
| "json_ok (PObj v a s r) = False"
| "json_ok_list [] = True"
| "json_ok_list (x # xs) = (json_ok x \<and> json_ok_list xs)"
| "json_ok_items [] = True"
| "json_ok_items ((k, v) # d) = (json_ok v \<and> json_ok_items d)"

subsection \<open>Strings\<close>

lemma hex_val_digit: "n < 16 \<Longrightarrow> hex_val (hex_digit n) = Some n"
proof -
  have "\<forall>m \<in> set [0..<16]. hex_val (hex_digit m) = Some m"
    by (simp add: upt_rec hex_digit_def hex_val_def)
  then show "n < 16 \<Longrightarrow> ?thesis" by simp
qed

lemma hex4_hex2:
  "n < 256 \<Longrightarrow> \<exists>a b. hex2 n = [a, b] \<and> hex4 (CHR ''0'') (CHR ''0'') a b = Some n"
proof -
  assume "n < 256"
  moreover have "hex_val (CHR ''0'') = Some 0" by (simp add: hex_val_def)
  ultimately show ?thesis by (simp add: hex2_def hex4_def hex_val_digit)
qed

lemma scan_esc_char: "scan_string (esc_char c @ t) = cons_to c (scan_string t)"
proof -
  have n: "(of_char c :: nat) < 256" by simp
  obtain a b where h: "hex2 (of_char c) = [a, b]"
    "hex4 (CHR ''0'') (CHR ''0'') a b = Some (of_char c)"
    using hex4_hex2 [OF n] by blast
  have "char_of (of_char c :: nat) = c" by simp
  with h n show ?thesis by (auto simp: esc_char_def simple_escape_def)
qed

lemma scan_json_str: "scan_string (concat (map esc_char s) @ quote # rest) = Inr (s, rest)"
  by (induction s) (simp_all add: scan_esc_char cons_to_def)

lemma json_str_starts: "starts quote (json_str s @ rest) \<and> tl (json_str s @ rest) = concat (map esc_char s) @ quote # rest"
  by (simp add: json_str_def starts_def)

subsection \<open>Numbers\<close>

text \<open>What may follow a number without becoming part of it.\<close>

definition num_end :: "string \<Rightarrow> bool" where
  "num_end s = (s = [] \<or> hd s \<notin> set ''0123456789.eE+-'')"

lemma takeWhile_digits_end:
  "num_end rest \<Longrightarrow> takeWhile is_digit (x @ rest) = takeWhile is_digit x"
  "num_end rest \<Longrightarrow> dropWhile is_digit (x @ rest) = dropWhile is_digit x @ rest"
proof -
  assume "num_end rest"
  then have r: "takeWhile is_digit rest = []" "dropWhile is_digit rest = rest"
    by (cases rest; auto simp: num_end_def is_digit_def)+
  show "takeWhile is_digit (x @ rest) = takeWhile is_digit x"
    by (induction x) (simp_all add: r)
  show "dropWhile is_digit (x @ rest) = dropWhile is_digit x @ rest"
    by (induction x) (simp_all add: r)
qed

lemma starts_append: "x \<noteq> [] \<Longrightarrow> starts c (x @ rest) = starts c x"
  by (simp add: starts_def)

lemma num_end_starts:
  "num_end rest \<Longrightarrow> \<not> starts (CHR ''.'') rest \<and> \<not> starts (CHR ''e'') rest \<and> \<not> starts (CHR ''E'') rest
     \<and> \<not> starts (CHR ''-'') rest \<and> \<not> starts (CHR ''+'') rest"
  by (auto simp: num_end_def starts_def)

lemma not_starts_Nil [simp]: "\<not> starts c []"
  by (simp add: starts_def)

lemma frac_part_append:
  "num_end rest \<Longrightarrow> frac_part (x @ rest) = (fst (frac_part x), snd (frac_part x) @ rest)"
proof (cases x)
  case Nil
  assume "num_end rest"
  with Nil show ?thesis using num_end_starts [of rest] by (simp add: frac_part_def Let_def)
next
  case (Cons c cs)
  assume "num_end rest"
  with Cons show ?thesis by (simp add: frac_part_def Let_def takeWhile_digits_end starts_def)
qed

lemma split_sign_append:
  "num_end rest \<Longrightarrow> split_sign (x @ rest) = (fst (split_sign x), snd (split_sign x) @ rest)"
  using num_end_starts [of rest] by (cases x) (auto simp: split_sign_def starts_def)

lemma exp_part_append:
  "num_end rest \<Longrightarrow> exp_part (x @ rest) = (fst (exp_part x), snd (exp_part x) @ rest)"
proof (cases x)
  case Nil
  assume "num_end rest"
  with Nil show ?thesis using num_end_starts [of rest]
    by (simp add: exp_part_def case_prod_beta Let_def)
next
  case (Cons c cs)
  assume e: "num_end rest"
  with Cons show ?thesis
    by (simp add: exp_part_def case_prod_beta Let_def split_sign_append takeWhile_digits_end starts_def)
qed

lemma int_part_append: "num_end rest \<Longrightarrow> int_part (x @ rest) = int_part x"
  by (simp add: int_part_def takeWhile_digits_end)

lemma int_part_length: "length (int_part x) \<le> length x"
  by (cases x) (auto simp: int_part_def Let_def length_takeWhile_le intro: le_SucI)

lemma drop_int_part: "drop (length (int_part x)) (x @ rest) = drop (length (int_part x)) x @ rest"
  using int_part_length [of x] by simp

lemma split_minus_append:
  "num_end rest \<Longrightarrow> split_minus (x @ rest) = (fst (split_minus x), snd (split_minus x) @ rest)"
  using num_end_starts [of rest] by (cases x) (auto simp: split_minus_def starts_def)

lemma parse_number_append:
  assumes "parse_number x = Inr (v, r)" and e: "num_end rest"
  shows "parse_number (x @ rest) = Inr (v, r @ rest)"
proof -
  obtain sg r0 where m: "split_minus x = (sg, r0)" by fastforce
  obtain fp r2 where f: "frac_part (drop (length (int_part r0)) r0) = (fp, r2)" by fastforce
  obtain ep r3 where x: "exp_part r2 = (ep, r3)" by fastforce
  have "split_minus (x @ rest) = (sg, r0 @ rest)" using m split_minus_append [OF e, of x] by simp
  moreover have "frac_part (drop (length (int_part r0)) (r0 @ rest)) = (fp, r2 @ rest)"
    using f frac_part_append [OF e] by (simp add: drop_int_part del: drop_append)
  moreover have "exp_part (r2 @ rest) = (ep, r3 @ rest)" using x exp_part_append [OF e] by simp
  ultimately show ?thesis using assms(1) m f x
    by (auto simp: parse_number_def Let_def int_part_append [OF e] simp del: drop_append
        split: if_splits)
qed

text \<open>The decimal text of an integer is read back.\<close>

lemma takeWhile_show_nat: "takeWhile is_digit (show_nat n) = show_nat n"
  using show_nat_digits [of n] by (simp add: list_all_iff)

lemma int_part_show_nat: "int_part (show_nat n) = show_nat n"
proof (cases "n = 0")
  case True
  then show ?thesis by (simp add: int_part_def show_nat_small digit_def is_digit_def)
next
  case False
  then show ?thesis using show_nat_hd [of n] by (simp add: int_part_def Let_def takeWhile_show_nat)
qed

lemma split_minus_show_nat [simp]: "split_minus (show_nat n) = ([], show_nat n)"
proof -
  have "hd (show_nat n) \<in> set (show_nat n)" by simp
  then have "is_digit (hd (show_nat n))" using show_nat_digits [of n] by (simp add: list_all_iff)
  then show ?thesis by (auto simp: split_minus_def starts_def is_digit_def)
qed

lemma parse_number_show_int:
  assumes "length (show_nat (nat \<bar>i\<bar>)) \<le> MAX_STR_DIGITS"
  shows "parse_number (show_int i) = Inr (PInt i, [])"
proof -
  have m: "split_minus (show_int i) = (if i < 0 then ''-'' else [], show_nat (nat \<bar>i\<bar>))"
    by (simp add: show_int_def split_minus_def [of "_ # _"] starts_def)
  show ?thesis
    using assms by (simp add: parse_number_def m Let_def int_part_show_nat frac_part_def exp_part_def
        split_sign_def)
qed


text \<open>A number is no literal and no string, array or object.\<close>

lemma parse_number_first:
  assumes "parse_number x = Inr (v, r)"
  shows "\<exists>c y. x = c # y \<and> (is_digit c \<or> (c = CHR ''-'' \<and> (\<exists>d z. y = d # z \<and> is_digit d)))"
proof -
  have "int_part (snd (split_minus x)) \<noteq> []"
    using assms by (auto simp: parse_number_def Let_def case_prod_beta)
  then have "takeWhile is_digit (snd (split_minus x)) \<noteq> []"
    by (auto simp: int_part_def Let_def split: if_splits)
  then obtain c y where "snd (split_minus x) = c # y" "is_digit c"
    by (cases "snd (split_minus x)") (auto split: if_splits)
  then show ?thesis by (cases x) (auto simp: split_minus_def starts_def split: if_splits)
qed

lemma parse_value_number:
  assumes "parse_number x = Inr (v, [])" and "num_end rest"
  shows "parse_value (Suc n) (x @ rest) = Inr (v, rest)"
proof -
  from parse_number_first [OF assms(1)] obtain c y where x: "x = c # y"
    "is_digit c \<or> (c = CHR ''-'' \<and> (\<exists>d z. y = d # z \<and> is_digit d))"
    by blast
  then have "parse_literal literals (x @ rest) = None"
    by (auto simp: literals_def is_digit_def)
  moreover have "\<not> starts quote (x @ rest) \<and> \<not> starts (CHR ''{'') (x @ rest) \<and> \<not> starts (CHR ''['') (x @ rest)"
    using x by (auto simp: starts_def is_digit_def)
  ultimately show ?thesis using parse_number_append [OF assms] by simp
qed

lemma parse_value_float:
  assumes "float_ok s" and "num_end rest"
  shows "parse_value (Suc n) (s @ rest) = Inr (PFloat s, rest)"
proof (cases "parse_number s = Inr (PFloat s, [])")
  case True
  then show ?thesis using assms(2) by (rule parse_value_number)
next
  case False
  with assms(1) have "s = ''NaN'' \<or> s = ''Infinity'' \<or> s = ''-Infinity''"
    by (simp add: float_ok_def)
  then show ?thesis by (elim disjE) (simp_all add: literals_def starts_def)
qed

subsection \<open>Values\<close>

lemma parse_literals [simp]:
  "parse_value (Suc n) (CHR ''n'' # CHR ''u'' # CHR ''l'' # CHR ''l'' # rest) = Inr (PNone, rest)"
  "parse_value (Suc n) (CHR ''t'' # CHR ''r'' # CHR ''u'' # CHR ''e'' # rest) = Inr (PBool True, rest)"
  "parse_value (Suc n) (CHR ''f'' # CHR ''a'' # CHR ''l'' # CHR ''s'' # CHR ''e'' # rest) = Inr (PBool False, rest)"
  by (simp_all add: literals_def starts_def)

lemma parse_value_str [simp]: "parse_value (Suc n) (json_str s @ rest) = Inr (PStr s, rest)"
  using json_str_starts [of s rest] by (simp add: scan_json_str)

text \<open>The first character of a value.\<close>

lemma num_first_ok:
  "parse_number x = Inr (v, r) \<Longrightarrow>
   x \<noteq> [] \<and> \<not> is_ws (hd x) \<and> hd x \<noteq> CHR '']'' \<and> hd x \<noteq> CHR ''}''"
  using parse_number_first [of x v r] by (auto simp: is_ws_def is_digit_def)

lemma enc_first:
  assumes "json_ok v"
  shows "enc isep ksep v \<noteq> [] \<and> \<not> is_ws (hd (enc isep ksep v)) \<and>
         hd (enc isep ksep v) \<noteq> CHR '']'' \<and> hd (enc isep ksep v) \<noteq> CHR ''}''"
proof (cases v)
  case (PInt i)
  with assms show ?thesis using num_first_ok [OF parse_number_show_int [of i]] by simp
next
  case (PFloat s)
  with assms show ?thesis using num_first_ok [of s] by (auto simp: float_ok_def is_ws_def)
qed (use assms in \<open>auto simp: is_ws_def json_str_def\<close>)

lemma skip_ws_id: "s \<noteq> [] \<Longrightarrow> \<not> is_ws (hd s) \<Longrightarrow> skip_ws s = s"
  by (cases s) (auto simp: skip_ws_def)

lemma skip_ws_append: "list_all is_ws w \<Longrightarrow> s \<noteq> [] \<Longrightarrow> \<not> is_ws (hd s) \<Longrightarrow> skip_ws (w @ s) = s"
  by (cases s) (auto simp: skip_ws_def list_all_iff)

text \<open>A separator is its punctuation mark followed by white space.\<close>

definition separators :: "string \<Rightarrow> string \<Rightarrow> bool" where
  "separators isep ksep =
     (starts (CHR '','') isep \<and> list_all is_ws (tl isep) \<and>
      starts (CHR '':'') ksep \<and> list_all is_ws (tl ksep))"


lemma num_end_marks: "separators isep ksep \<Longrightarrow> num_end (isep @ t) \<and> num_end (CHR '']'' # t) \<and> num_end (CHR ''}'' # t)"
  by (cases isep) (auto simp: separators_def num_end_def starts_def)

declare parse_value.simps(2) [simp del] parse_elements.simps(2) [simp del]
  parse_members.simps(2) [simp del]

lemma enc_list_first:
  assumes "json_ok_list (x # xs)"
  shows "enc_list isep ksep (x # xs) \<noteq> [] \<and> \<not> is_ws (hd (enc_list isep ksep (x # xs))) \<and>
         hd (enc_list isep ksep (x # xs)) \<noteq> CHR '']''"
  using assms enc_first [of x isep ksep] by (cases xs) auto

lemma enc_items_first:
  "enc_items isep ksep (p # d) \<noteq> [] \<and> hd (enc_items isep ksep (p # d)) = quote"
  by (cases p; cases d) (auto simp: json_str_def)

text \<open>One step of each loop, given that the value is read.\<close>

lemma starts_Cons [simp]: "starts c (d # s) \<longleftrightarrow> d = c"
  by (auto simp: starts_def)

lemma skip_ws_Cons [simp]: "\<not> is_ws c \<Longrightarrow> skip_ws (c # s) = c # s"
  by (simp add: skip_ws_def)

lemma not_ws [simp]: "\<not> is_ws (CHR '']'')" "\<not> is_ws (CHR ''}'')" "\<not> is_ws (CHR '','')"
    "\<not> is_ws (CHR '':'')" "\<not> is_ws quote"
  by (simp_all add: is_ws_def)

lemma parse_elements_last:
  assumes "parse_value n s = Inr (v, CHR '']'' # rest)"
  shows "parse_elements (Suc n) s = Inr ([v], rest)"
  using assms by (simp add: parse_elements.simps(2))

lemma parse_elements_more:
  assumes "parse_value n s = Inr (v, isep @ t)" and "separators isep ksep"
    and "t \<noteq> []" and "\<not> is_ws (hd t)" and "parse_elements n t = Inr (vs, rest)"
  shows "parse_elements (Suc n) s = Inr (v # vs, rest)"
  using assms by (cases isep) (auto simp: parse_elements.simps(2) separators_def skip_ws_append)

lemma parse_members_value:
  assumes "separators isep ksep" and "t \<noteq> []" and "\<not> is_ws (hd t)"
    and "parse_value n t = Inr (v, r)" and "r \<noteq> []" and "\<not> is_ws (hd r)"
  shows "parse_members (Suc n) acc (json_str k @ ksep @ t) =
           (if starts (CHR ''}'') r then Inr (dset k v acc, tl r)
            else if starts (CHR '','') r then parse_members n (dset k v acc) (skip_ws (tl r))
            else Inl NotJson)"
proof -
  have k: "scan_string (tl (json_str k @ ksep @ t)) = Inr (k, ksep @ t)"
    using json_str_starts [of k "ksep @ t"] by (simp add: scan_json_str)
  have "starts quote (json_str k @ ksep @ t)" using json_str_starts by blast
  with k assms show ?thesis
    by (cases ksep) (auto simp: parse_members.simps(2) separators_def skip_ws_append skip_ws_id)
qed

lemma parse_value_list:
  assumes "json_ok_list xs" and "xs \<noteq> []"
    and "parse_elements n (enc_list isep ksep xs @ CHR '']'' # rest) = Inr (xs, rest)"
  shows "parse_value (Suc n) (enc isep ksep (PList xs) @ rest) = Inr (PList xs, rest)"
proof -
  let ?t = "enc_list isep ksep xs @ CHR '']'' # rest"
  obtain x ys where "xs = x # ys" using assms(2) by (cases xs) auto
  with enc_list_first [of x ys isep ksep] assms(1)
  have "skip_ws ?t = ?t" "\<not> starts (CHR '']'') ?t" by (auto simp: skip_ws_id starts_def)
  with assms(3) show ?thesis by (simp add: parse_value.simps(2))
qed

lemma parse_value_dict:
  assumes "d \<noteq> []"
    and "parse_members n [] (enc_items isep ksep d @ CHR ''}'' # rest) = Inr (d', rest)"
  shows "parse_value (Suc n) (enc isep ksep (PDict d) @ rest) = Inr (PDict d', rest)"
proof -
  let ?t = "enc_items isep ksep d @ CHR ''}'' # rest"
  obtain p e where "d = p # e" using assms(1) by (cases d) auto
  with enc_items_first [of isep ksep p e]
  have "skip_ws ?t = ?t" "\<not> starts (CHR ''}'') ?t" by (auto simp: skip_ws_id starts_def)
  with assms(2) show ?thesis by (simp add: parse_value.simps(2))
qed


lemma dmerge_Nil: "dict_wf d \<Longrightarrow> dmerge [] d = d"
proof -
  have "dict_wf (a @ d) \<Longrightarrow> foldl (\<lambda>d (k, v). dset k v d) a d = a @ d" for a
  proof (induction d arbitrary: a)
    case (Cons p d)
    obtain k v where p: "p = (k, v)" by (cases p)
    with Cons.prems have "dget a k = None" by (simp add: dict_wf_def dkeys_def dget_None_keys)
    with Cons p show ?case by (simp add: dset_new)
  qed simp
  from this [of "[]"] show "dict_wf d \<Longrightarrow> ?thesis" by (simp add: dmerge_def)
qed

lemma json_ok_serialisable:
  "json_ok v \<Longrightarrow> serialisable v"
  "json_ok_list xs \<Longrightarrow> serialisable_list xs"
  "json_ok_items d \<Longrightarrow> serialisable_items d"
  by (induction v and xs and d rule: json_ok_json_ok_list_json_ok_items.induct) auto

text \<open>One more element, and one more member, before the others.\<close>

lemma parse_elements_cons:
  assumes sep: "separators isep ksep" and ok: "json_ok_list (y # ys)"
    and x: "\<And>r. num_end r \<Longrightarrow> parse_value m (enc isep ksep x @ r) = Inr (x, r)"
    and ys: "parse_elements m (enc_list isep ksep (y # ys) @ CHR '']'' # rest) = Inr (y # ys, rest)"
  shows "parse_elements (Suc m) (enc_list isep ksep (x # y # ys) @ CHR '']'' # rest) = Inr (x # y # ys, rest)"
proof -
  let ?t = "enc_list isep ksep (y # ys) @ CHR '']'' # rest"
  have "parse_value m (enc isep ksep x @ isep @ ?t) = Inr (x, isep @ ?t)"
    using num_end_marks [OF sep] by (intro x) simp
  moreover have "?t \<noteq> []" "\<not> is_ws (hd ?t)"
    using enc_list_first [of y ys isep ksep] ok by auto
  ultimately show ?thesis using sep ys by (simp add: parse_elements_more)
qed

lemma parse_members_cons:
  assumes sep: "separators isep ksep" and ok: "json_ok v"
    and v: "\<And>r. num_end r \<Longrightarrow> parse_value m (enc isep ksep v @ r) = Inr (v, r)"
    and d: "parse_members m (dset k v acc) (enc_items isep ksep (p # d) @ CHR ''}'' # rest) = Inr (y, rest)"
  shows "parse_members (Suc m) acc (enc_items isep ksep ((k, v) # p # d) @ CHR ''}'' # rest) = Inr (y, rest)"
proof -
  let ?r = "enc_items isep ksep (p # d) @ CHR ''}'' # rest"
  let ?t = "enc isep ksep v @ isep @ ?r"
  have sp: "isep \<noteq> [] \<and> hd isep = CHR '','' \<and> list_all is_ws (tl isep)"
    using sep by (auto simp: separators_def starts_def)
  have "parse_value m ?t = Inr (v, isep @ ?r)" using num_end_marks [OF sep] by (intro v) simp
  moreover have "skip_ws (tl (isep @ ?r)) = ?r"
    using sp enc_items_first [of isep ksep p d] by (cases isep) (simp_all add: skip_ws_append)
  ultimately show ?thesis
    using d sep sp enc_first [OF ok, of isep ksep]
    by (simp add: parse_members_value starts_append) (simp add: starts_def)
qed

text \<open>The three loops read their own output; the fuel is twice the length of the text.\<close>

lemma parse_enc:
  shows "separators isep ksep \<Longrightarrow> json_ok v \<Longrightarrow> num_end rest \<Longrightarrow> 2 * length (enc isep ksep v) \<le> n \<Longrightarrow>
           parse_value n (enc isep ksep v @ rest) = Inr (v, rest)"
    and "separators isep ksep \<Longrightarrow> json_ok_list xs \<Longrightarrow> xs \<noteq> [] \<Longrightarrow>
           2 * length (enc_list isep ksep xs) + 1 \<le> n \<Longrightarrow>
           parse_elements n (enc_list isep ksep xs @ CHR '']'' # rest) = Inr (xs, rest)"
    and "separators isep ksep \<Longrightarrow> json_ok_items d \<Longrightarrow> d \<noteq> [] \<Longrightarrow>
           2 * length (enc_items isep ksep d) + 1 \<le> n \<Longrightarrow>
           parse_members n acc (enc_items isep ksep d @ CHR ''}'' # rest) = Inr (dmerge acc d, rest)"
proof (induction isep ksep v and isep ksep xs and isep ksep d arbitrary: n rest and n rest and n rest acc
    rule: enc_enc_list_enc_items.induct)
  case (1 isep ksep)
  then obtain m where "n = Suc m" by (cases n) auto
  then show ?case by simp
next
  case (2 isep ksep b)
  then obtain m where "n = Suc m" by (cases n) (auto split: if_splits)
  then show ?case by simp
next
  case (3 isep ksep i)
  then obtain m where "n = Suc m" using enc_first [OF 3(2)] by (cases n) auto
  with 3 show ?case by (simp add: parse_value_number [OF parse_number_show_int])
next
  case (4 isep ksep s)
  then obtain m where "n = Suc m" using enc_first [OF 4(2)] by (cases n) auto
  with 4 show ?case by (simp add: parse_value_float)
next
  case (5 isep ksep s)
  then obtain m where "n = Suc m" by (cases n) (auto simp: json_str_def)
  then show ?case by simp
next
  case (6 isep ksep xs)
  then obtain m where n: "n = Suc m" and m: "2 * length (enc_list isep ksep xs) + 1 \<le> m"
    by (cases n) auto
  show ?case
  proof (cases "xs = []")
    case True
    then show ?thesis using n by (simp add: parse_value.simps(2))
  next
    case False
    with 6 m show ?thesis unfolding n by (intro parse_value_list) simp_all
  qed
next
  case (8 isep ksep d)
  then obtain m where n: "n = Suc m" and m: "2 * length (enc_items isep ksep d) + 1 \<le> m"
    by (cases n) auto
  show ?case
  proof (cases "d = []")
    case True
    then show ?thesis using n by (simp add: parse_value.simps(2))
  next
    case False
    have "dmerge [] d = d" using 8(3) by (simp add: dmerge_Nil)
    with 8 m False parse_value_dict [of d m isep ksep rest d] show ?thesis unfolding n by simp
  qed
next
  case (12 isep ksep x)
  then obtain m where n: "n = Suc m" by (cases n) auto
  then show ?case using 12 num_end_marks by (simp add: parse_elements_last)
next
  case (13 isep ksep x y ys)
  then obtain m where n: "n = Suc m" by (cases n) auto
  have len: "0 < length isep" using 13(3) by (auto simp: separators_def starts_def)
  show ?case unfolding n
  proof (rule parse_elements_cons)
    show "parse_value m (enc isep ksep x @ r) = Inr (x, r)" if "num_end r" for r
      using 13 n that by simp
    show "parse_elements m (enc_list isep ksep (y # ys) @ CHR '']'' # rest) = Inr (y # ys, rest)"
      using 13 n len by (intro 13(2)) (cases isep; auto)+
  qed (use 13 in simp_all)
next
  case (15 isep ksep k v)
  then obtain m where n: "n = Suc m" by (cases n) auto
  let ?t = "enc isep ksep v @ CHR ''}'' # rest"
  have "parse_value m ?t = Inr (v, CHR ''}'' # rest)"
    using 15 n num_end_marks by (simp add: json_str_def)
  then show ?case using 15 n enc_first [of v isep ksep]
    by (simp add: parse_members_value dmerge_def)
next
  case (16 isep ksep k v p d)
  then obtain m where n: "n = Suc m" by (cases n) auto
  have len: "0 < length isep" using 16(3) by (auto simp: separators_def starts_def)
  have m: "dmerge acc ((k, v) # p # d) = dmerge (dset k v acc) (p # d)" by (simp add: dmerge_def)
  show ?case unfolding n m
  proof (rule parse_members_cons)
    show "parse_value m (enc isep ksep v @ r) = Inr (v, r)" if "num_end r" for r
      using 16 n that by (simp add: json_str_def)
    show "parse_members m (dset k v acc) (enc_items isep ksep (p # d) @ CHR ''}'' # rest)
        = Inr (dmerge (dset k v acc) (p # d), rest)"
      using 16 n len by (intro 16(2)) (cases isep; auto simp: json_str_def)+
  qed (use 16 in simp_all)
qed simp_all

lemma json_roundtrip_law:
  assumes "separators isep ksep" and "json_ok v"
  shows "json_dumps isep ksep v = Inr (enc isep ksep v) \<and> json_loads (enc isep ksep v) = Inr v"
proof -
  have "serialisable v" using assms(2) by (rule json_ok_serialisable)
  moreover have "skip_ws (enc isep ksep v) = enc isep ksep v"
    using enc_first [OF assms(2)] by (simp add: skip_ws_id)
  moreover have "parse_value (2 * length (enc isep ksep v) + 2) (enc isep ksep v @ []) = Inr (v, [])"
    using assms by (intro parse_enc) (simp_all add: num_end_def)
  ultimately show ?thesis by (simp add: json_dumps_def json_loads_def json_parse_def skip_ws_def)
qed


section \<open>The fuel is enough\<close>

lemma cons_to_simps [simp]:
  "cons_to c r = Inr (s, rest) \<longleftrightarrow> (\<exists>t. r = Inr (t, rest) \<and> s = c # t)"
  "cons_to c r = Inl e \<longleftrightarrow> r = Inl e"
  by (auto simp: cons_to_def split: sum.splits prod.splits)

declare scan_string.simps(2) [simp del]

lemma scan_string_shrinks: "scan_string s = Inr (t, r) \<Longrightarrow> length r < length s"
proof (induction s arbitrary: t rule: measure_induct_rule [of length])
  case (less s)
  show ?case
  proof (cases s)
    case Nil
    with less.prems show ?thesis by simp
  next
    case (Cons c cs)
    have IH: "length r < length s" if "scan_string u = Inr (w, r)" "length u \<le> length cs" for u w
      using less.IH [OF _ that(1)] that(2) Cons by simp
    from less.prems show ?thesis
      unfolding Cons scan_string.simps(2)
      by (auto split: if_splits list.splits option.splits dest!: IH simp: Cons)
  qed
qed

lemma scan_string_fuel: "scan_string s \<noteq> Inl OutOfFuel"
proof (induction s rule: scan_string.induct)
  case 1
  then show ?case by simp
next
  case (2 c cs)
  then show ?case by (subst scan_string.simps(2)) (auto split: list.splits option.splits)
qed

lemma length_skip_ws: "length (skip_ws s) \<le> length s"
  by (simp add: skip_ws_def length_dropWhile_le)

lemma starts_length: "starts c s \<Longrightarrow> length (skip_ws (tl s)) < length s"
  using length_skip_ws [of "tl s"] by (cases s) auto

lemma frac_part_length: "length (snd (frac_part s)) \<le> length s"
  using length_dropWhile_le [of is_digit "tl s"] by (auto simp: frac_part_def Let_def)

lemma exp_part_length: "length (snd (exp_part s)) \<le> length s"
proof -
  have "length (dropWhile is_digit (snd (split_sign (tl s)))) \<le> length s"
    using length_dropWhile_le [of is_digit "snd (split_sign (tl s))"]
    by (auto simp: split_sign_def split: if_splits intro: order_trans)
  then show ?thesis by (auto simp: exp_part_def Let_def case_prod_beta)
qed

lemma parse_number_shrinks:
  assumes p: "parse_number s = Inr (v, r)"
  shows "length r < length s"
proof -
  obtain sg r0 where m: "split_minus s = (sg, r0)" by fastforce
  obtain fp r2 where f: "frac_part (drop (length (int_part r0)) r0) = (fp, r2)" by fastforce
  obtain ep r3 where x: "exp_part r2 = (ep, r3)" by fastforce
  have ip: "int_part r0 \<noteq> []" and r: "r = r3"
    using p m f x by (auto simp: parse_number_def Let_def split: if_splits)
  have "length r3 \<le> length (drop (length (int_part r0)) r0)"
    using frac_part_length [of "drop (length (int_part r0)) r0"] exp_part_length [of r2] f x by simp
  also have "\<dots> < length r0" using ip int_part_length [of r0] by (cases r0) auto
  also have "\<dots> \<le> length s" using m by (auto simp: split_minus_def split: if_splits)
  finally show ?thesis by (simp add: r)
qed

lemma parse_literal_shrinks: "parse_literal literals s = Some (v, r) \<Longrightarrow> length r < length s"
  by (cases s) (auto simp: literals_def split: if_splits)

text \<open>
  Each parser either runs out of the fuel it was given, which needs a text longer than the
  fuel, or fails otherwise, or leaves less text than it got.
\<close>

definition consumes :: "nat \<Rightarrow> nat \<Rightarrow> string \<Rightarrow> parse_error + ('a \<times> string) \<Rightarrow> bool" where
  "consumes k n s res =
     (case res of
        Inl e \<Rightarrow> 2 * length s + k \<le> n \<longrightarrow> e \<noteq> OutOfFuel
      | Inr (v, r) \<Rightarrow> length r < length s)"

lemma consumes_weaken:
  "consumes k n s' res \<Longrightarrow> length s' < length s \<Longrightarrow> k \<le> Suc (Suc k') \<Longrightarrow> consumes k' n s res"
  by (auto simp: consumes_def split: sum.splits)

lemma consumes_map:
  "consumes k n s res \<Longrightarrow>
   consumes k n s (case res of Inl e \<Rightarrow> Inl e | Inr (x, r) \<Rightarrow> Inr (f x, r))"
  by (auto simp: consumes_def split: sum.splits)

lemma consumes_Suc: "consumes k n s res \<Longrightarrow> consumes (Suc k) (Suc n) s res"
  by (auto simp: consumes_def split: sum.splits)

lemma consumes_value:
  assumes el: "\<And>r. consumes 2 n r (parse_elements n r)"
    and mem: "\<And>d r. consumes 2 n r (parse_members n d r)"
  shows "consumes 1 (Suc n) s (parse_value (Suc n) s)"
proof -
  consider "starts quote s" | "\<not> starts quote s" "starts (CHR ''{'') s"
    | "\<not> starts quote s" "\<not> starts (CHR ''{'') s" "starts (CHR ''['') s"
    | "\<not> starts quote s" "\<not> starts (CHR ''{'') s" "\<not> starts (CHR ''['') s" by blast
  then show ?thesis
  proof cases
    case 1
    then show ?thesis
      using scan_string_shrinks [of "tl s"] scan_string_fuel [of "tl s"]
      by (cases s) (auto simp: parse_value.simps(2) consumes_def split: sum.splits)
  next
    case 2
    let ?r = "skip_ws (tl s)"
    have len: "length ?r < length s" using 2 by (intro starts_length)
    have "consumes 0 n s (parse_members n [] ?r)" by (rule consumes_weaken [OF mem len]) simp
    then have "consumes 1 (Suc n) s (case parse_members n [] ?r of Inl e \<Rightarrow> Inl e | Inr (d, r') \<Rightarrow> Inr (PDict d, r'))"
      using consumes_Suc consumes_map by fastforce
    moreover have "consumes 1 (Suc n) s (Inr (PDict [], tl ?r))" using len by (simp add: consumes_def)
    ultimately show ?thesis using 2 by (simp add: parse_value.simps(2) Let_def)
  next
    case 3
    let ?r = "skip_ws (tl s)"
    have len: "length ?r < length s" using 3 by (intro starts_length)
    have "consumes 0 n s (parse_elements n ?r)" by (rule consumes_weaken [OF el len]) simp
    then have "consumes 1 (Suc n) s (case parse_elements n ?r of Inl e \<Rightarrow> Inl e | Inr (d, r') \<Rightarrow> Inr (PList d, r'))"
      using consumes_Suc consumes_map by fastforce
    moreover have "consumes 1 (Suc n) s (Inr (PList [], tl ?r))" using len by (simp add: consumes_def)
    ultimately show ?thesis using 3 by (simp add: parse_value.simps(2) Let_def)
  next
    case 4
    have "parse_number s \<noteq> Inl OutOfFuel" by (auto simp: parse_number_def Let_def case_prod_beta)
    with 4 show ?thesis
      using parse_number_shrinks [of s] parse_literal_shrinks [of s]
      by (auto simp: parse_value.simps(2) consumes_def split: option.splits sum.splits)
  qed
qed

lemma consumes_elements:
  assumes v: "consumes 1 n s (parse_value n s)" and el: "\<And>r. consumes 2 n r (parse_elements n r)"
  shows "consumes 2 (Suc n) s (parse_elements (Suc n) s)"
proof (cases "parse_value n s")
  case (Inl e)
  with v show ?thesis by (simp add: parse_elements.simps(2) consumes_def)
next
  case (Inr p)
  obtain x r where p: "p = (x, r)" by (cases p)
  let ?r1 = "skip_ws r"
  have len: "length ?r1 < length s"
    using v Inr p length_skip_ws [of r] by (simp add: consumes_def)
  show ?thesis
  proof (cases "starts (CHR '','') ?r1")
    case True
    have "length (skip_ws (tl ?r1)) < length s" using starts_length [OF True] len by simp
    then have "consumes 1 n s (parse_elements n (skip_ws (tl ?r1)))"
      by (intro consumes_weaken [OF el]) simp_all
    then have "consumes 2 (Suc n) s (case parse_elements n (skip_ws (tl ?r1)) of
        Inl e \<Rightarrow> Inl e | Inr (vs, r2) \<Rightarrow> Inr (x # vs, r2))"
      using consumes_Suc [of 1] consumes_map by (fastforce simp: numeral_2_eq_2)
    with True Inr p show ?thesis by (simp add: parse_elements.simps(2) Let_def starts_def)
  next
    case False
    with Inr p len show ?thesis
      by (auto simp: parse_elements.simps(2) Let_def consumes_def intro: le_less_trans [of _ "length ?r1"])
  qed
qed

lemma consumes_members:
  assumes v: "\<And>r. consumes 1 n r (parse_value n r)" and mem: "\<And>d r. consumes 2 n r (parse_members n d r)"
  shows "consumes 2 (Suc n) s (parse_members (Suc n) d s)"
proof (cases "starts quote s \<and> (\<exists>k r. scan_string (tl s) = Inr (k, r) \<and> starts (CHR '':'') (skip_ws r))")
  case False
  then show ?thesis using scan_string_fuel [of "tl s"]
    by (auto simp: parse_members.simps(2) Let_def consumes_def split: sum.splits)
next
  case True
  then obtain k r where k: "starts quote s" "scan_string (tl s) = Inr (k, r)" "starts (CHR '':'') (skip_ws r)"
    by blast
  let ?s2 = "skip_ws (tl (skip_ws r))"
  have len: "length ?s2 < length s"
    using starts_length [OF k(3)] length_skip_ws [of r] scan_string_shrinks [OF k(2)] by simp
  note val = consumes_weaken [OF v len, of 1]
  show ?thesis
  proof (cases "parse_value n ?s2")
    case (Inl e)
    with k val show ?thesis by (simp add: parse_members.simps(2) Let_def) (simp add: consumes_def)
  next
    case (Inr p)
    obtain x r2 where p: "p = (x, r2)" by (cases p)
    let ?r3 = "skip_ws r2"
    have len3: "length ?r3 < length s"
      using val Inr p length_skip_ws [of r2] by (simp add: consumes_def)
    show ?thesis
    proof (cases "starts (CHR '','') ?r3")
      case True
      have "length (skip_ws (tl ?r3)) < length s" using starts_length [OF True] len3 by simp
      then have "consumes 1 n s (parse_members n (dset k x d) (skip_ws (tl ?r3)))"
        by (intro consumes_weaken [OF mem]) simp_all
      then have "consumes 2 (Suc n) s (parse_members n (dset k x d) (skip_ws (tl ?r3)))"
        using consumes_Suc [of 1] by (simp add: numeral_2_eq_2)
      with True k Inr p show ?thesis by (simp add: parse_members.simps(2) Let_def starts_def)
    next
      case False
      with k Inr p len3 show ?thesis
        by (auto simp: parse_members.simps(2) Let_def consumes_def intro: le_less_trans [of _ "length ?r3"])
    qed
  qed
qed

lemma parse_consumes:
  "consumes 1 n s (parse_value n s) \<and> consumes 2 n s (parse_elements n s) \<and>
   (\<forall>d. consumes 2 n s (parse_members n d s))"
proof (induction n arbitrary: s)
  case 0
  then show ?case by (simp add: consumes_def)
next
  case (Suc n)
  then show ?case
    by (intro conjI allI consumes_value consumes_elements consumes_members) simp_all
qed

text \<open>The parser always ends with an answer about the text: the fuel of \<open>json_parse\<close>,
  twice the length of the text, is never used up.\<close>

lemma json_parse_total: "json_parse s \<noteq> Inl OutOfFuel"
proof -
  have "consumes 1 (2 * length s + 2) (skip_ws s) (parse_value (2 * length s + 2) (skip_ws s))"
    using parse_consumes by blast
  then show ?thesis using length_skip_ws [of s]
    by (auto simp: json_parse_def consumes_def split: sum.splits)
qed

end
