(* ===== verification/Translation.thy ===== *)
theory Translation
  imports PyJson
begin

text \<open>
  \<open>translation.py\<close>: message chunks of a graph's stream are translated into protocol frames.
  A translator keeps one frame emitter per message id. Frames go to a sink; an operation
  here returns the frames it emitted, in order, whether it raised, and the new state: what
  was emitted before an exception stays emitted.
\<close>

section \<open>Chunks\<close>

text \<open>
  A streamed message chunk of the graph library: its \<open>type\<close>, \<open>id\<close>, \<open>content\<close>,
  \<open>tool_call_chunks\<close> and \<open>usage_metadata\<close> attributes (absent attributes as the defaults of
  the code's \<open>getattr\<close>), and the address \<open>id(chunk)\<close>. The fields of a tool call fragment
  have the types the library documents.
\<close>

record fragment =
  f_index :: "int option"
  f_id :: "string option"
  f_name :: "string option"
  f_args :: "string option"

record chunk =
  k_type :: pyval
  k_id :: "string option"
  k_addr :: int
  k_content :: pyval
  k_fragments :: "fragment list"
  k_usage :: "dict option"

text \<open>\<open>a or b\<close> on optional strings.\<close>

definition or_str :: "string option \<Rightarrow> string option \<Rightarrow> string option" where
  "or_str a b = (case a of Some s \<Rightarrow> if s \<noteq> [] then Some s else b | None \<Rightarrow> b)"

text \<open>\<open>str.lower\<close> on code points below 256.\<close>

definition lower_char :: "char \<Rightarrow> char" where
  "lower_char c =
     (let n = of_char c :: nat
      in if (65 \<le> n \<and> n \<le> 90) \<or> (192 \<le> n \<and> n \<le> 222 \<and> n \<noteq> 215) then char_of (n + 32) else c)"

definition lower :: "string \<Rightarrow> string" where
  "lower s = map lower_char s"

definition ROLE_BY_TYPE :: "(string, string) pydict" where
  "ROLE_BY_TYPE =
     [(''aimessage'', ''ai''), (''aimessagechunk'', ''ai''),
      (''humanmessage'', ''human''), (''humanmessagechunk'', ''human''),
      (''systemmessage'', ''system''), (''systemmessagechunk'', ''system''),
      (''toolmessage'', ''tool''), (''toolmessagechunk'', ''tool'')]"

definition role_of :: "chunk \<Rightarrow> string option" where
  "role_of c = dget ROLE_BY_TYPE (lower (py_str (k_type c)))"

section \<open>Frames\<close>

datatype frame =
    MessageStart string string
  | TextDelta int string
  | BlockStart int "string option" "string option"
  | BlockDelta int "string option" "string option" string
  | BlockFinish int "string option" "string option" pyval
  | MessageFinish "dict option"

fun opt_str :: "string option \<Rightarrow> pyval" where
  "opt_str None = PNone"
| "opt_str (Some s) = PStr s"

text \<open>The dict the code hands to the sink.\<close>

fun frame_data :: "frame \<Rightarrow> pyval" where
  "frame_data (MessageStart role mid) =
     PDict [(''event'', PStr ''message-start''), (''role'', PStr role), (''id'', PStr mid)]"
| "frame_data (TextDelta i text) =
     PDict [(''event'', PStr ''content-block-delta''), (''index'', PInt i),
            (''delta'', PDict [(''type'', PStr ''text-delta''), (''text'', PStr text)])]"
| "frame_data (BlockStart i cid name) =
     PDict [(''event'', PStr ''content-block-start''), (''index'', PInt i),
            (''content'', PDict [(''type'', PStr ''tool_call_chunk''), (''id'', opt_str cid),
                                 (''name'', opt_str name), (''args'', PStr []), (''index'', PInt i)])]"
| "frame_data (BlockDelta i cid name args) =
     PDict [(''event'', PStr ''content-block-delta''), (''index'', PInt i),
            (''delta'', PDict [(''type'', PStr ''block-delta''),
                (''fields'', PDict [(''type'', PStr ''tool_call_chunk''), (''id'', opt_str cid),
                                    (''name'', opt_str name), (''args'', PStr args)])])]"
| "frame_data (BlockFinish i cid name args) =
     PDict [(''event'', PStr ''content-block-finish''), (''index'', PInt i),
            (''content'', PDict [(''type'', PStr ''tool_call''), (''id'', opt_str cid),
                                 (''name'', opt_str name), (''args'', args), (''index'', PInt i)])]"
| "frame_data (MessageFinish usage) =
     PDict ((''event'', PStr ''message-finish'')
            # (case usage of None \<Rightarrow> [] | Some u \<Rightarrow> if u \<noteq> [] then [(''usage'', PDict u)] else []))"

section \<open>Emitters\<close>

record block =
  b_index :: int
  b_call_id :: "string option"
  b_name :: "string option"
  b_args :: string

definition new_block :: "int \<Rightarrow> string option \<Rightarrow> string option \<Rightarrow> block" where
  "new_block i cid name = \<lparr>b_index = i, b_call_id = cid, b_name = name, b_args = []\<rparr>"

text \<open>
  \<open>parse_args\<close> catches \<open>JSONDecodeError\<close> only: another exception of \<open>json.loads\<close> (the
  integer digit limit raises a plain \<open>ValueError\<close>) leaves it.
\<close>

definition args_value :: "string \<Rightarrow> exn + pyval" where
  "args_value args =
     (let raw = (if args \<noteq> [] then args else ''{}'')
      in case json_loads raw of
           Inr v \<Rightarrow> Inr (case v of PDict d \<Rightarrow> PDict d | _ \<Rightarrow> PDict [(''value'', v)])
         | Inl e \<Rightarrow>
             if exn_type e = ''JSONDecodeError'' then Inr (PDict [(''raw'', PStr raw)])
             else Inl e)"

definition parse_args :: "block \<Rightarrow> exn + pyval" where
  "parse_args b = args_value (b_args b)"

record emitter =
  m_id :: string
  m_role :: string
  m_started :: bool
  m_finished :: bool
  m_text_index :: "int option"
  m_blocks :: "(int, block) pydict"
  m_next_index :: int
  m_usage :: "dict option"

definition new_emitter :: "string \<Rightarrow> string \<Rightarrow> emitter" where
  "new_emitter mid role =
     \<lparr>m_id = mid, m_role = role, m_started = False, m_finished = False, m_text_index = None,
      m_blocks = [], m_next_index = 0, m_usage = None\<rparr>"

definition allocate_index :: "emitter \<Rightarrow> int \<times> emitter" where
  "allocate_index m = (m_next_index m, m\<lparr>m_next_index := m_next_index m + 1\<rparr>)"

definition emit_start :: "emitter \<Rightarrow> frame list \<times> emitter" where
  "emit_start m =
     (if m_started m then ([], m)
      else ([MessageStart (m_role m) (m_id m)], m\<lparr>m_started := True\<rparr>))"

definition ensure_text_index :: "emitter \<Rightarrow> int \<times> emitter" where
  "ensure_text_index m =
     (case m_text_index m of
        Some i \<Rightarrow> (i, m)
      | None \<Rightarrow> (case allocate_index m of (i, m') \<Rightarrow> (i, m'\<lparr>m_text_index := Some i\<rparr>)))"

text \<open>\<open>_text_content\<close>: a string, or the text blocks of a content list.\<close>

fun text_part :: "pyval \<Rightarrow> string" where
  "text_part (PStr s) = s"
| "text_part (PDict d) =
     (if dget d ''type'' = Some (PStr ''text'') \<or> dget d ''type'' = Some (PStr ''text_delta'')
      then py_str (py_or (or_none (dget d ''text'')) (PStr [])) else [])"
| "text_part v = []"

fun text_content :: "pyval \<Rightarrow> string" where
  "text_content (PStr s) = s"
| "text_content (PList xs) = concat (map text_part xs)"
| "text_content v = []"

definition emit_text_delta :: "emitter \<Rightarrow> chunk \<Rightarrow> frame list \<times> emitter" where
  "emit_text_delta m c =
     (let text = text_content (k_content c)
      in if text = [] then ([], m)
         else (case ensure_text_index m of (i, m') \<Rightarrow> ([TextDelta i text], m')))"

text \<open>One fragment of \<open>_emit_tool_call_chunks\<close>.\<close>

definition fragment_index :: "emitter \<Rightarrow> fragment \<Rightarrow> int \<times> emitter" where
  "fragment_index m f =
     (case f_index f of Some i \<Rightarrow> (i, m) | None \<Rightarrow> allocate_index m)"

definition open_block :: "emitter \<Rightarrow> int \<Rightarrow> fragment \<Rightarrow> frame list \<times> block" where
  "open_block m i f =
     (case dget (m_blocks m) i of
        None \<Rightarrow> ([BlockStart i (f_id f) (f_name f)], new_block i (f_id f) (f_name f))
      | Some b \<Rightarrow> ([], b\<lparr>b_call_id := or_str (b_call_id b) (f_id f),
                        b_name := or_str (b_name b) (f_name f)\<rparr>))"

definition add_args :: "int \<Rightarrow> block \<Rightarrow> fragment \<Rightarrow> frame list \<times> block" where
  "add_args i b f =
     (case f_args f of
        Some a \<Rightarrow> if a \<noteq> [] then ([BlockDelta i (b_call_id b) (b_name b) a], b\<lparr>b_args := b_args b @ a\<rparr>)
                  else ([], b)
      | None \<Rightarrow> ([], b))"

definition emit_fragment :: "emitter \<Rightarrow> fragment \<Rightarrow> frame list \<times> emitter" where
  "emit_fragment m f =
     (let (i, m1) = fragment_index m f;
          (fs1, b1) = open_block m1 i f;
          (fs2, b2) = add_args i b1 f
      in (fs1 @ fs2, m1\<lparr>m_blocks := dset i b2 (m_blocks m1)\<rparr>))"

fun emit_fragments :: "emitter \<Rightarrow> fragment list \<Rightarrow> frame list \<times> emitter" where
  "emit_fragments m [] = ([], m)"
| "emit_fragments m (f # fs) =
     (let (out1, m1) = emit_fragment m f;
          (out2, m2) = emit_fragments m1 fs
      in (out1 @ out2, m2))"


section \<open>The translator\<close>

type_synonym translator = "(string, emitter) pydict"

text \<open>\<open>_finalize_blocks\<close> goes through the block indices in increasing order.\<close>

fun finalize_blocks :: "int list \<Rightarrow> emitter \<Rightarrow> frame list \<times> exn option" where
  "finalize_blocks [] m = ([], None)"
| "finalize_blocks (i # is) m =
     (case dget (m_blocks m) i of
        None \<Rightarrow> finalize_blocks is m
      | Some b \<Rightarrow>
          (case parse_args b of
             Inl e \<Rightarrow> ([], Some e)
           | Inr a \<Rightarrow>
               (let (fs, x) = finalize_blocks is m
                in (BlockFinish i (b_call_id b) (b_name b) a # fs, x))))"

definition finish_emitter :: "dict option \<Rightarrow> emitter \<Rightarrow> frame list \<times> exn option \<times> emitter" where
  "finish_emitter usage m =
     (let m1 = (case usage of Some u \<Rightarrow> if u \<noteq> [] then m\<lparr>m_usage := Some u\<rparr> else m | None \<Rightarrow> m);
          (fs, x) = finalize_blocks (sort (dkeys (m_blocks m1))) m1
      in case x of
           Some e \<Rightarrow> (fs, Some e, m1)
         | None \<Rightarrow> (fs @ [MessageFinish (m_usage m1)], None, m1\<lparr>m_finished := True\<rparr>))"

fun finish_targets :: "dict option \<Rightarrow> string list \<Rightarrow> translator \<Rightarrow> frame list \<times> exn option \<times> translator" where
  "finish_targets usage [] tr = ([], None, tr)"
| "finish_targets usage (mid # mids) tr =
     (case dget tr mid of
        None \<Rightarrow> finish_targets usage mids tr
      | Some m \<Rightarrow>
          (case finish_emitter usage m of
             (fs, Some e, m') \<Rightarrow> (fs, Some e, dset mid m' tr)
           | (fs, None, m') \<Rightarrow>
               (let (fs', x, tr') = finish_targets usage mids (dset mid m' tr)
                in (fs @ fs', x, tr'))))"

definition unfinished :: "translator \<Rightarrow> string list" where
  "unfinished tr = map fst (filter (\<lambda>(mid, m). \<not> m_finished m) tr)"

definition finish_chunk :: "chunk option \<Rightarrow> translator \<Rightarrow> frame list \<times> exn option \<times> translator" where
  "finish_chunk oc tr =
     (case oc of
        None \<Rightarrow> finish_targets None (unfinished tr) tr
      | Some c \<Rightarrow>
          (let targets =
             (case k_id c of
                None \<Rightarrow> []
              | Some mid \<Rightarrow>
                  if mid = [] then []
                  else (case dget tr mid of
                          None \<Rightarrow> []
                        | Some m \<Rightarrow> if m_finished m then [] else [mid]))
           in finish_targets (k_usage c) targets tr))"

definition message_id :: "chunk \<Rightarrow> string" where
  "message_id c =
     (case k_id c of
        Some mid \<Rightarrow> if mid \<noteq> [] then mid else ''msg-'' @ show_int (k_addr c)
      | None \<Rightarrow> ''msg-'' @ show_int (k_addr c))"

text \<open>The part of \<open>feed\<close> after the emitter is found or made.\<close>

definition feed_emitter :: "emitter \<Rightarrow> chunk \<Rightarrow> frame list \<times> emitter" where
  "feed_emitter m c =
     (if m_finished m then ([], m)
      else
        (let (fs1, m1) = emit_start m;
             (fs2, m2) = emit_text_delta m1 c;
             (fs3, m3) = emit_fragments m2 (k_fragments c)
         in (fs1 @ fs2 @ fs3, m3)))"

definition feed :: "chunk \<Rightarrow> translator \<Rightarrow> frame list \<times> exn option \<times> translator" where
  "feed c tr =
     (case role_of c of
        None \<Rightarrow> ([], None, tr)
      | Some role \<Rightarrow>
          (let mid = message_id c
           in case dget tr mid of
                Some m \<Rightarrow>
                  (let (fs, m') = feed_emitter m c in (fs, None, dset mid m' tr))
              | None \<Rightarrow>
                  (case finish_chunk None tr of
                     (fs0, Some e, tr') \<Rightarrow> (fs0, Some e, tr')
                   | (fs0, None, tr') \<Rightarrow>
                       (let (fs, m') = feed_emitter (new_emitter mid role) c
                        in (fs0 @ fs, None, dset mid m' tr')))))"

text \<open>The operations a run performs on its translator, and the frames they emit.\<close>

datatype translator_op = Feed chunk | Finish "chunk option"

fun translate :: "translator_op \<Rightarrow> translator \<Rightarrow> frame list \<times> exn option \<times> translator" where
  "translate (Feed c) tr = feed c tr"
| "translate (Finish oc) tr = finish_chunk oc tr"

record translation =
  t_state :: translator
  t_frames :: "frame list"

definition translation_step :: "translation \<Rightarrow> translator_op \<Rightarrow> translation" where
  "translation_step t op =
     (case translate op (t_state t) of
        (fs, x, tr) \<Rightarrow> \<lparr>t_state = tr, t_frames = t_frames t @ fs\<rparr>)"

definition new_translation :: translation where
  "new_translation = \<lparr>t_state = [], t_frames = []\<rparr>"

section \<open>\<open>values_event_data\<close> and \<open>interrupts_from_snapshot\<close>\<close>

text \<open>\<open>dict(state or {})\<close>\<close>

definition values_event_data :: "pyval \<Rightarrow> exn + dict" where
  "values_event_data state = py_dict (py_or state (PDict []))"

text \<open>
  One entry: an object has its \<open>id\<close> and \<open>value\<close> as attributes, a dict as items. The id is
  converted to a string, a missing one becomes \<open>None\<close>'s text.
\<close>

definition interrupt_pair :: "pyval \<Rightarrow> string \<times> pyval" where
  "interrupt_pair entry =
     (let item = (\<lambda>k. case entry of PDict d \<Rightarrow> or_none (dget d k) | _ \<Rightarrow> PNone);
          iid = py_or (or_none (py_getattr entry ''id'')) (item ''id'');
          payload = (case entry of PDict d \<Rightarrow> item ''value'' | _ \<Rightarrow> or_none (py_getattr entry ''value''))
      in (py_str iid, payload))"

definition interrupts_from_snapshot :: "pyval \<Rightarrow> exn + (string \<times> pyval) list" where
  "interrupts_from_snapshot v =
     (case py_get (py_or v (PDict [])) ''__interrupt__'' of
        Inl e \<Rightarrow> Inl e
      | Inr entries \<Rightarrow>
          (case elements (py_or entries (PList [])) of
             None \<Rightarrow> Inl (TypeError (repr_str (py_type_name entries) @ '' object is not iterable''))
           | Some xs \<Rightarrow> Inr (map interrupt_pair xs)))"

section \<open>The frame protocol\<close>

text \<open>
  The grammar of a frame stream, as an automaton: outside a message only \<open>message-start\<close>;
  inside, text deltas, block starts with a fresh index, deltas and finishes of started blocks,
  and \<open>message-finish\<close>. Inside a message it collects the argument text of every block, and a
  block finish must carry the value of that text.
\<close>

datatype frame_state = Outside | Inside "(int, string) pydict"

fun frame_step :: "frame_state \<Rightarrow> frame \<Rightarrow> frame_state option" where
  "frame_step Outside (MessageStart role mid) = Some (Inside [])"
| "frame_step Outside f = None"
| "frame_step (Inside acc) (TextDelta i t) = Some (Inside acc)"
| "frame_step (Inside acc) (BlockStart i cid name) =
     (if dget acc i = None then Some (Inside (dset i [] acc)) else None)"
| "frame_step (Inside acc) (BlockDelta i cid name a) =
     (case dget acc i of None \<Rightarrow> None | Some args \<Rightarrow> Some (Inside (dset i (args @ a) acc)))"
| "frame_step (Inside acc) (BlockFinish i cid name v) =
     (case dget acc i of
        None \<Rightarrow> None
      | Some args \<Rightarrow> if args_value args = Inr v then Some (Inside acc) else None)"
| "frame_step (Inside acc) (MessageFinish u) = Some Outside"
| "frame_step (Inside acc) (MessageStart role mid) = None"

fun frame_run :: "frame_state \<Rightarrow> frame list \<Rightarrow> frame_state option" where
  "frame_run st [] = Some st"
| "frame_run st (f # fs) = (case frame_step st f of None \<Rightarrow> None | Some st' \<Rightarrow> frame_run st' fs)"

definition well_framed :: "frame list \<Rightarrow> bool" where
  "well_framed fs = (frame_run Outside fs \<noteq> None)"

lemma frame_run_append:
  "frame_run st (fs @ gs) = (case frame_run st fs of None \<Rightarrow> None | Some st' \<Rightarrow> frame_run st' gs)"
  by (induction fs arbitrary: st) (auto split: option.splits)


text \<open>The emitter of the message that is open, and the automaton inside it.\<close>

definition emitter_at :: "emitter \<Rightarrow> (int, string) pydict \<Rightarrow> bool" where
  "emitter_at m is =
     (m_started m \<and> \<not> m_finished m \<and> (\<forall>i. dget is i = map_option b_args (dget (m_blocks m) i)))"

definition translator_inv :: "translator \<Rightarrow> frame_state \<Rightarrow> bool" where
  "translator_inv tr st =
     (dict_wf tr \<and>
      (case st of
         Outside \<Rightarrow> (\<forall>mid m. dget tr mid = Some m \<longrightarrow> m_finished m)
       | Inside is \<Rightarrow>
           (\<exists>mid m. dget tr mid = Some m \<and> emitter_at m is \<and>
              (\<forall>mid' m'. dget tr mid' = Some m' \<longrightarrow> mid' \<noteq> mid \<longrightarrow> m_finished m'))))"

definition translation_inv :: "translation \<Rightarrow> bool" where
  "translation_inv t = (\<exists>st. frame_run Outside (t_frames t) = Some st \<and> translator_inv (t_state t) st)"

lemma unfinished_set:
  "dict_wf tr \<Longrightarrow> set (unfinished tr) = {mid. \<exists>m. dget tr mid = Some m \<and> \<not> m_finished m}"
  by (auto simp: unfinished_def dict_wf_def dkeys_def dget_def image_iff dest: map_of_SomeD)

lemma unfinished_distinct: "dict_wf tr \<Longrightarrow> distinct (unfinished tr)"
  unfolding unfinished_def dict_wf_def dkeys_def by (induction tr) auto

lemma unfinished_Outside: "translator_inv tr Outside \<Longrightarrow> unfinished tr = []"
proof -
  assume "translator_inv tr Outside"
  then have "set (unfinished tr) = {}" by (auto simp: translator_inv_def unfinished_set)
  then show ?thesis by simp
qed

lemma unfinished_Inside:
  assumes "translator_inv tr (Inside is)"
  shows "\<exists>mid m. unfinished tr = [mid] \<and> dget tr mid = Some m \<and> emitter_at m is"
proof -
  obtain mid m where m: "dget tr mid = Some m" "emitter_at m is" "dict_wf tr"
    "\<forall>mid' m'. dget tr mid' = Some m' \<longrightarrow> mid' \<noteq> mid \<longrightarrow> m_finished m'"
    using assms by (auto simp: translator_inv_def)
  then have "set (unfinished tr) = {mid}" by (auto simp: unfinished_set emitter_at_def)
  with unfinished_distinct [OF m(3)] have "unfinished tr = [mid]"
    by (rule distinct_set_single)
  with m show ?thesis by blast
qed

subsection \<open>Emitting\<close>

lemma allocate_index_simps [simp]:
  "m_blocks (snd (allocate_index m)) = m_blocks m"
  "m_started (snd (allocate_index m)) = m_started m"
  "m_finished (snd (allocate_index m)) = m_finished m"
  by (simp_all add: allocate_index_def)

lemma fragment_index_simps [simp]:
  "m_blocks (snd (fragment_index m f)) = m_blocks m"
  "m_started (snd (fragment_index m f)) = m_started m"
  "m_finished (snd (fragment_index m f)) = m_finished m"
  by (simp_all add: fragment_index_def split: option.split)

lemma emit_text_delta_simps [simp]:
  "m_blocks (snd (emit_text_delta m c)) = m_blocks m"
  "m_started (snd (emit_text_delta m c)) = m_started m"
  "m_finished (snd (emit_text_delta m c)) = m_finished m"
  by (simp_all add: emit_text_delta_def ensure_text_index_def allocate_index_def Let_def
      split: option.split)

lemma emit_text_delta_frames:
  "frame_run (Inside is) (fst (emit_text_delta m c)) = Some (Inside is)"
  by (simp add: emit_text_delta_def Let_def case_prod_beta)

lemma emit_text_delta_at:
  assumes "emitter_at m is" and "emit_text_delta m c = (fs, m')"
  shows "emitter_at m' is \<and> frame_run (Inside is) fs = Some (Inside is)"
  using assms(1) emit_text_delta_simps [of m c] emit_text_delta_frames [of "is" m c]
  by (simp add: assms(2) emitter_at_def)

lemma emit_fragment_at:
  assumes "emitter_at m is" and "emit_fragment m f = (fs, m')"
  shows "\<exists>is'. emitter_at m' is' \<and> frame_run (Inside is) fs = Some (Inside is')"
proof -
  obtain i m1 where i: "fragment_index m f = (i, m1)" by fastforce
  obtain fs1 b1 where b: "open_block m1 i f = (fs1, b1)" by fastforce
  obtain fs2 b2 where a: "add_args i b1 f = (fs2, b2)" by fastforce
  have m': "m' = m1\<lparr>m_blocks := dset i b2 (m_blocks m1)\<rparr>" and fs: "fs = fs1 @ fs2"
    using assms(2) i b a by (simp_all add: emit_fragment_def)
  have m1: "m_blocks m1 = m_blocks m" "m_started m1" "\<not> m_finished m1"
    and acc: "\<forall>j. dget is j = map_option b_args (dget (m_blocks m1) j)"
    using assms(1) i fragment_index_simps [of m f] by (simp_all add: emitter_at_def)
  let ?is1 = "if dget (m_blocks m1) i = None then dset i [] is else is"
  let ?is2 = "if fs2 = [] then ?is1 else dset i (b_args b2) ?is1"
  have one: "frame_run (Inside is) fs1 = Some (Inside ?is1) \<and> dget ?is1 i = Some (b_args b1)"
    using b acc by (cases "dget (m_blocks m1) i") (auto simp: open_block_def new_block_def)
  then have two: "frame_run (Inside ?is1) fs2 = Some (Inside ?is2) \<and> dget ?is2 i = Some (b_args b2)"
    using a by (auto simp: add_args_def split: option.splits if_splits)
  have "dget ?is2 j = map_option b_args (dget (dset i b2 (m_blocks m1)) j)" for j
    using two acc by (cases "j = i") auto
  then have "emitter_at m' ?is2" using m1 by (simp add: emitter_at_def m')
  with one two show ?thesis by (auto simp: fs frame_run_append)
qed

lemma emit_fragments_at:
  "emitter_at m is \<Longrightarrow> emit_fragments m frs = (fs, m') \<Longrightarrow>
   \<exists>is'. emitter_at m' is' \<and> frame_run (Inside is) fs = Some (Inside is')"
proof (induction frs arbitrary: m "is" fs)
  case Nil
  then show ?case by auto
next
  case (Cons f frs)
  obtain out1 m1 where e: "emit_fragment m f = (out1, m1)" by fastforce
  obtain out2 m2 where es: "emit_fragments m1 frs = (out2, m2)" by fastforce
  from emit_fragment_at [OF Cons.prems(1) e] obtain is1 where
    one: "emitter_at m1 is1" "frame_run (Inside is) out1 = Some (Inside is1)" by blast
  from Cons.IH [OF one(1)] es Cons.prems(2) e obtain is2 where
    "emitter_at m' is2" "frame_run (Inside is1) out2 = Some (Inside is2)" by auto
  with one Cons.prems(2) e es show ?case by (auto simp: frame_run_append)
qed

text \<open>A new emitter starts outside a message, an open one goes on inside it.\<close>

definition emitter_ready :: "emitter \<Rightarrow> frame_state \<Rightarrow> bool" where
  "emitter_ready m st =
     (case st of
        Outside \<Rightarrow> \<not> m_started m \<and> \<not> m_finished m \<and> m_blocks m = []
      | Inside is \<Rightarrow> emitter_at m is)"

lemma emit_start_at:
  "emitter_ready m st \<Longrightarrow> emit_start m = (fs, m') \<Longrightarrow>
   \<exists>is. emitter_at m' is \<and> frame_run st fs = Some (Inside is)"
  by (auto simp: emitter_ready_def emit_start_def emitter_at_def
      split: frame_state.splits if_splits)

lemma feed_emitter_at:
  assumes "emitter_ready m st" and "feed_emitter m c = (fs, m')"
  shows "\<exists>is. emitter_at m' is \<and> frame_run st fs = Some (Inside is)"
proof -
  have nf: "\<not> m_finished m"
    using assms(1) by (auto simp: emitter_ready_def emitter_at_def split: frame_state.splits)
  obtain fs1 m1 where s1: "emit_start m = (fs1, m1)" by fastforce
  obtain fs2 m2 where s2: "emit_text_delta m1 c = (fs2, m2)" by fastforce
  obtain fs3 m3 where s3: "emit_fragments m2 (k_fragments c) = (fs3, m3)" by fastforce
  from emit_start_at [OF assms(1) s1] obtain "is" where
    1: "emitter_at m1 is" "frame_run st fs1 = Some (Inside is)" by blast
  from emit_text_delta_at [OF 1(1) s2] have
    2: "emitter_at m2 is" "frame_run (Inside is) fs2 = Some (Inside is)" by auto
  from emit_fragments_at [OF 2(1) s3] obtain is3 where
    3: "emitter_at m3 is3" "frame_run (Inside is) fs3 = Some (Inside is3)" by blast
  have "fs = fs1 @ fs2 @ fs3" "m' = m3"
    using assms(2) nf s1 s2 s3 by (simp_all add: feed_emitter_def)
  with 1 2 3 show ?thesis by (auto simp: frame_run_append)
qed


subsection \<open>Finishing\<close>

lemma finalize_blocks_frames:
  "emitter_at m acc \<Longrightarrow> frame_run (Inside acc) (fst (finalize_blocks js m)) = Some (Inside acc)"
  by (induction js m rule: finalize_blocks.induct)
     (auto simp: Let_def case_prod_beta emitter_at_def parse_args_def split: option.splits sum.splits)

lemma finish_emitter_at:
  assumes "emitter_at m is" and "finish_emitter u m = (fs, x, m')"
  shows "(x = None \<longrightarrow> m_finished m' \<and> frame_run (Inside is) fs = Some Outside) \<and>
         (x \<noteq> None \<longrightarrow> emitter_at m' is \<and> frame_run (Inside is) fs = Some (Inside is))"
proof -
  define m1 where "m1 = (case u of Some v \<Rightarrow> if v \<noteq> [] then m\<lparr>m_usage := Some v\<rparr> else m | None \<Rightarrow> m)"
  have m1: "m_blocks m1 = m_blocks m" "emitter_at m1 is"
    using assms(1) by (auto simp: m1_def emitter_at_def split: option.splits)
  obtain gs y where g: "finalize_blocks (sort (dkeys (m_blocks m1))) m1 = (gs, y)" by fastforce
  have "frame_run (Inside is) gs = Some (Inside is)"
    using finalize_blocks_frames [OF m1(2), of "sort (dkeys (m_blocks m1))"] g by simp
  then show ?thesis using assms(2) m1 g
    by (cases y) (auto simp: finish_emitter_def frame_run_append simp flip: m1_def)
qed

lemma translator_inv_open:
  assumes "translator_inv tr st" and "dget tr mid = Some m" and "\<not> m_finished m"
  shows "\<exists>is. st = Inside is \<and> emitter_at m is"
proof (cases st)
  case (Inside "is")
  with assms(1) obtain mid' m' where "dget tr mid' = Some m'" "emitter_at m' is"
    "\<forall>k n. dget tr k = Some n \<longrightarrow> k \<noteq> mid' \<longrightarrow> m_finished n"
    by (auto simp: translator_inv_def)
  with assms(2,3) Inside show ?thesis by (cases "mid = mid'") auto
qed (use assms in \<open>simp add: translator_inv_def\<close>)

lemma translator_inv_close:
  assumes "translator_inv tr (Inside is)" and "dget tr mid = Some m" and "\<not> m_finished m"
    and "m_finished m'"
  shows "translator_inv (dset mid m' tr) Outside"
  using assms by (auto simp: translator_inv_def)

lemma translator_inv_keep:
  assumes "translator_inv tr (Inside is)" and "dget tr mid = Some m" and "\<not> m_finished m"
    and "emitter_at m' is'"
  shows "translator_inv (dset mid m' tr) (Inside is')"
  using assms by (auto simp: translator_inv_def)

lemma translator_inv_new:
  assumes "translator_inv tr Outside" and "emitter_at m' is'"
  shows "translator_inv (dset mid m' tr) (Inside is')"
  using assms by (auto simp: translator_inv_def)

text \<open>Finishing one target, open or not known.\<close>

lemma finish_one:
  assumes inv: "translator_inv tr (Inside is)" and m: "dget tr mid = Some m" "\<not> m_finished m" "emitter_at m is"
    and f: "finish_targets u [mid] tr = (fs, x, tr')"
  shows "\<exists>st. frame_run (Inside is) fs = Some st \<and> translator_inv tr' st \<and> (x = None \<longrightarrow> st = Outside)"
proof -
  obtain gs y m' where e: "finish_emitter u m = (gs, y, m')" by (metis prod_cases3)
  note at = finish_emitter_at [OF m(3) e]
  show ?thesis
  proof (cases y)
    case None
    with f e m have "fs = gs" "x = None" "tr' = dset mid m' tr" by auto
    with None at translator_inv_close [OF inv m(1,2)] show ?thesis by auto
  next
    case (Some z)
    with f e m have "fs = gs" "x = Some z" "tr' = dset mid m' tr" by auto
    with Some at translator_inv_keep [OF inv m(1,2)] show ?thesis by auto
  qed
qed

lemma finish_all_inv:
  assumes inv: "translator_inv tr st" and f: "finish_chunk None tr = (fs, x, tr')"
  shows "\<exists>st'. frame_run st fs = Some st' \<and> translator_inv tr' st' \<and> (x = None \<longrightarrow> st' = Outside)"
proof (cases st)
  case Outside
  with f inv unfinished_Outside [of tr] show ?thesis by (simp add: finish_chunk_def)
next
  case (Inside "is")
  with inv unfinished_Inside [of tr "is"] obtain mid m where
    "unfinished tr = [mid]" "dget tr mid = Some m" "emitter_at m is" by auto
  with f inv Inside show ?thesis
    by (intro finish_one [of tr "is" mid m None, simplified Inside [symmetric]])
       (auto simp: finish_chunk_def emitter_at_def simp del: finish_targets.simps)
qed

lemma finish_some_inv:
  assumes inv: "translator_inv tr st" and f: "finish_chunk (Some c) tr = (fs, x, tr')"
  shows "\<exists>st'. frame_run st fs = Some st' \<and> translator_inv tr' st'"
proof (cases "\<exists>mid m. k_id c = Some mid \<and> mid \<noteq> [] \<and> dget tr mid = Some m \<and> \<not> m_finished m")
  case False
  with f have "fs = []" "tr' = tr" by (auto simp: finish_chunk_def split: option.splits if_splits)
  with inv show ?thesis by auto
next
  case True
  then obtain mid m where m: "k_id c = Some mid" "mid \<noteq> []" "dget tr mid = Some m" "\<not> m_finished m"
    by blast
  from translator_inv_open [OF inv m(3,4)]
  obtain "is" where st: "st = Inside is" "emitter_at m is" by blast
  have "finish_targets (k_usage c) [mid] tr = (fs, x, tr')"
    using f m by (simp add: finish_chunk_def del: finish_targets.simps)
  from finish_one [OF _ m(3,4) st(2) this] inv st(1) show ?thesis by blast
qed

lemma feed_inv:
  assumes inv: "translator_inv tr st" and f: "feed c tr = (fs, x, tr')"
  shows "\<exists>st'. frame_run st fs = Some st' \<and> translator_inv tr' st'"
proof (cases "role_of c")
  case None
  with f inv show ?thesis by (auto simp: feed_def)
next
  case (Some role)
  let ?mid = "message_id c"
  show ?thesis
  proof (cases "dget tr ?mid")
    case None
    obtain gs y tr1 where g: "finish_chunk None tr = (gs, y, tr1)" by (metis prod_cases3)
    from finish_all_inv [OF inv g] obtain st1 where
      st1: "frame_run st gs = Some st1" "translator_inv tr1 st1" "y = None \<longrightarrow> st1 = Outside" by blast
    show ?thesis
    proof (cases y)
      case None
      obtain hs m' where h: "feed_emitter (new_emitter ?mid role) c = (hs, m')" by fastforce
      have "emitter_ready (new_emitter ?mid role) Outside"
        by (simp add: emitter_ready_def new_emitter_def)
      from feed_emitter_at [OF this h] obtain "is" where
        "emitter_at m' is" "frame_run Outside hs = Some (Inside is)" by blast
      moreover have "fs = gs @ hs" "tr' = dset ?mid m' tr1"
        using f Some \<open>dget tr ?mid = None\<close> g None h by (simp_all add: feed_def Let_def)
      ultimately show ?thesis using st1 None translator_inv_new by (auto simp: frame_run_append)
    next
      case (Some z)
      then have "fs = gs" "tr' = tr1"
        using f \<open>role_of c = Some role\<close> \<open>dget tr ?mid = None\<close> g by (simp_all add: feed_def Let_def)
      with st1 show ?thesis by auto
    qed
  next
    case m: (Some m)
    obtain hs m' where h: "feed_emitter m c = (hs, m')" by fastforce
    have fs: "fs = hs" "tr' = dset ?mid m' tr" using f Some m h by (simp_all add: feed_def Let_def)
    show ?thesis
    proof (cases "m_finished m")
      case True
      then have "hs = []" "m' = m" using h by (simp_all add: feed_emitter_def)
      moreover have "translator_inv (dset ?mid m tr) st" using inv m by (simp add: dset_same)
      ultimately show ?thesis using fs by simp
    next
      case False
      from translator_inv_open [OF inv m False]
      obtain "is" where st: "st = Inside is" "emitter_at m is" by blast
      with feed_emitter_at [of m st c hs m'] h obtain is' where
        "emitter_at m' is'" "frame_run st hs = Some (Inside is')" by (auto simp: emitter_ready_def)
      with inv st m False fs translator_inv_keep show ?thesis by blast
    qed
  qed
qed

lemma translation_inv_step: "translation_inv t \<Longrightarrow> translation_inv (translation_step t op)"
proof -
  assume "translation_inv t"
  then obtain st where st: "frame_run Outside (t_frames t) = Some st" "translator_inv (t_state t) st"
    by (auto simp: translation_inv_def)
  obtain fs x tr where t: "translate op (t_state t) = (fs, x, tr)" by (metis prod_cases3)
  have "\<exists>st'. frame_run st fs = Some st' \<and> translator_inv tr st'"
  proof (cases op)
    case (Feed c)
    with t feed_inv [OF st(2)] show ?thesis by auto
  next
    case (Finish oc)
    with t finish_all_inv [OF st(2)] finish_some_inv [OF st(2)] show ?thesis by (cases oc) fastforce+
  qed
  with st t show ?thesis by (auto simp: translation_inv_def translation_step_def frame_run_append)
qed

interpretation tr_system: event_system translation_step translation_inv
  by unfold_locales (rule translation_inv_step)

lemma translation_inv_new: "translation_inv new_translation"
  by (simp add: translation_inv_def new_translation_def translator_inv_def)


text \<open>The translators that a run can have.\<close>

definition run_translator :: "translator_op list \<Rightarrow> translation" where
  "run_translator ops = foldl translation_step new_translation ops"

lemma run_translator_inv: "translation_inv (run_translator ops)"
  unfolding run_translator_def by (rule tr_system.inv_run [OF translation_inv_new])

lemma run_translator_state: "\<exists>st. translator_inv (t_state (run_translator ops)) st"
  using run_translator_inv [of ops] by (auto simp: translation_inv_def)

lemma feed_emitter_unfinished: "\<not> m_finished m \<Longrightarrow> \<not> m_finished (snd (feed_emitter m c))"
proof -
  have "m_finished (snd (emit_fragments m' frs)) = m_finished m'" for m' frs
    by (induction frs arbitrary: m') (simp_all add: emit_fragment_def case_prod_beta)
  then show "\<not> m_finished m \<Longrightarrow> ?thesis"
    by (simp add: feed_emitter_def case_prod_beta emit_start_def)
qed

text \<open>What stays of the earlier messages when a chunk starts a new one.\<close>

lemma finish_all_finished:
  assumes "translator_inv tr st" and "finish_chunk None tr = (fs, None, tr')" and "dget tr' mid = Some m"
  shows "m_finished m"
  using finish_all_inv [OF assms(1,2)] assms(3) by (auto simp: translator_inv_def)

lemma finish_targets_known:
  "finish_targets u mids tr = (fs, x, tr') \<Longrightarrow> dget tr' mid = None \<longleftrightarrow> dget tr mid = None"
proof (induction u mids tr arbitrary: fs x tr' rule: finish_targets.induct)
  case (1 usage tr)
  then show ?case by simp
next
  case (2 usage k mids tr)
  show ?case
  proof (cases "dget tr k")
    case None
    with 2 show ?thesis by simp
  next
    case (Some m)
    obtain gs y m' where e: "finish_emitter usage m = (gs, y, m')" by (metis prod_cases3)
    show ?thesis
    proof (cases y)
      case None
      obtain hs z tr2 where r: "finish_targets usage mids (dset k m' tr) = (hs, z, tr2)"
        by (metis prod_cases3)
      from 2(2) [OF Some e [symmetric] refl [of "(y, m')"] None r] 2(3) Some e None r
      show ?thesis by auto
    qed (use 2(3) Some e in \<open>auto split: if_splits\<close>)
  qed
qed

lemma finish_chunk_known:
  "finish_chunk None tr = (fs, x, tr') \<Longrightarrow> dget tr' mid = None \<longleftrightarrow> dget tr mid = None"
  by (auto simp: finish_chunk_def dest: finish_targets_known)

lemma feed_finished:
  "dget tr (message_id c) = Some m \<Longrightarrow> m_finished m \<Longrightarrow> feed c tr = ([], None, tr)"
  by (auto simp: feed_def feed_emitter_def Let_def dset_same split: option.splits)

text \<open>The text of a frame list.\<close>

fun frame_text :: "frame list \<Rightarrow> string" where
  "frame_text [] = []"
| "frame_text (TextDelta i t # fs) = t @ frame_text fs"
| "frame_text (f # fs) = frame_text fs"

lemma frame_text_append [simp]: "frame_text (fs @ gs) = frame_text fs @ frame_text gs"
  by (induction fs rule: frame_text.induct) auto

lemma frame_text_fragments: "frame_text (fst (emit_fragments m frs)) = []"
proof (induction frs arbitrary: m)
  case (Cons f frs)
  have "frame_text (fst (emit_fragment m f)) = []"
    by (auto simp: emit_fragment_def open_block_def add_args_def case_prod_beta
        split: option.splits)
  with Cons show ?case by (simp add: case_prod_beta)
qed simp

lemma frame_text_feed:
  "\<not> m_finished m \<Longrightarrow> frame_text (fst (feed_emitter m c)) = text_content (k_content c)"
  by (simp add: feed_emitter_def case_prod_beta frame_text_fragments emit_start_def
      emit_text_delta_def Let_def)

definition same_message :: "string \<Rightarrow> chunk list \<Rightarrow> bool" where
  "same_message mid cs = (\<forall>c \<in> set cs. role_of c \<noteq> None \<and> message_id c = mid)"

lemma frame_text_message:
  assumes "dget (t_state t) mid = Some m" "\<not> m_finished m" "same_message mid cs"
  shows "frame_text (t_frames (foldl translation_step t (map Feed cs)))
     = frame_text (t_frames t) @ concat (map (\<lambda>c. text_content (k_content c)) cs)"
  using assms
proof (induction cs arbitrary: t m)
  case (Cons c cs)
  obtain fs m' where f: "feed_emitter m c = (fs, m')" by fastforce
  obtain role where r: "role_of c = Some role" "message_id c = mid"
    using Cons.prems(3) by (auto simp: same_message_def)
  have step: "translation_step t (Feed c) = \<lparr>t_state = dset mid m' (t_state t), t_frames = t_frames t @ fs\<rparr>"
    using Cons.prems(1) f r by (simp add: translation_step_def feed_def Let_def)
  have "\<not> m_finished m'" "frame_text fs = text_content (k_content c)"
    using feed_emitter_unfinished [OF Cons.prems(2), of c] frame_text_feed [OF Cons.prems(2), of c] f
    by simp_all
  moreover have "same_message mid cs" using Cons.prems(3) by (simp add: same_message_def)
  ultimately show ?case using Cons.IH [of "translation_step t (Feed c)" m'] by (simp add: step)
qed simp

section \<open>Properties\<close>

text \<open>C16: whatever chunks a run feeds and whenever it finishes messages, also when parsing the
  arguments of a call raises, the frames it emits follow the protocol: one message at a time is
  open, every block is started before its deltas and its finish, and a finished tool call carries
  the value of exactly the argument text its deltas delivered.\<close>

theorem frames_follow_protocol: "well_framed (t_frames (run_translator ops))"
  using run_translator_inv [of ops] by (auto simp: translation_inv_def well_framed_def)

text \<open>No text is lost or reordered: feeding the chunks of one new message emits text deltas
  whose texts, joined, are the texts of the chunks, joined.\<close>

theorem message_text_delivered:
  assumes "same_message mid (c # cs)"
  shows "frame_text (t_frames (run_translator (map Feed (c # cs))))
       = concat (map (\<lambda>c. text_content (k_content c)) (c # cs))"
proof -
  obtain role where r: "role_of c = Some role" "message_id c = mid"
    using assms by (auto simp: same_message_def)
  obtain fs m where f: "feed_emitter (new_emitter mid role) c = (fs, m)" by fastforce
  have step: "translation_step new_translation (Feed c) = \<lparr>t_state = [(mid, m)], t_frames = fs\<rparr>"
    using r f by (simp add: translation_step_def feed_def Let_def new_translation_def
        finish_chunk_def unfinished_def dset_new)
  have "\<not> m_finished m" "frame_text fs = text_content (k_content c)"
    using feed_emitter_unfinished [of "new_emitter mid role" c]
      frame_text_feed [of "new_emitter mid role" c] f by (simp_all add: new_emitter_def)
  moreover have "same_message mid cs" using assms by (simp add: same_message_def)
  ultimately show ?thesis
    using frame_text_message [of "translation_step new_translation (Feed c)" mid m cs]
    by (simp add: run_translator_def step)
qed

definition text_chunk :: "string \<Rightarrow> string \<Rightarrow> string \<Rightarrow> chunk" where
  "text_chunk ty mid text =
     \<lparr>k_type = PStr ty, k_id = Some mid, k_addr = 0, k_content = PStr text, k_fragments = [],
      k_usage = None\<rparr>"

lemma lower_ai: "lower ''AIMessageChunk'' = ''aimessagechunk''"
  by code_simp

lemmas translator_eval = run_translator_def translation_step_def new_translation_def feed_def
  Let_def finish_chunk_def unfinished_def role_of_def lower_ai ROLE_BY_TYPE_def
  message_id_def text_chunk_def feed_emitter_def new_emitter_def emit_start_def
  emit_text_delta_def ensure_text_index_def allocate_index_def finish_emitter_def dkeys_def
  dset_def emit_fragment_def fragment_index_def open_block_def add_args_def new_block_def

theorem message_text_delivered_witness:
  "frame_text (t_frames (run_translator (map Feed
       [text_chunk ''AIMessageChunk'' ''m'' ''Hel'', text_chunk ''AIMessageChunk'' ''m'' ''lo'']))) = ''Hello''"
proof -
  have "same_message ''m'' [text_chunk ''AIMessageChunk'' ''m'' ''Hel'', text_chunk ''AIMessageChunk'' ''m'' ''lo'']"
    by (simp add: same_message_def role_of_def lower_ai ROLE_BY_TYPE_def message_id_def text_chunk_def)
  from message_text_delivered [OF this] show ?thesis by (simp add: text_chunk_def)
qed

text \<open>Finishing all messages leaves none open: after a \<open>finish(None)\<close> that does not raise,
  every message is finished and a second one emits nothing.\<close>

theorem finish_all_closes:
  assumes "finish_chunk None (t_state (run_translator ops)) = (fs, None, tr)"
  shows "(\<forall>mid m. dget tr mid = Some m \<longrightarrow> m_finished m) \<and> finish_chunk None tr = ([], None, tr)"
proof -
  obtain st where "translator_inv (t_state (run_translator ops)) st" using run_translator_state by blast
  from finish_all_inv [OF this assms] have "translator_inv tr Outside" by auto
  then show ?thesis
    by (auto simp: finish_chunk_def unfinished_Outside translator_inv_def)
qed

theorem finish_all_closes_witness:
  "finish_chunk None [(''m'', (new_emitter ''m'' ''ai'')\<lparr>m_started := True, m_next_index := 1,
      m_text_index := Some 0, m_finished := True\<rparr>)]
   = ([], None, [(''m'', (new_emitter ''m'' ''ai'')\<lparr>m_started := True, m_next_index := 1,
      m_text_index := Some 0, m_finished := True\<rparr>)])"
proof -
  have "finish_chunk None (t_state (run_translator [Feed (text_chunk ''AIMessageChunk'' ''m'' ''x'')]))
     = ([MessageFinish None], None, [(''m'', (new_emitter ''m'' ''ai'')\<lparr>m_started := True,
           m_next_index := 1, m_text_index := Some 0, m_finished := True\<rparr>)])"
    by (simp add: translator_eval)
  from finish_all_closes [OF this] show ?thesis by blast
qed

text \<open>Messages do not interleave. Once a chunk of a new message has been accepted, every
  chunk of every message seen before is dropped: it emits nothing and changes nothing.\<close>

theorem new_message_closes_others:
  assumes "feed b (t_state (run_translator ops)) = (fs, None, tr)" and "role_of b \<noteq> None"
    and "dget (t_state (run_translator ops)) (message_id b) = None"
    and "dget (t_state (run_translator ops)) (message_id a) \<noteq> None"
  shows "feed a tr = ([], None, tr)"
proof -
  let ?tr = "t_state (run_translator ops)"
  obtain role where r: "role_of b = Some role" using assms(2) by blast
  obtain gs y tr1 where g: "finish_chunk None ?tr = (gs, y, tr1)" by (metis prod_cases3)
  from assms(1,3) r g have y: "y = None" by (cases y) (simp_all add: feed_def Let_def)
  obtain st where inv: "translator_inv ?tr st" using run_translator_state by blast
  have tr: "tr = dset (message_id b) (snd (feed_emitter (new_emitter (message_id b) role) b)) tr1"
    using assms(1,3) r g y by (simp add: feed_def Let_def case_prod_beta)
  obtain m where m: "dget tr1 (message_id a) = Some m"
    using finish_chunk_known [OF g, of "message_id a"] assms(4) by auto
  moreover have "message_id a \<noteq> message_id b" using assms(3,4) by auto
  ultimately have "dget tr (message_id a) = Some m" by (simp add: tr)
  moreover have "m_finished m" using finish_all_finished [OF inv _ m] g y by simp
  ultimately show ?thesis by (rule feed_finished)
qed

theorem new_message_closes_others_witness:
  "\<exists>fs tr. feed (text_chunk ''AIMessageChunk'' ''b'' ''y'')
       (t_state (run_translator [Feed (text_chunk ''AIMessageChunk'' ''a'' ''x'')])) = (fs, None, tr) \<and>
     feed (text_chunk ''AIMessageChunk'' ''a'' ''lost'') tr = ([], None, tr)"
proof -
  let ?a = "text_chunk ''AIMessageChunk'' ''a'' ''lost''"
  let ?b = "text_chunk ''AIMessageChunk'' ''b'' ''y''"
  let ?ops = "[Feed (text_chunk ''AIMessageChunk'' ''a'' ''x'')]"
  obtain fs tr where f: "feed ?b (t_state (run_translator ?ops)) = (fs, None, tr)"
    by (simp add: translator_eval)
  have "role_of ?b \<noteq> None" "dget (t_state (run_translator ?ops)) (message_id ?b) = None"
    "dget (t_state (run_translator ?ops)) (message_id ?a) \<noteq> None"
    by (simp_all add: translator_eval)
  from new_message_closes_others [OF f this] f show ?thesis by blast
qed

text \<open>Block indices can collide. A tool call fragment that names its index gets that index
  even when the message's text already has it, so a text block and a tool call share an index.\<close>

theorem text_and_call_share_index:
  "t_frames (run_translator
     [Feed ((text_chunk ''AIMessageChunk'' ''m'' ''Let me look'')
        \<lparr>k_fragments := [\<lparr>f_index = Some 0, f_id = Some ''c'', f_name = Some ''search'', f_args = Some ''{}''\<rparr>]\<rparr>)])
   = [MessageStart ''ai'' ''m'', TextDelta 0 ''Let me look'',
      BlockStart 0 (Some ''c'') (Some ''search''),
      BlockDelta 0 (Some ''c'') (Some ''search'') ''{}'']"
  by (simp add: translator_eval)

text \<open>Only the class names of the table are known as message types: a complete message, whose
  type is \<open>ai\<close>, \<open>human\<close>, \<open>system\<close> or \<open>tool\<close>, is dropped without a frame.\<close>

theorem complete_messages_dropped:
  "feed (c\<lparr>k_type := PStr ''ai''\<rparr>) tr = ([], None, tr) \<and>
   feed (c\<lparr>k_type := PStr ''human''\<rparr>) tr = ([], None, tr) \<and>
   feed (c\<lparr>k_type := PStr ''system''\<rparr>) tr = ([], None, tr) \<and>
   feed (c\<lparr>k_type := PStr ''tool''\<rparr>) tr = ([], None, tr)"
  by (simp_all add: feed_def role_of_def lower_def lower_char_def ROLE_BY_TYPE_def Let_def)

lemma args_value_long:
  assumes "list_all is_digit ds" and "hd ds \<noteq> CHR ''0''" and "MAX_STR_DIGITS < length ds"
  shows "args_value ds = Inl (parse_exn IntTooLong)"
proof -
  have tw: "takeWhile is_digit ds = ds" using assms(1) by (simp add: takeWhile_eq_all_conv list_all_iff)
  obtain d r where ds: "ds = d # r" "is_digit d" using assms(1,3) by (cases ds) auto
  then have d: "is_digit (hd ds)" "ds \<noteq> []" by simp_all
  have nd: "d \<noteq> CHR ''-''" "\<not> is_ws d" "d \<noteq> quote" "d \<noteq> CHR ''{''" "d \<noteq> CHR ''[''"
    using ds(2) by (auto simp: is_digit_def is_ws_def)
  have pn: "parse_number ds = Inl IntTooLong"
  proof -
    have "int_part ds = ds" using assms(2) by (simp add: int_part_def Let_def tw)
    moreover have "split_minus ds = ([], ds)" using nd(1) by (simp add: split_minus_def ds(1))
    ultimately show ?thesis
      using assms(3) d by (simp add: parse_number_def frac_part_def exp_part_def case_prod_beta)
  qed
  have "parse_literal literals ds = None"
    using ds by (auto simp: literals_def is_digit_def)
  with pn have "parse_value (Suc n) ds = Inl IntTooLong" for n
    using nd by (simp add: ds(1) parse_value.simps(2))
  then have "json_parse ds = Inl IntTooLong"
    using skip_ws_id [of ds] nd by (simp add: json_parse_def ds(1))
  then show ?thesis using d by (simp add: args_value_def json_loads_def parse_exn_def)
qed

text \<open>\<open>parse_args\<close> does not catch everything: argument text that is one integer literal
  beyond the interpreter's digit limit raises a \<open>ValueError\<close> that leaves the translator.\<close>

theorem long_integer_args_raise:
  assumes "list_all is_digit ds" and "hd ds \<noteq> CHR ''0''" and "MAX_STR_DIGITS < length ds"
  shows "\<exists>e. args_value ds = Inl e \<and> exn_type e = ''ValueError''"
  using args_value_long [OF assms] by (simp add: parse_exn_def)

theorem long_integer_args_raise_witness:
  "\<exists>e. args_value (replicate 5000 (CHR ''7'')) = Inl e \<and> exn_type e = ''ValueError''"
  by (rule long_integer_args_raise)
     (simp_all add: list_all_length is_digit_def MAX_STR_DIGITS_def)


text \<open>Argument fragments of one tool call accumulate.\<close>

definition args_text :: "fragment \<Rightarrow> string" where
  "args_text f = (case f_args f of Some a \<Rightarrow> a | None \<Rightarrow> [])"

lemma emit_fragment_block:
  assumes "f_index f = Some i"
  shows "\<exists>b. m_blocks (snd (emit_fragment m f)) = dset i b (m_blocks m) \<and>
     b_args b = (case dget (m_blocks m) i of None \<Rightarrow> [] | Some b0 \<Rightarrow> b_args b0) @ args_text f"
  using assms
  by (auto simp: emit_fragment_def fragment_index_def open_block_def add_args_def new_block_def
      args_text_def case_prod_beta split: option.split)

lemma emit_fragments_block:
  assumes "\<forall>f \<in> set frs. f_index f = Some i" and "m_blocks m = [(i, b)]"
  shows "\<exists>b'. m_blocks (snd (emit_fragments m frs)) = [(i, b')] \<and>
     b_args b' = b_args b @ concat (map args_text frs)"
  using assms
proof (induction frs arbitrary: m b)
  case (Cons f frs)
  from emit_fragment_block [of f i m] Cons.prems obtain b1 where
    "m_blocks (snd (emit_fragment m f)) = [(i, b1)]" "b_args b1 = b_args b @ args_text f"
    by (auto simp: dset_def)
  with Cons.IH [of "snd (emit_fragment m f)" b1] Cons.prems show ?case
    by (auto simp: case_prod_beta)
qed simp

text \<open>C33: a streamed tool call is reassembled: when the argument fragments of one call, however the
  text was cut, join to the JSON text of a dict, finishing the message emits exactly one block
  finish, with that dict, and then the end of the message.\<close>

theorem tool_call_reassembled:
  assumes "f_index f = Some i" and "\<forall>g \<in> set frs. f_index g = Some i"
    and "concat (map args_text (f # frs)) = enc isep ksep (PDict d)"
    and "separators isep ksep" and "json_ok (PDict d)"
    and "emit_fragments (new_emitter mid role) (f # frs) = (out, m)"
  shows "\<exists>cid name. fst (finish_emitter None m) = [BlockFinish i cid name (PDict d), MessageFinish (m_usage m)]"
proof -
  let ?m = "new_emitter mid role"
  from emit_fragment_block [OF assms(1), of ?m] obtain b where b:
    "m_blocks (snd (emit_fragment ?m f)) = [(i, b)]" "b_args b = args_text f"
    by (auto simp: new_emitter_def dset_def)
  from emit_fragments_block [OF assms(2) b(1)] obtain b' where b':
    "m_blocks (snd (emit_fragments (snd (emit_fragment ?m f)) frs)) = [(i, b')]"
    "b_args b' = b_args b @ concat (map args_text frs)" by blast
  have m: "m_blocks m = [(i, b')]" using assms(6) b'(1) by (simp add: case_prod_beta)
  have args: "b_args b' = enc isep ksep (PDict d)" using assms(3) b(2) b'(2) by simp
  then have "parse_args b' = Inr (PDict d)"
    using json_roundtrip_law [OF assms(4,5)] by (simp add: parse_args_def args_value_def)
  with m show ?thesis by (simp add: finish_emitter_def dkeys_def)
qed

theorem tool_call_reassembled_witness:
  "\<exists>out m cid name. emit_fragments (new_emitter ''m'' ''ai'')
       [\<lparr>f_index = Some 1, f_id = Some ''c'', f_name = Some ''add'', f_args = Some [CHR ''{'', CHR 0x22]\<rparr>,
        \<lparr>f_index = Some 1, f_id = None, f_name = None, f_args = Some [CHR ''a'', CHR 0x22, CHR '':'', CHR ''7'']\<rparr>,
        \<lparr>f_index = Some 1, f_id = None, f_name = None, f_args = Some ''}''\<rparr>] = (out, m) \<and>
     fst (finish_emitter None m) = [BlockFinish 1 cid name (PDict [(''a'', PInt 7)]), MessageFinish (m_usage m)]"
proof -
  let ?f = "\<lparr>f_index = Some 1, f_id = Some ''c'', f_name = Some ''add'', f_args = Some [CHR ''{'', CHR 0x22]\<rparr>"
  let ?frs = "[\<lparr>f_index = Some 1, f_id = None, f_name = None, f_args = Some [CHR ''a'', CHR 0x22, CHR '':'', CHR ''7'']\<rparr>,
        \<lparr>f_index = Some 1, f_id = None, f_name = None, f_args = Some ''}''\<rparr>]"
  have c: "concat (map args_text (?f # ?frs)) = enc '','' '':'' (PDict [(''a'', PInt 7)])"
    by (simp add: args_text_def json_str_def esc_char_def show_int_def show_nat_small digit_def)
  have s: "separators '','' '':''" by (simp add: separators_def)
  have j: "json_ok (PDict [(''a'', PInt 7)])" by code_simp
  obtain out m where e: "emit_fragments (new_emitter ''m'' ''ai'') (?f # ?frs) = (out, m)" by fastforce
  have "f_index ?f = Some 1" "\<forall>g \<in> set ?frs. f_index g = Some 1" by simp_all
  from tool_call_reassembled [OF this c s j e] e show ?thesis by blast
qed

text \<open>Parsing a tool call's arguments always answers: with a dict, whatever the text (a value
  that is no dict is wrapped, a text that is not JSON is kept raw), except for the digit limit's
  \<open>ValueError\<close> and for text the model has no characters for.\<close>

theorem parse_args_total:
  "(\<exists>d. parse_args b = Inr (PDict d)) \<or>
   (\<exists>e \<in> {IntTooLong, BeyondModel}. parse_args b = Inl (parse_exn e))"
proof -
  let ?raw = "if b_args b \<noteq> [] then b_args b else ''{}''"
  show ?thesis
  proof (cases "json_parse ?raw")
    case (Inl e)
    with json_parse_total [of ?raw] show ?thesis
      by (cases e) (simp_all add: parse_args_def args_value_def json_loads_def parse_exn_def Let_def)
  next
    case (Inr v)
    then show ?thesis
      by (cases v) (simp_all add: parse_args_def args_value_def json_loads_def Let_def)
  qed
qed

end
