(* ===== verification/StateReads.thy ===== *)
theory StateReads
  imports PyJson
begin

text \<open>
  \<open>state.py\<close>: reading a thread's state and history through the graph's checkpointer, and the
  conversion of state values to JSON data. \<open>message_to_dict\<close> of the message library, the
  graph's \<open>aget_state\<close> and the checkpointer's \<open>alist\<close> are arguments: what they returned or
  raised.
\<close>

section \<open>Conversion to JSON data\<close>

definition underscored :: "string \<Rightarrow> bool" where
  "underscored k = (k \<noteq> [] \<and> hd k = CHR ''_'')"

fun to_jsonable :: "pyval \<Rightarrow> pyval"
  and to_jsonable_list :: "pyval list \<Rightarrow> pyval list"
  and to_jsonable_items :: "(string \<times> pyval) list \<Rightarrow> (string \<times> pyval) list"
  and to_jsonable_vars :: "(string \<times> pyval) list \<Rightarrow> (string \<times> pyval) list" where
  "to_jsonable PNone = PNone"
| "to_jsonable (PBool b) = PBool b"
| "to_jsonable (PInt i) = PInt i"
| "to_jsonable (PFloat s) = PFloat s"
| "to_jsonable (PStr s) = PStr s"
| "to_jsonable (PDict d) = PDict (to_jsonable_items d)"
| "to_jsonable (PList xs) = PList (to_jsonable_list xs)"
| "to_jsonable (PTuple xs) = PList (to_jsonable_list xs)"
| "to_jsonable (PSet xs) = PList (to_jsonable_list xs)"
| "to_jsonable (PObj None attrs s r) = PStr s"
| "to_jsonable (PObj (Some vars) attrs s r) = PDict (to_jsonable_vars vars)"
| "to_jsonable_list [] = []"
| "to_jsonable_list (x # xs) = to_jsonable x # to_jsonable_list xs"
| "to_jsonable_items [] = []"
| "to_jsonable_items ((k, v) # d) = (k, to_jsonable v) # to_jsonable_items d"
| "to_jsonable_vars [] = []"
| "to_jsonable_vars ((k, v) # d) =
     (if \<not> underscored k then (k, to_jsonable v) # to_jsonable_vars d else to_jsonable_vars d)"

text \<open>Every exception inside the \<open>try\<close> gives the fallback.\<close>

definition serialize_message :: "(pyval \<Rightarrow> exn + pyval) \<Rightarrow> pyval \<Rightarrow> dict" where
  "serialize_message message_to_dict m =
     (let fallback = [(''type'', PStr ''unknown''), (''content'', PStr (py_str m))]
      in case message_to_dict m of
           Inr (PDict sr) \<Rightarrow>
             (case dget sr ''data'' of
                None \<Rightarrow> fallback
              | Some v \<Rightarrow>
                  (case py_dict v of
                     Inl e \<Rightarrow> fallback
                   | Inr d \<Rightarrow> (if dget d ''type'' = None
                             then dset ''type'' (or_none (dget sr ''type'')) d else d)))
         | _ \<Rightarrow> fallback)"

definition serialize_value :: "(pyval \<Rightarrow> exn + pyval) \<Rightarrow> string \<Rightarrow> pyval \<Rightarrow> pyval" where
  "serialize_value message_to_dict k v =
     (if k = ''messages''
      then (case v of
              PList xs \<Rightarrow> PList (map (\<lambda>m. PDict (serialize_message message_to_dict m)) xs)
            | PTuple xs \<Rightarrow> PList (map (\<lambda>m. PDict (serialize_message message_to_dict m)) xs)
            | _ \<Rightarrow> to_jsonable v)
      else to_jsonable v)"

definition serialize_values :: "(pyval \<Rightarrow> exn + pyval) \<Rightarrow> pyval \<Rightarrow> exn + dict" where
  "serialize_values message_to_dict vs =
     (if \<not> truthy vs then Inr []
      else (case vs of
              PDict d \<Rightarrow> Inr (map (\<lambda>(k, v). (k, serialize_value message_to_dict k v)) d)
            | _ \<Rightarrow> Inl (AttributeError (repr_str (py_type_name vs) @ '' object has no attribute ''
                                       @ repr_str ''items''))))"

section \<open>The state of an untouched thread\<close>

definition empty_state :: "string \<Rightarrow> dict" where
  "empty_state tid =
     [(''values'', PDict []), (''next'', PList []), (''tasks'', PList []), (''metadata'', PDict []),
      (''created_at'', PNone),
      (''checkpoint'', PDict [(''checkpoint_id'', PNone), (''thread_id'', PStr tid),
                              (''checkpoint_ns'', PStr [])]),
      (''parent_checkpoint'', PNone), (''interrupts'', PList []),
      (''checkpoint_id'', PNone), (''parent_checkpoint_id'', PNone)]"

section \<open>History\<close>

text \<open>
  A checkpoint tuple: its pending writes (channel and value; the task id is not used), config
  and metadata.
\<close>

record checkpoint =
  k_writes :: "(string \<times> pyval) list option"
  k_config :: pyval
  k_metadata :: pyval

definition skipped_channel :: "string \<Rightarrow> bool" where
  "skipped_channel c =
     (c \<in> {''__interrupt__'', ''__error__'', ''__resume__''} \<or> take 7 c = ''branch:'')"

text \<open>
  One pending write on the values so far. A list extends the channel's list; a value of the
  channel that is no list has no \<open>extend\<close>. Any other value replaces what the channel had.
\<close>

definition apply_write :: "string \<times> pyval \<Rightarrow> dict \<Rightarrow> exn + dict" where
  "apply_write w cum =
     (case w of (c, v) \<Rightarrow>
        if skipped_channel c then Inr cum
        else (case v of
                PList xs \<Rightarrow>
                  (case dget cum c of
                     None \<Rightarrow> Inr (dset c (PList xs) cum)
                   | Some (PList ys) \<Rightarrow> Inr (dset c (PList (ys @ xs)) cum)
                   | Some u \<Rightarrow> Inl (AttributeError (repr_str (py_type_name u) @ '' object has no attribute ''
                                                   @ repr_str ''extend'')))
              | _ \<Rightarrow> Inr (dset c v cum)))"

fun apply_writes :: "(string \<times> pyval) list \<Rightarrow> dict \<Rightarrow> exn + dict" where
  "apply_writes [] cum = Inr cum"
| "apply_writes (w # ws) cum =
     (case apply_write w cum of Inl e \<Rightarrow> Inl e | Inr cum' \<Rightarrow> apply_writes ws cum')"

definition writes_of :: "checkpoint \<Rightarrow> (string \<times> pyval) list" where
  "writes_of k = (case k_writes k of Some ws \<Rightarrow> ws | None \<Rightarrow> [])"

text \<open>\<open>(checkpoint_tuple.config or {}).get("configurable", {}).get("checkpoint_id")\<close>\<close>

definition checkpoint_id :: "pyval \<Rightarrow> exn + pyval" where
  "checkpoint_id config =
     (case py_or config (PDict []) of
        PDict d \<Rightarrow> py_get (case dget d ''configurable'' of None \<Rightarrow> PDict [] | Some v \<Rightarrow> v) ''checkpoint_id''
      | v \<Rightarrow> py_get v ''configurable'')"

text \<open>The loop over the tuples, oldest first.\<close>

fun reconstruct :: "checkpoint list \<Rightarrow> dict \<Rightarrow> exn + (pyval \<times> dict \<times> pyval) list" where
  "reconstruct [] cum = Inr []"
| "reconstruct (k # ks) cum =
     (case apply_writes (writes_of k) cum of
        Inl e \<Rightarrow> Inl e
      | Inr cum' \<Rightarrow>
          (case checkpoint_id (k_config k) of
             Inl e \<Rightarrow> Inl e
           | Inr cid \<Rightarrow>
               (case reconstruct ks cum' of
                  Inl e \<Rightarrow> Inl e
                | Inr rs \<Rightarrow> Inr ((cid, cum', k_metadata k) # rs))))"

definition history_entry :: "(pyval \<Rightarrow> exn + pyval) \<Rightarrow> pyval \<times> dict \<times> pyval \<Rightarrow> exn + pyval" where
  "history_entry message_to_dict r =
     (case r of (cid, vs, md) \<Rightarrow>
        (case serialize_values message_to_dict (PDict vs) of
           Inl e \<Rightarrow> Inl e
         | Inr out \<Rightarrow> Inr (PDict [(''checkpoint'', PDict [(''checkpoint_id'', cid)]),
                               (''values'', PDict out), (''metadata'', md)])))"

fun map_exn :: "('a \<Rightarrow> exn + 'b) \<Rightarrow> 'a list \<Rightarrow> exn + 'b list" where
  "map_exn f [] = Inr []"
| "map_exn f (x # xs) =
     (case f x of Inl e \<Rightarrow> Inl e
      | Inr y \<Rightarrow> (case map_exn f xs of Inl e \<Rightarrow> Inl e | Inr ys \<Rightarrow> Inr (y # ys)))"

text \<open>
  A graph as the endpoints see it. \<open>alist\<close> gets the config of the cursor, if any, and the
  limit; \<open>None\<close> is a graph without checkpointer.
\<close>

datatype created = CreatedText string | CreatedAt string | NotCreated

record snapshot =
  n_values :: pyval
  n_next :: "string list"
  n_tasks :: "pyval list"
  n_interrupts :: "pyval list"
  n_metadata :: pyval
  n_created :: created

record graph =
  g_alist :: "(pyval \<Rightarrow> pyval option \<Rightarrow> int \<Rightarrow> exn + checkpoint list) option"
  g_state :: "pyval \<Rightarrow> exn + snapshot"

definition thread_config :: "string \<Rightarrow> pyval" where
  "thread_config tid =
     PDict [(''configurable'', PDict [(''thread_id'', PStr tid), (''checkpoint_ns'', PStr [])])]"

definition before_config :: "string \<Rightarrow> string option \<Rightarrow> pyval option" where
  "before_config tid before =
     (case before of
        None \<Rightarrow> None
      | Some b \<Rightarrow>
          if b = [] then None
          else Some (PDict [(''configurable'', PDict [(''thread_id'', PStr tid), (''checkpoint_ns'', PStr []),
                                                    (''checkpoint_id'', PStr b)])]))"

definition read_thread_history ::
  "(pyval \<Rightarrow> exn + pyval) \<Rightarrow> graph \<Rightarrow> string \<Rightarrow> int \<Rightarrow> string option \<Rightarrow> exn + pyval list" where
  "read_thread_history message_to_dict g tid limit before =
     (case g_alist g of
        None \<Rightarrow> Inl (ValueError ''No checkpointer set'')
      | Some alist \<Rightarrow>
          (case alist (thread_config tid) (before_config tid before) limit of
             Inl e \<Rightarrow> Inl e
           | Inr tuples \<Rightarrow>
               (case reconstruct (rev tuples) [] of
                  Inl e \<Rightarrow> Inl e
                | Inr rs \<Rightarrow> map_exn (history_entry message_to_dict) (rev rs))))"

section \<open>State\<close>

definition interrupt_dict :: "pyval \<Rightarrow> pyval" where
  "interrupt_dict i =
     PDict [(''id'', or_none (py_getattr i ''id'')),
            (''value'', to_jsonable (or_none (py_getattr i ''value'')))]"

definition iterate :: "pyval \<Rightarrow> exn + pyval list" where
  "iterate v =
     (case elements v of
        Some xs \<Rightarrow> Inr xs
      | None \<Rightarrow> Inl (TypeError (repr_str (py_type_name v) @ '' object is not iterable'')))"

definition task_dict :: "pyval \<Rightarrow> exn + pyval" where
  "task_dict t =
     (case iterate (py_or (case py_getattr t ''path'' of None \<Rightarrow> PTuple [] | Some v \<Rightarrow> v) (PTuple [])) of
        Inl e \<Rightarrow> Inl e
      | Inr path \<Rightarrow>
          (case iterate (case py_getattr t ''interrupts'' of None \<Rightarrow> PTuple [] | Some v \<Rightarrow> v) of
             Inl e \<Rightarrow> Inl e
           | Inr is \<Rightarrow>
               Inr (PDict [(''id'', or_none (py_getattr t ''id'')), (''name'', or_none (py_getattr t ''name'')),
                           (''path'', PList path),
                           (''error'', to_jsonable (or_none (py_getattr t ''error''))),
                           (''interrupts'', PList (map interrupt_dict is))])))"

fun created_at :: "created \<Rightarrow> pyval" where
  "created_at (CreatedText s) = PStr s"
| "created_at (CreatedAt s) = PStr s"
| "created_at NotCreated = PNone"

definition read_thread_state ::
  "(pyval \<Rightarrow> exn + pyval) \<Rightarrow> graph \<Rightarrow> string \<Rightarrow> exn + dict" where
  "read_thread_state message_to_dict g tid =
     (case g_state g (thread_config tid) of
        Inl e \<Rightarrow> Inl e
      | Inr sn \<Rightarrow>
          (case serialize_values message_to_dict (n_values sn) of
             Inl e \<Rightarrow> Inl e
           | Inr vs \<Rightarrow>
               (case map_exn task_dict (n_tasks sn) of
                  Inl e \<Rightarrow> Inl e
                | Inr ts \<Rightarrow>
                    Inr [(''values'', PDict vs), (''next'', PList (map PStr (n_next sn))),
                         (''tasks'', PList ts), (''metadata'', n_metadata sn),
                         (''created_at'', created_at (n_created sn)),
                         (''checkpoint'', PDict [(''checkpoint_id'', PNone), (''thread_id'', PStr tid),
                                                 (''checkpoint_ns'', PStr [])]),
                         (''parent_checkpoint'', PNone),
                         (''interrupts'', PList (map interrupt_dict (n_interrupts sn))),
                         (''checkpoint_id'', PNone), (''parent_checkpoint_id'', PNone)])))"

section \<open>Conversion laws\<close>

lemma to_jsonable_serialisable:
  "serialisable (to_jsonable v)"
  "serialisable_list (to_jsonable_list xs)"
  "serialisable_items (to_jsonable_items d)"
  "serialisable_items (to_jsonable_vars d')"
  by (induction v and xs and d and d' rule: to_jsonable_to_jsonable_list_to_jsonable_items_to_jsonable_vars.induct)
     simp_all

lemma to_jsonable_items_vars: "\<forall>p \<in> set d. \<not> underscored (fst p) \<Longrightarrow> to_jsonable_vars d = to_jsonable_items d"
  by (induction d) auto

lemma to_jsonable_idem:
  "to_jsonable (to_jsonable v) = to_jsonable v"
  "to_jsonable_list (to_jsonable_list xs) = to_jsonable_list xs"
  "to_jsonable_items (to_jsonable_items d) = to_jsonable_items d"
  "to_jsonable_items (to_jsonable_vars d') = to_jsonable_vars d'"
  by (induction v and xs and d and d' rule: to_jsonable_to_jsonable_list_to_jsonable_items_to_jsonable_vars.induct)
     simp_all

lemma serialisable_list_set: "serialisable_list xs \<longleftrightarrow> (\<forall>x \<in> set xs. serialisable x)"
  by (induction xs) simp_all

lemma serialisable_items_set: "serialisable_items d \<longleftrightarrow> (\<forall>p \<in> set d. serialisable (snd p))"
  by (induction d) auto

lemma serialisable_items_dset: "serialisable_items d \<Longrightarrow> serialisable v \<Longrightarrow> serialisable_items (dset k v d)"
  by (induction d) (auto simp: dset_def)

lemma dget_serialisable: "serialisable_items d \<Longrightarrow> dget d k = Some v \<Longrightarrow> serialisable v"
  by (induction d) (auto split: if_splits)

text \<open>A library that converts messages to JSON data, as \<open>message_to_dict\<close> is documented.\<close>

definition json_messages :: "(pyval \<Rightarrow> exn + pyval) \<Rightarrow> bool" where
  "json_messages mtd = (\<forall>m sr. mtd m = Inr sr \<longrightarrow> serialisable sr)"

lemma dict_pairs_serialisable:
  "dict_pairs xs d = Inr d' \<Longrightarrow> serialisable_list xs \<Longrightarrow> serialisable_items d \<Longrightarrow> serialisable_items d'"
proof (induction xs arbitrary: d)
  case (Cons x xs)
  then obtain k v where kv: "dict_pair x = Inr (k, v)" "dict_pairs xs (dset k v d) = Inr d'"
    by (auto split: sum.splits)
  have "serialisable v"
  proof -
    from kv(1) obtain ys where ys: "elements x = Some ys" "length ys = 2" "ys ! 1 = v"
      by (auto simp: dict_pair_def split: option.splits if_splits)
    have "\<forall>y \<in> set ys. serialisable y"
      using Cons.prems(2) ys(1)
      by (cases x) (auto simp: serialisable_list_set serialisable_items_set dkeys_def)
    with ys show ?thesis by (metis nth_mem one_less_numeral_iff semiring_norm(76))
  qed
  with Cons kv(2) show ?case by (simp add: serialisable_items_dset)
qed simp

lemma py_dict_serialisable:
  assumes "py_dict v = Inr d" and "serialisable v"
  shows "serialisable_items d"
proof (cases v)
  case (PList xs)
  with assms dict_pairs_serialisable [of xs "[]" d] show ?thesis by (simp add: py_dict_def)
next
  case (PTuple xs)
  with assms dict_pairs_serialisable [of xs "[]" d] show ?thesis by (simp add: py_dict_def)
next
  case (PStr s)
  with assms dict_pairs_serialisable [of "map (\<lambda>c. PStr [c]) s" "[]" d] show ?thesis
    by (simp add: py_dict_def serialisable_list_set)
qed (use assms in \<open>simp_all add: py_dict_def\<close>)

lemma serialize_message_serialisable:
  assumes "json_messages mtd"
  shows "serialisable_items (serialize_message mtd m)"
proof -
  have "serialisable_items (dset ''type'' (or_none (dget sr ''type'')) d)"
    if "serialisable_items sr" "serialisable_items d" for sr d
    using that dget_serialisable [of sr "''type''"]
    by (cases "dget sr ''type''") (auto intro!: serialisable_items_dset simp: or_none_def)
  moreover have "serialisable_items d"
    if "mtd m = Inr (PDict sr)" "dget sr ''data'' = Some v" "py_dict v = Inr d" for sr v d
    using that assms dget_serialisable [of sr "''data''" v] py_dict_serialisable [of v d]
    by (fastforce simp: json_messages_def)
  moreover have "serialisable_items sr" if "mtd m = Inr (PDict sr)" for sr
    using that assms by (fastforce simp: json_messages_def)
  ultimately show ?thesis
    by (auto simp: serialize_message_def Let_def split: sum.split pyval.split option.split)
qed

lemma serialize_value_serialisable:
  "json_messages mtd \<Longrightarrow> serialisable (serialize_value mtd k v)"
proof -
  assume "json_messages mtd"
  then have "serialisable (PList (map (\<lambda>m. PDict (serialize_message mtd m)) xs))" for xs
    by (simp add: serialisable_list_set serialize_message_serialisable)
  then show ?thesis
    by (cases v) (simp_all add: serialize_value_def to_jsonable_serialisable del: to_jsonable.simps)
qed

section \<open>Reconstruction laws\<close>

lemma apply_writes_append:
  "apply_writes (ws @ vs) cum =
     (case apply_writes ws cum of Inl e \<Rightarrow> Inl e | Inr c \<Rightarrow> apply_writes vs c)"
  by (induction ws arbitrary: cum) (auto split: sum.split)

lemma reconstruct_nth:
  "reconstruct ks cum = Inr rs \<Longrightarrow>
   length rs = length ks \<and>
   (\<forall>j < length ks. \<exists>cid vs. rs ! j = (cid, vs, k_metadata (ks ! j)) \<and>
      checkpoint_id (k_config (ks ! j)) = Inr cid \<and>
      apply_writes (concat (map writes_of (take (Suc j) ks))) cum = Inr vs)"
proof (induction ks arbitrary: cum rs)
  case (Cons k ks)
  then obtain cum' cid rs' where
    step: "apply_writes (writes_of k) cum = Inr cum'" "checkpoint_id (k_config k) = Inr cid"
    "reconstruct ks cum' = Inr rs'" "rs = (cid, cum', k_metadata k) # rs'"
    by (auto split: sum.splits)
  from Cons.IH [OF step(3)] step show ?case
    by (auto simp: nth_Cons' less_Suc_eq_0_disj apply_writes_append)
qed simp

lemma map_exn_nth:
  "map_exn f xs = Inr ys \<Longrightarrow> length ys = length xs \<and> (\<forall>i < length xs. f (xs ! i) = Inr (ys ! i))"
proof (induction xs arbitrary: ys)
  case (Cons x xs)
  then show ?case by (auto simp: less_Suc_eq_0_disj split: sum.splits)
qed simp

definition writes_to :: "string \<Rightarrow> (string \<times> pyval) list \<Rightarrow> pyval list" where
  "writes_to c ws = map snd (filter (\<lambda>w. fst w = c) ws)"

fun is_list :: "pyval \<Rightarrow> bool" where
  "is_list (PList xs) = True"
| "is_list v = False"

fun list_items :: "pyval \<Rightarrow> pyval list" where
  "list_items (PList xs) = xs"
| "list_items v = []"

text \<open>A channel is written uniformly: always with lists, or never.\<close>

definition uniform :: "(string \<times> pyval) list \<Rightarrow> string \<Rightarrow> bool" where
  "uniform ws c = (list_all is_list (writes_to c ws) \<or> list_all (\<lambda>v. \<not> is_list v) (writes_to c ws))"

definition channel_value :: "(string \<times> pyval) list \<Rightarrow> string \<Rightarrow> pyval option" where
  "channel_value ws c =
     (if skipped_channel c \<or> writes_to c ws = [] then None
      else if is_list (last (writes_to c ws))
      then Some (PList (concat (map list_items (writes_to c ws))))
      else Some (last (writes_to c ws)))"

lemma is_list_iff: "is_list v \<longleftrightarrow> (\<exists>xs. v = PList xs)"
  by (cases v) simp_all

lemma writes_to_snoc: "writes_to c (ws @ [(k, v)]) = writes_to c ws @ (if k = c then [v] else [])"
  by (simp add: writes_to_def)

lemma uniform_prefix: "uniform (ws @ [w]) c \<Longrightarrow> uniform ws c"
  by (auto simp: uniform_def writes_to_def)

lemma apply_writes_channels:
  "\<forall>c. \<not> skipped_channel c \<longrightarrow> uniform ws c \<Longrightarrow>
   \<exists>cum. apply_writes ws [] = Inr cum \<and> (\<forall>c. dget cum c = channel_value ws c)"
proof (induction ws rule: rev_induct)
  case Nil
  then show ?case by (simp add: channel_value_def writes_to_def)
next
  case (snoc w ws)
  obtain k v where w: "w = (k, v)" by fastforce
  from snoc.IH snoc.prems uniform_prefix obtain cum where
    cum: "apply_writes ws [] = Inr cum" "\<And>c. dget cum c = channel_value ws c" by metis
  have other: "channel_value (ws @ [(k, v)]) c = channel_value ws c" if "c \<noteq> k" for c
    using that by (simp add: channel_value_def writes_to_snoc)
  show ?case
  proof (cases "skipped_channel k")
    case True
    then have "channel_value (ws @ [(k, v)]) c = channel_value ws c" for c
      using other [of c] by (cases "c = k") (simp_all add: channel_value_def)
    with cum True show ?thesis by (simp add: w apply_writes_append apply_write_def)
  next
    case False
    with snoc.prems have u: "uniform (ws @ [(k, v)]) k" by (simp add: w)
    have "\<exists>cum'. apply_write (k, v) cum = Inr cum' \<and>
        (\<forall>c. dget cum' c = (if c = k then channel_value (ws @ [(k, v)]) k else dget cum c))"
    proof (cases "is_list v")
      case True
      then obtain xs where v: "v = PList xs" by (auto simp: is_list_iff)
      with u have "list_all is_list (writes_to k ws)"
        by (auto simp: uniform_def writes_to_snoc)
      then have "dget cum k = (if writes_to k ws = [] then None
                               else Some (PList (concat (map list_items (writes_to k ws)))))"
        using cum(2) [of k] False last_in_set by (auto simp: channel_value_def list_all_iff)
      with False v show ?thesis by (simp add: apply_write_def channel_value_def writes_to_snoc)
    next
      case nl: False
      then show ?thesis using False
        by (cases v) (simp_all add: apply_write_def channel_value_def writes_to_snoc)
    qed
    then obtain cum' where "apply_write (k, v) cum = Inr cum'"
      "\<And>c. dget cum' c = (if c = k then channel_value (ws @ [(k, v)]) k else dget cum c)" by blast
    with cum other show ?thesis by (simp add: w apply_writes_append)
  qed
qed

section \<open>Properties\<close>

text \<open>Whatever a state value holds (messages, sets, tuples, objects with or without attributes),
  its conversion is JSON data, and converting it again changes nothing.\<close>

theorem to_jsonable_json:
  "serialisable (to_jsonable v) \<and> to_jsonable (to_jsonable v) = to_jsonable v"
  using to_jsonable_serialisable(1) to_jsonable_idem(1) by blast


definition plain_message :: "pyval \<Rightarrow> exn + pyval" where
  "plain_message m =
     (case m of
        PStr s \<Rightarrow> Inr (PDict [(''type'', PStr ''human''), (''data'', PDict [(''content'', PStr s)])])
      | _ \<Rightarrow> Inl (TypeError ''not a message''))"


text \<open>C31: history entries are the checkpoints the checkpointer listed, in its order (newest first),
  and each entry's values are those of the writes of its own checkpoint and of all older ones in
  the list, applied oldest first.\<close>

theorem history_entries:
  assumes "g_alist g = Some alist"
    and "alist (thread_config tid) (before_config tid before) limit = Inr tuples"
    and "read_thread_history message_to_dict g tid limit before = Inr out"
  shows "length out = length tuples \<and>
    (\<forall>i < length tuples. \<exists>cid vs sv.
       checkpoint_id (k_config (tuples ! i)) = Inr cid \<and>
       apply_writes (concat (map writes_of (rev (drop i tuples)))) [] = Inr vs \<and>
       serialize_values message_to_dict (PDict vs) = Inr sv \<and>
       out ! i = PDict [(''checkpoint'', PDict [(''checkpoint_id'', cid)]), (''values'', PDict sv),
                        (''metadata'', k_metadata (tuples ! i))])"
proof -
  let ?n = "length tuples"
  obtain rs where rs: "reconstruct (rev tuples) [] = Inr rs"
    "map_exn (history_entry message_to_dict) (rev rs) = Inr out"
    using assms by (auto simp: read_thread_history_def split: sum.splits)
  note rec = reconstruct_nth [OF rs(1)] and out = map_exn_nth [OF rs(2)]
  have "\<exists>cid vs sv. checkpoint_id (k_config (tuples ! i)) = Inr cid \<and>
       apply_writes (concat (map writes_of (rev (drop i tuples)))) [] = Inr vs \<and>
       serialize_values message_to_dict (PDict vs) = Inr sv \<and>
       out ! i = PDict [(''checkpoint'', PDict [(''checkpoint_id'', cid)]), (''values'', PDict sv),
                        (''metadata'', k_metadata (tuples ! i))]" if i: "i < ?n" for i
  proof -
    let ?j = "?n - Suc i"
    have j: "?j < ?n" "rev tuples ! ?j = tuples ! i" using i by (simp_all add: rev_nth)
    have sl: "take (Suc ?j) (rev tuples) = rev (drop i tuples)"
      using i by (simp add: take_rev Suc_diff_Suc)
    from rec j obtain cid vs where r: "rs ! ?j = (cid, vs, k_metadata (tuples ! i))"
      "checkpoint_id (k_config (tuples ! i)) = Inr cid"
      "apply_writes (concat (map writes_of (rev (drop i tuples)))) [] = Inr vs"
      by (auto simp: sl)
    have "rev rs ! i = rs ! ?j" using rec i by (simp add: rev_nth)
    moreover have "history_entry message_to_dict (rev rs ! i) = Inr (out ! i)"
      using out rec i by simp
    ultimately have "history_entry message_to_dict (cid, vs, k_metadata (tuples ! i)) = Inr (out ! i)"
      by (simp only: r(1))
    with r(2,3) show ?thesis by (auto simp: history_entry_def split: sum.splits)
  qed
  with rec out show ?thesis by simp
qed

definition two_checkpoints :: "checkpoint list" where
  "two_checkpoints =
     [\<lparr>k_writes = Some [(''log'', PList [PInt 2])],
       k_config = PDict [(''configurable'', PDict [(''checkpoint_id'', PStr ''c2'')])], k_metadata = PNone\<rparr>,
      \<lparr>k_writes = Some [(''log'', PList [PInt 1]), (''branch:to:x'', PNone)],
       k_config = PDict [(''configurable'', PDict [(''checkpoint_id'', PStr ''c1'')])], k_metadata = PNone\<rparr>]"

definition listing_graph :: "checkpoint list \<Rightarrow> graph" where
  "listing_graph ks =
     \<lparr>g_alist = Some (\<lambda>config before limit. Inr (take (nat limit) ks)),
      g_state = (\<lambda>config. Inl (ValueError ''no state''))\<rparr>"

definition entry :: "string \<Rightarrow> pyval list \<Rightarrow> pyval" where
  "entry cid log = PDict [(''checkpoint'', PDict [(''checkpoint_id'', PStr cid)]),
     (''values'', PDict [(''log'', PList log)]), (''metadata'', PNone)]"

lemmas history_eval = read_thread_history_def listing_graph_def two_checkpoints_def writes_of_def
  apply_write_def skipped_channel_def checkpoint_id_def py_or_def or_none_def history_entry_def
  serialize_values_def serialize_value_def entry_def dset_def

theorem history_entries_witness:
  "\<exists>out. read_thread_history plain_message (listing_graph two_checkpoints) ''t'' 10 None = Inr out \<and>
     length out = 2"
proof -
  let ?al = "\<lambda>config before limit. Inr (take (nat limit) two_checkpoints)"
  have a: "g_alist (listing_graph two_checkpoints) = Some ?al" by (simp add: listing_graph_def)
  have l: "?al (thread_config ''t'') (before_config ''t'' None) 10 = Inr two_checkpoints"
    by (simp add: two_checkpoints_def)
  obtain out where o: "read_thread_history plain_message (listing_graph two_checkpoints) ''t'' 10 None = Inr out"
    by (simp add: history_eval)
  from history_entries [OF a l o] o show ?thesis by (auto simp: two_checkpoints_def)
qed

text \<open>Reconstruction of delta channels: when every channel is written uniformly, the writes
  always apply; a channel written with lists holds their concatenation, any other channel its last
  value, and interrupt, error, resume and branch channels do not appear.\<close>

theorem history_channels:
  assumes "\<forall>c. \<not> skipped_channel c \<longrightarrow> uniform ws c"
  shows "\<exists>cum. apply_writes ws [] = Inr cum \<and> (\<forall>c. dget cum c = channel_value ws c)"
  using assms by (rule apply_writes_channels)

theorem history_channels_witness:
  "\<exists>cum. apply_writes [(''log'', PList [PInt 1]), (''n'', PInt 5), (''log'', PList [PInt 2])] [] = Inr cum \<and>
     dget cum ''log'' = Some (PList [PInt 1, PInt 2])"
proof -
  let ?ws = "[(''log'', PList [PInt 1]), (''n'', PInt 5), (''log'', PList [PInt 2])]"
  have "\<forall>c. \<not> skipped_channel c \<longrightarrow> uniform ?ws c" by (simp add: uniform_def writes_to_def)
  from history_channels [OF this] show ?thesis
    by (auto simp: channel_value_def writes_to_def skipped_channel_def)
qed

text \<open>A channel that is first written with a single value and then with a list (a node that
  returns one message, then one that returns a list) makes the whole history fail: the value has
  no \<open>extend\<close>.\<close>

theorem history_mixed_writes_fail:
  "\<exists>msg. read_thread_history message_to_dict
     (listing_graph [\<lparr>k_writes = Some [(''messages'', PObj vars attrs st rp), (''messages'', PList [])],
                      k_config = PDict [], k_metadata = PNone\<rparr>]) tid 10 None
   = Inl (AttributeError msg)"
  by (simp add: history_eval)

text \<open>The limit changes the values: the same checkpoint is reconstructed without the writes of
  the checkpoints that the limit cut off.\<close>

theorem history_limit_loses_values:
  "read_thread_history plain_message (listing_graph two_checkpoints) ''t'' 2 None
     = Inr [entry ''c2'' [PInt 1, PInt 2], entry ''c1'' [PInt 1]] \<and>
   read_thread_history plain_message (listing_graph two_checkpoints) ''t'' 1 None
     = Inr [entry ''c2'' [PInt 2]]"
  by (simp add: history_eval)

text \<open>The state of a thread with checkpoints has the wire shape of an untouched thread's: the same
  keys in the same order, the same checkpoint reference, JSON values and interrupts.\<close>

theorem thread_state_shape:
  assumes "read_thread_state message_to_dict g tid = Inr st" and "json_messages message_to_dict"
  shows "dkeys st = dkeys (empty_state tid) \<and>
     dget st ''checkpoint'' = dget (empty_state tid) ''checkpoint'' \<and>
     (\<exists>vs. dget st ''values'' = Some (PDict vs) \<and> serialisable (PDict vs))"
proof -
  obtain sn :: snapshot and vs where sv: "serialize_values message_to_dict (n_values sn) = Inr vs" and
    st: "dkeys st = dkeys (empty_state tid)" "dget st ''checkpoint'' = dget (empty_state tid) ''checkpoint''"
    "dget st ''values'' = Some (PDict vs)"
  proof -
    from assms(1) obtain sn vs ts where
      "serialize_values message_to_dict (n_values sn) = Inr vs"
      "map_exn task_dict (n_tasks sn) = Inr ts" "g_state g (thread_config tid) = Inr sn"
      unfolding read_thread_state_def by (auto split: sum.splits)
    with assms(1) that [of sn vs] show thesis
      by (auto simp: read_thread_state_def empty_state_def dkeys_def)
  qed
  from sv have "serialisable_items vs"
    using serialize_value_serialisable [OF assms(2)]
    by (auto simp: serialize_values_def serialisable_items_set split: if_splits pyval.splits)
  with st show ?thesis by simp
qed

definition idle_graph :: graph where
  "idle_graph =
     \<lparr>g_alist = None,
      g_state = (\<lambda>config. Inr \<lparr>n_values = PDict [(''n'', PInt 1)], n_next = [], n_tasks = [],
        n_interrupts = [], n_metadata = PNone, n_created = NotCreated\<rparr>)\<rparr>"

theorem thread_state_shape_witness:
  "\<exists>st. read_thread_state plain_message idle_graph ''t'' = Inr st \<and> dkeys st = dkeys (empty_state ''t'')"
proof -
  obtain st where st: "read_thread_state plain_message idle_graph ''t'' = Inr st"
    by (simp add: read_thread_state_def idle_graph_def serialize_values_def serialize_value_def)
  have "json_messages plain_message"
    by (auto simp: json_messages_def plain_message_def split: pyval.splits)
  from thread_state_shape [OF st this] st show ?thesis by blast
qed

end
