(* ===== verification/RunTask.thy ===== *)
theory RunTask
  imports Translation StateReads
begin

text \<open>
  The body of a run: \<open>_execute\<close> of \<open>runner.py\<close>, with \<open>_snapshot_values\<close> and
  \<open>_register_pending\<close>. A task runs from one \<open>await\<close> to the next without interruption; a step
  is one such stretch. What it publishes is the list of (method, data) pairs in order. The
  graph is host code: the items its \<open>astream\<close> yields, the exception that ends it (if any),
  and its \<open>aget_state\<close> are data of the task. A cancelled graph stream passes the
  cancellation on.
\<close>

section \<open>The task\<close>

datatype item = MessageItem chunk | ValuesItem pyval

type_synonym emission = "string \<times> pyval"

datatype outcome = Returned | Cancelled | Raised exn

datatype stage = Queued | Streaming | Snapshotting | Settled

text \<open>The stages of a task in the order it goes through them.\<close>

instantiation stage :: linorder
begin

fun rank_stage :: "stage \<Rightarrow> nat" where
  "rank_stage Queued = 0"
| "rank_stage Streaming = 1"
| "rank_stage Snapshotting = 2"
| "rank_stage Settled = 3"

definition less_eq_stage :: "stage \<Rightarrow> stage \<Rightarrow> bool" where
  "less_eq_stage a b = (rank_stage a \<le> rank_stage b)"

definition less_stage :: "stage \<Rightarrow> stage \<Rightarrow> bool" where
  "less_stage a b = (rank_stage a < rank_stage b)"

instance
proof
  fix a b :: stage
  show "a \<le> b \<Longrightarrow> b \<le> a \<Longrightarrow> a = b" by (cases a; cases b; simp add: less_eq_stage_def)
qed (auto simp: less_eq_stage_def less_stage_def)

end

record task =
  t_thread :: string
  t_run_id :: string
  t_assistant :: pyval
  t_items :: "item list"
  t_end :: "exn option"
  t_getter :: "(exn + snapshot) option"
  t_translator :: translator
  t_last :: pyval
  t_stage :: stage
  t_cancel :: bool
  t_outcome :: "outcome option"

definition settle :: "outcome \<Rightarrow> task \<Rightarrow> task" where
  "settle oc t = t\<lparr>t_stage := Settled, t_outcome := Some oc\<rparr>"

definition lifecycle :: "pyval \<Rightarrow> string \<Rightarrow> dict \<Rightarrow> emission" where
  "lifecycle graph_name status extra =
     (''lifecycle'', PDict ([(''event'', PStr status), (''graph_name'', graph_name)] @ extra))"

definition message_events :: "frame list \<Rightarrow> emission list" where
  "message_events fs = map (\<lambda>f. (''messages'', frame_data f)) fs"

section \<open>The exception handlers\<close>

text \<open>
  \<open>except Exception\<close> and \<open>except CancelledError\<close>: both finish the open messages first, and an
  exception of that leaves the task without a lifecycle event.
\<close>

definition fail_task :: "exn \<Rightarrow> task \<Rightarrow> emission list \<times> task" where
  "fail_task e t =
     (case finish_chunk None (t_translator t) of
        (fs, Some e', tr) \<Rightarrow> (message_events fs, settle (Raised e') (t\<lparr>t_translator := tr\<rparr>))
      | (fs, None, tr) \<Rightarrow>
          (message_events fs @
             [lifecycle (t_assistant t) ''failed''
                [(''error'', PStr (exn_type e @ '': '' @ exn_str e))]],
           settle Returned (t\<lparr>t_translator := tr\<rparr>)))"

definition cancel_task :: "task \<Rightarrow> emission list \<times> task" where
  "cancel_task t =
     (case finish_chunk None (t_translator t) of
        (fs, Some e', tr) \<Rightarrow> (message_events fs, settle (Raised e') (t\<lparr>t_translator := tr\<rparr>))
      | (fs, None, tr) \<Rightarrow>
          (message_events fs @ [lifecycle (t_assistant t) ''interrupted'' []],
           settle Cancelled (t\<lparr>t_translator := tr\<rparr>)))"

section \<open>One item of the stream\<close>

definition feed_item :: "chunk \<Rightarrow> translator \<Rightarrow> frame list \<times> exn option \<times> translator" where
  "feed_item c tr =
     (case feed c tr of
        (fs, Some e, tr') \<Rightarrow> (fs, Some e, tr')
      | (fs, None, tr') \<Rightarrow>
          (case k_usage c of
             None \<Rightarrow> (fs, None, tr')
           | Some u \<Rightarrow>
               if u = [] then (fs, None, tr')
               else (case finish_chunk (Some c) tr' of (fs', x, tr'') \<Rightarrow> (fs @ fs', x, tr''))))"

definition take_item :: "(pyval \<Rightarrow> exn + pyval) \<Rightarrow> item \<Rightarrow> task \<Rightarrow> emission list \<times> task" where
  "take_item message_to_dict it t =
     (case it of
        MessageItem c \<Rightarrow>
          (case feed_item c (t_translator t) of
             (fs, None, tr) \<Rightarrow> (message_events fs, t\<lparr>t_translator := tr\<rparr>)
           | (fs, Some e, tr) \<Rightarrow>
               (case fail_task e (t\<lparr>t_translator := tr\<rparr>) of
                  (out, t') \<Rightarrow> (message_events fs @ out, t')))
      | ValuesItem v \<Rightarrow>
          (case serialize_values message_to_dict v of
             Inl e \<Rightarrow> fail_task e (t\<lparr>t_last := v\<rparr>)
           | Inr d \<Rightarrow> ([(''values'', PDict d)], t\<lparr>t_last := v\<rparr>)))"

section \<open>The end of the stream\<close>

text \<open>\<open>_register_pending\<close>\<close>

definition pending_map :: "pyval \<Rightarrow> (string \<times> pyval) list \<Rightarrow> dict" where
  "pending_map aid interrupts =
     foldl (\<lambda>d (i, payload). dset i payload d) [(''assistant_id'', aid)] interrupts"

definition input_requested :: "string \<times> pyval \<Rightarrow> emission" where
  "input_requested p =
     (''input.requested'', PDict [(''interrupt_id'', PStr (fst p)), (''payload'', snd p)])"

text \<open>The second component is the pending map that was registered, if any.\<close>

definition conclude :: "pyval \<Rightarrow> task \<Rightarrow> emission list \<times> dict option \<times> task" where
  "conclude vs t =
     (case interrupts_from_snapshot vs of
        Inl e \<Rightarrow> (case fail_task e t of (out, t') \<Rightarrow> (out, None, t'))
      | Inr interrupts \<Rightarrow>
          if interrupts \<noteq> []
          then (lifecycle (t_assistant t) ''interrupted'' [] # map input_requested interrupts,
                Some (pending_map (t_assistant t) interrupts), settle Returned t)
          else (case finish_chunk None (t_translator t) of
                  (fs, None, tr) \<Rightarrow>
                    (message_events fs @ [lifecycle (t_assistant t) ''completed'' []], None,
                     settle Returned (t\<lparr>t_translator := tr\<rparr>))
                | (fs, Some e, tr) \<Rightarrow>
                    (case fail_task e (t\<lparr>t_translator := tr\<rparr>) of
                       (out, t') \<Rightarrow> (message_events fs @ out, None, t'))))"

text \<open>\<open>_snapshot_values\<close>: no getter and a getter that raises give no values.\<close>

definition snapshot_values :: "(exn + snapshot) option \<Rightarrow> exn + dict" where
  "snapshot_values getter =
     (case getter of
        None \<Rightarrow> Inr []
      | Some (Inl e) \<Rightarrow> Inr []
      | Some (Inr sn) \<Rightarrow> py_dict (py_or (n_values sn) (PDict [])))"

section \<open>The steps\<close>

definition exec_step ::
  "(pyval \<Rightarrow> exn + pyval) \<Rightarrow> task \<Rightarrow> emission list \<times> dict option \<times> task" where
  "exec_step message_to_dict t =
     (case t_stage t of
        Queued \<Rightarrow>
          if t_cancel t then ([], None, settle Cancelled t)
          else ([lifecycle (t_assistant t) ''started'' [], lifecycle (t_assistant t) ''running'' []],
                None, t\<lparr>t_stage := Streaming\<rparr>)
      | Streaming \<Rightarrow>
          if t_cancel t then (case cancel_task t of (out, t') \<Rightarrow> (out, None, t'))
          else (case t_items t of
                  it # its \<Rightarrow>
                    (case take_item message_to_dict it (t\<lparr>t_items := its\<rparr>) of
                       (out, t') \<Rightarrow> (out, None, t'))
                | [] \<Rightarrow>
                    (case t_end t of
                       Some e \<Rightarrow> (case fail_task e t of (out, t') \<Rightarrow> (out, None, t'))
                     | None \<Rightarrow>
                         if t_last t \<noteq> PNone then conclude (t_last t) t
                         else ([], None, t\<lparr>t_stage := Snapshotting\<rparr>)))
      | Snapshotting \<Rightarrow>
          if t_cancel t then (case cancel_task t of (out, t') \<Rightarrow> (out, None, t'))
          else (case snapshot_values (t_getter t) of
                  Inl e \<Rightarrow> (case fail_task e t of (out, t') \<Rightarrow> (out, None, t'))
                | Inr d \<Rightarrow> conclude (PDict d) t)
      | Settled \<Rightarrow> ([], None, t))"

definition request_cancel :: "task \<Rightarrow> task" where
  "request_cancel t = (if t_stage t = Settled then t else t\<lparr>t_cancel := True\<rparr>)"

section \<open>The lifecycle of a run\<close>

text \<open>
  The abstract lifecycle: what a run may announce. It has not begun, is active, or is over
  with an outcome; the labels are the lifecycle statuses of the transition.
\<close>

datatype life = NotBegun | Active | Over outcome

inductive life_step :: "life \<Rightarrow> string list \<Rightarrow> life \<Rightarrow> bool" where
  begun: "life_step NotBegun [''started'', ''running''] Active"
| dropped: "life_step NotBegun [] (Over Cancelled)"
| work: "life_step Active [] Active"
| finished: "s \<in> {''completed'', ''failed'', ''interrupted''} \<Longrightarrow> life_step Active [s] (Over Returned)"
| cancelled: "life_step Active [''interrupted''] (Over Cancelled)"
| crashed: "life_step Active [] (Over (Raised e))"
| idle: "life_step l [] l"

inductive life_run :: "string list \<Rightarrow> life \<Rightarrow> bool" where
  initial: "life_run [] NotBegun"
| step: "life_run ss l \<Longrightarrow> life_step l ls l' \<Longrightarrow> life_run (ss @ ls) l'"

inductive_cases life_step_NotBegun: "life_step NotBegun ls l"
inductive_cases life_step_Active: "life_step Active ls l"
inductive_cases life_step_Over: "life_step (Over oc) ls l"
inductive_simps life_step_rest [simp]: "life_step (Over oc) ls l"

fun announced :: "life \<Rightarrow> string list \<Rightarrow> bool" where
  "announced NotBegun ss = (ss = [])"
| "announced Active ss = (ss = [''started'', ''running''])"
| "announced (Over Returned) ss =
     (\<exists>s \<in> {''completed'', ''failed'', ''interrupted''}. ss = [''started'', ''running'', s])"
| "announced (Over Cancelled) ss = (ss = [] \<or> ss = [''started'', ''running'', ''interrupted''])"
| "announced (Over (Raised e)) ss = (ss = [''started'', ''running''])"

lemma life_run_announced: "life_run ss l \<Longrightarrow> announced l ss"
proof (induction rule: life_run.induct)
  case (step ss l ls l')
  show ?case
  proof (cases l)
    case NotBegun
    with step show ?thesis by (auto elim!: life_step_NotBegun)
  next
    case Active
    with step show ?thesis by (auto elim!: life_step_Active)
  next
    case (Over oc)
    with step show ?thesis by auto
  qed
qed simp

definition abs_life :: "task \<Rightarrow> life" where
  "abs_life t =
     (case t_stage t of
        Queued \<Rightarrow> NotBegun | Streaming \<Rightarrow> Active | Snapshotting \<Rightarrow> Active
      | Settled \<Rightarrow> Over (case t_outcome t of Some oc \<Rightarrow> oc | None \<Rightarrow> Returned))"

definition status_of :: "emission \<Rightarrow> string option" where
  "status_of e =
     (case e of (m, v) \<Rightarrow>
        if m = ''lifecycle'' then (case v of PDict d \<Rightarrow> Option.bind (dget d ''event'') as_str | _ \<Rightarrow> None)
        else None)"

fun statuses :: "emission list \<Rightarrow> string list" where
  "statuses [] = []"
| "statuses (e # out) = (case status_of e of None \<Rightarrow> statuses out | Some s \<Rightarrow> s # statuses out)"

lemma statuses_append [simp]: "statuses (out @ out') = statuses out @ statuses out'"
  by (induction out) (auto split: option.split)

lemma status_of_simps [simp]:
  "status_of (lifecycle g s extra) = Some s"
  "m \<noteq> ''lifecycle'' \<Longrightarrow> status_of (m, v) = None"
  by (simp_all add: status_of_def lifecycle_def)

lemma statuses_messages [simp]: "statuses (message_events fs) = []"
  by (induction fs) (simp_all add: message_events_def)

lemma statuses_input [simp]: "statuses (map input_requested ps) = []"
  by (induction ps) (simp_all add: input_requested_def)

lemma abs_life_settle [simp]: "abs_life (settle oc t) = Over oc"
  by (simp add: abs_life_def settle_def)

lemma fail_task_life:
  assumes "fail_task e t = (out, t')"
  shows "life_step Active (statuses out) (abs_life t')"
  using assms
  by (auto simp: fail_task_def intro: life_step.intros split: prod.splits option.splits)

lemma cancel_task_life:
  assumes "cancel_task t = (out, t')"
  shows "life_step Active (statuses out) (abs_life t')"
  using assms
  by (auto simp: cancel_task_def intro: life_step.intros split: prod.splits option.splits)

lemma take_item_life:
  assumes "take_item mtd it t = (out, t')" and "abs_life t = Active"
  shows "life_step Active (statuses out) (abs_life t')"
proof -
  have keep: "abs_life (t\<lparr>t_translator := tr\<rparr>) = Active" "abs_life (t\<lparr>t_last := v\<rparr>) = Active" for tr v
    using assms(2) by (cases "t_stage t"; simp add: abs_life_def)+
  show ?thesis using assms(1)
    by (auto simp: take_item_def keep fail_task_life intro: life_step.work
        split: item.splits prod.splits option.splits sum.splits)
qed

lemma conclude_life:
  assumes "conclude vs t = (out, p, t')"
  shows "life_step Active (statuses out) (abs_life t')"
  using assms
  by (auto simp: conclude_def fail_task_life intro: life_step.intros
      split: sum.splits prod.splits option.splits if_splits)

lemma exec_step_life:
  assumes "exec_step mtd t = (out, p, t')"
  shows "life_step (abs_life t) (statuses out) (abs_life t')"
proof (cases "t_stage t")
  case Queued
  with assms show ?thesis
    by (auto simp: exec_step_def abs_life_def settle_def intro: life_step.intros split: if_splits)
next
  case Streaming
  then have a: "abs_life t = Active" "abs_life (t\<lparr>t_items := its\<rparr>) = Active"
    "abs_life (t\<lparr>t_stage := Snapshotting\<rparr>) = Active" for its
    by (simp_all add: abs_life_def)
  show ?thesis using assms Streaming
    by (auto simp: exec_step_def a fail_task_life cancel_task_life conclude_life
        intro: life_step.work dest: take_item_life [OF _ a(2)]
        split: if_splits list.splits option.splits prod.splits)
next
  case Snapshotting
  then have "abs_life t = Active" by (simp add: abs_life_def)
  with assms Snapshotting show ?thesis
    by (auto simp: exec_step_def fail_task_life cancel_task_life conclude_life
        split: if_splits sum.splits prod.splits)
next
  case Settled
  with assms show ?thesis by (auto simp: exec_step_def intro: life_step.idle)
qed

section \<open>Runs of a task\<close>

text \<open>
  A task under the event loop: steps, and cancellation requests at any time between them. The
  trace is everything it published.
\<close>

datatype task_event = Advance | RequestCancel

record traced =
  x_task :: task
  x_trace :: "emission list"

definition traced_step :: "(pyval \<Rightarrow> exn + pyval) \<Rightarrow> traced \<Rightarrow> task_event \<Rightarrow> traced" where
  "traced_step message_to_dict x ev =
     (case ev of
        Advance \<Rightarrow>
          (case exec_step message_to_dict (x_task x) of
             (out, p, t) \<Rightarrow> \<lparr>x_task = t, x_trace = x_trace x @ out\<rparr>)
      | RequestCancel \<Rightarrow> x\<lparr>x_task := request_cancel (x_task x)\<rparr>)"

definition new_task ::
  "string \<Rightarrow> string \<Rightarrow> pyval \<Rightarrow> item list \<times> exn option \<Rightarrow> (exn + snapshot) option \<Rightarrow> task" where
  "new_task tid rid aid script getter =
     \<lparr>t_thread = tid, t_run_id = rid, t_assistant = aid, t_items = fst script, t_end = snd script,
      t_getter = getter, t_translator = [], t_last = PNone, t_stage = Queued, t_cancel = False,
      t_outcome = None\<rparr>"

abbreviation task_run ::
  "(pyval \<Rightarrow> exn + pyval) \<Rightarrow> task \<Rightarrow> task_event list \<Rightarrow> traced" where
  "task_run mtd t evs \<equiv> foldl (traced_step mtd) \<lparr>x_task = t, x_trace = []\<rparr> evs"

lemma request_cancel_simps [simp]:
  "t_stage (request_cancel t) = t_stage t" "t_translator (request_cancel t) = t_translator t"
  "t_items (request_cancel t) = t_items t" "t_outcome (request_cancel t) = t_outcome t"
  "t_thread (request_cancel t) = t_thread t" "t_run_id (request_cancel t) = t_run_id t"
  by (simp_all add: request_cancel_def)

lemma request_cancel_life [simp]: "abs_life (request_cancel t) = abs_life t"
  by (cases "t_stage t") (simp_all add: abs_life_def)

subsection \<open>The frames of a run\<close>

definition messages_of :: "emission list \<Rightarrow> pyval list" where
  "messages_of out = map snd (filter (\<lambda>e. fst e = ''messages'') out)"

lemma messages_of_simps [simp]:
  "messages_of [] = []"
  "messages_of (out @ out') = messages_of out @ messages_of out'"
  "messages_of (lifecycle g s extra # out) = messages_of out"
  "messages_of ((''values'', v) # out) = messages_of out"
  "messages_of (message_events fs) = map frame_data fs"
  by (simp_all add: messages_of_def lifecycle_def message_events_def filter_map comp_def)

lemma messages_of_input [simp]: "messages_of (map input_requested ps) = []"
  by (induction ps) (simp_all add: messages_of_def input_requested_def)

text \<open>
  A stretch of a run: the frames it emitted lead the frame automaton from \<open>st\<close> to a state
  that fits the new translator.
\<close>

definition framed :: "frame_state \<Rightarrow> emission list \<Rightarrow> task \<Rightarrow> frame_state \<Rightarrow> bool" where
  "framed st out t st' =
     (\<exists>fs. messages_of out = map frame_data fs \<and> frame_run st fs = Some st' \<and>
           translator_inv (t_translator t) st')"

lemma settle_translator [simp]: "t_translator (settle oc t) = t_translator t"
  by (simp add: settle_def)

lemma framed_append:
  "framed st out t st1 \<Longrightarrow> framed st1 out' t' st2 \<Longrightarrow> framed st (out @ out') t' st2"
proof -
  assume "framed st out t st1" "framed st1 out' t' st2"
  then obtain fs gs where "messages_of out = map frame_data fs" "frame_run st fs = Some st1"
    "messages_of out' = map frame_data gs" "frame_run st1 gs = Some st2"
    "translator_inv (t_translator t') st2" by (auto simp: framed_def)
  then show ?thesis by (auto simp: framed_def frame_run_append intro!: exI [of _ "fs @ gs"])
qed

lemma framed_frames:
  "frame_run st fs = Some st' \<Longrightarrow> translator_inv (t_translator t) st' \<Longrightarrow> messages_of out = map frame_data fs \<Longrightarrow>
   framed st out t st'"
  by (auto simp: framed_def)

lemma framed_quiet:
  "translator_inv (t_translator t) st \<Longrightarrow> messages_of out = [] \<Longrightarrow> framed st out t st"
  by (rule framed_frames [of st "[]"]) simp_all

text \<open>After a \<open>completed\<close> or \<open>failed\<close> event no message is open.\<close>

definition closed_by :: "emission list \<Rightarrow> frame_state \<Rightarrow> bool" where
  "closed_by out st = (''completed'' \<in> set (statuses out) \<or> ''failed'' \<in> set (statuses out) \<longrightarrow> st = Outside)"

lemma fail_task_framed:
  assumes "translator_inv (t_translator t) st" and "fail_task e t = (out, t')"
  shows "\<exists>st'. framed st out t' st' \<and> closed_by out st'"
proof -
  obtain fs x tr where f: "finish_chunk None (t_translator t) = (fs, x, tr)" by (metis prod_cases3)
  from finish_all_inv [OF assms(1) f] obtain st' where
    "frame_run st fs = Some st'" "translator_inv tr st'" "x = None \<longrightarrow> st' = Outside" by blast
  with assms(2) f show ?thesis
    by (cases x) (auto simp: fail_task_def settle_def closed_by_def intro!: exI [of _ st'] framed_frames [of st fs])
qed

lemma cancel_task_framed:
  assumes "translator_inv (t_translator t) st" and "cancel_task t = (out, t')"
  shows "\<exists>st'. framed st out t' st' \<and> closed_by out st'"
proof -
  obtain fs x tr where f: "finish_chunk None (t_translator t) = (fs, x, tr)" by (metis prod_cases3)
  from finish_all_inv [OF assms(1) f] obtain st' where
    "frame_run st fs = Some st'" "translator_inv tr st'" by blast
  with assms(2) f show ?thesis
    by (cases x) (auto simp: cancel_task_def settle_def closed_by_def intro!: exI [of _ st'] framed_frames [of st fs])
qed

lemma feed_item_inv:
  assumes "translator_inv tr st" and "feed_item c tr = (fs, x, tr')"
  shows "\<exists>st'. frame_run st fs = Some st' \<and> translator_inv tr' st'"
proof -
  obtain gs y tr1 where g: "feed c tr = (gs, y, tr1)" by (metis prod_cases3)
  obtain hs z tr2 where h: "finish_chunk (Some c) tr1 = (hs, z, tr2)" by (metis prod_cases3)
  from feed_inv [OF assms(1) g] obtain st1 where
    st1: "frame_run st gs = Some st1" "translator_inv tr1 st1" by blast
  from finish_some_inv [OF st1(2) h] obtain st2 where
    "frame_run st1 hs = Some st2" "translator_inv tr2 st2" by blast
  with st1 assms(2) g h show ?thesis
    by (auto simp: feed_item_def frame_run_append split: option.splits if_splits)
qed

lemma take_item_framed:
  assumes inv: "translator_inv (t_translator t) st" and t: "take_item mtd it t = (out, t')"
  shows "\<exists>st'. framed st out t' st' \<and> closed_by out st'"
proof (cases it)
  case (MessageItem c)
  obtain fs x tr where f: "feed_item c (t_translator t) = (fs, x, tr)" by (metis prod_cases3)
  from feed_item_inv [OF inv f] obtain st1 where
    st1: "frame_run st fs = Some st1" "translator_inv tr st1" by blast
  have one: "framed st (message_events fs) (t\<lparr>t_translator := tr\<rparr>) st1"
    using st1 by (intro framed_frames [of st fs]) simp_all
  show ?thesis
  proof (cases x)
    case None
    with one t f MessageItem show ?thesis by (auto simp: take_item_def closed_by_def)
  next
    case (Some e)
    obtain out2 t2 where g: "fail_task e (t\<lparr>t_translator := tr\<rparr>) = (out2, t2)" by fastforce
    from fail_task_framed [OF _ g, of st1] st1 obtain st2 where
      st2: "framed st1 out2 t2 st2" "closed_by out2 st2" by auto
    from framed_append [OF one st2(1)] st2(2) t f g Some MessageItem show ?thesis
      by (auto simp: take_item_def closed_by_def)
  qed
next
  case (ValuesItem v)
  show ?thesis
  proof (cases "serialize_values mtd v")
    case (Inl e)
    with t ValuesItem fail_task_framed [of "t\<lparr>t_last := v\<rparr>" st e out t'] inv show ?thesis
      by (auto simp: take_item_def)
  next
    case (Inr d)
    with t ValuesItem inv show ?thesis
      by (auto simp: take_item_def closed_by_def intro!: exI [of _ st] framed_quiet)
  qed
qed

lemma conclude_framed:
  assumes inv: "translator_inv (t_translator t) st" and t: "conclude vs t = (out, p, t')"
  shows "\<exists>st'. framed st out t' st' \<and> closed_by out st'"
proof (cases "interrupts_from_snapshot vs")
  case (Inl e)
  with t fail_task_framed [OF inv] show ?thesis by (auto simp: conclude_def split: prod.splits)
next
  case ps: (Inr ps)
  show ?thesis
  proof (cases "ps = []")
    case False
    with ps t inv show ?thesis
      by (auto simp: conclude_def closed_by_def intro!: exI [of _ st] framed_quiet)
  next
    case True
    obtain fs x tr where f: "finish_chunk None (t_translator t) = (fs, x, tr)" by (metis prod_cases3)
    from finish_all_inv [OF inv f] obtain st1 where
      st1: "frame_run st fs = Some st1" "translator_inv tr st1" "x = None \<longrightarrow> st1 = Outside" by blast
    have one: "framed st (message_events fs) (t\<lparr>t_translator := tr\<rparr>) st1"
      using st1 by (intro framed_frames [of st fs]) simp_all
    show ?thesis
    proof (cases x)
      case None
      with t ps True f st1 show ?thesis
        by (auto simp: conclude_def closed_by_def intro!: exI [of _ st1] framed_frames [of st fs])
    next
      case (Some e)
      obtain out2 t2 where g: "fail_task e (t\<lparr>t_translator := tr\<rparr>) = (out2, t2)" by fastforce
      from fail_task_framed [OF _ g, of st1] st1 obtain st2 where
        st2: "framed st1 out2 t2 st2" "closed_by out2 st2" by auto
      with framed_append [OF one st2(1)] t ps True f g Some show ?thesis
        by (auto simp: conclude_def closed_by_def)
    qed
  qed
qed

lemma exec_step_framed:
  assumes inv: "translator_inv (t_translator t) st" and t: "exec_step mtd t = (out, p, t')"
  shows "\<exists>st'. framed st out t' st' \<and> closed_by out st'"
proof -
  note parts = fail_task_framed [OF inv] cancel_task_framed [OF inv] conclude_framed [OF inv]
  have quiet: "\<exists>st'. framed st out t' st' \<and> closed_by out st'"
    if "messages_of out = []" "set (statuses out) \<subseteq> {''started'', ''running''}" "t_translator t' = t_translator t" for out t'
    using framed_quiet [of t' st out] that inv by (auto simp: closed_by_def intro!: exI [of _ st])
  show ?thesis
  proof (cases "t_stage t")
    case Queued
    with t show ?thesis
      by (auto simp: exec_step_def split: if_splits intro!: quiet)
  next
    case Streaming
    have item: "\<exists>st'. framed st out t' st' \<and> closed_by out st'"
      if "take_item mtd it (t\<lparr>t_items := its\<rparr>) = (out, t')" for it its
      using take_item_framed [OF _ that] inv by simp
    show ?thesis
    proof (cases "t_items t")
      case Nil
      with t Streaming show ?thesis
        by (auto simp: exec_step_def parts intro!: quiet split: if_splits option.splits prod.splits)
    next
      case (Cons it its)
      with t Streaming show ?thesis
        by (auto simp: exec_step_def parts intro: item split: if_splits prod.splits)
    qed
  next
    case Snapshotting
    with t show ?thesis
      by (auto simp: exec_step_def parts split: if_splits sum.splits prod.splits)
  next
    case Settled
    with t show ?thesis by (auto simp: exec_step_def intro!: quiet)
  qed
qed

subsection \<open>The invariant of a run\<close>

definition traced_inv :: "traced \<Rightarrow> bool" where
  "traced_inv x =
     (life_run (statuses (x_trace x)) (abs_life (x_task x)) \<and>
      (\<exists>st. framed Outside (x_trace x) (x_task x) st \<and> closed_by (x_trace x) st))"

text \<open>Nothing is published after the terminal event.\<close>

lemma announced_over:
  assumes "announced l ss" and "s \<in> set ss" and "s \<in> {''completed'', ''failed''}"
  shows "l = Over Returned"
proof (cases l)
  case (Over oc)
  with assms show ?thesis by (cases oc) auto
qed (use assms in auto)

lemma traced_inv_step: "traced_inv x \<Longrightarrow> traced_inv (traced_step mtd x ev)"
proof (cases ev)
  case RequestCancel
  then show "traced_inv x \<Longrightarrow> ?thesis"
    by (simp add: traced_inv_def traced_step_def framed_def)
next
  case Advance
  assume x: "traced_inv x"
  obtain out p t' where e: "exec_step mtd (x_task x) = (out, p, t')" by (metis prod_cases3)
  from x obtain st where st: "framed Outside (x_trace x) (x_task x) st" "closed_by (x_trace x) st"
    and run: "life_run (statuses (x_trace x)) (abs_life (x_task x))" by (auto simp: traced_inv_def)
  from st(1) have "translator_inv (t_translator (x_task x)) st" by (auto simp: framed_def)
  from exec_step_framed [OF this e] obtain st' where st': "framed st out t' st'" "closed_by out st'" by blast
  have "life_run (statuses (x_trace x @ out)) (abs_life t')"
    using life_run.step [OF run exec_step_life [OF e]] by simp
  moreover have "closed_by (x_trace x @ out) st'"
  proof (cases "''completed'' \<in> set (statuses (x_trace x)) \<or> ''failed'' \<in> set (statuses (x_trace x))")
    case True
    then have "abs_life (x_task x) = Over Returned"
      using announced_over [OF life_run_announced [OF run]] by blast
    then have "t_stage (x_task x) = Settled" by (auto simp: abs_life_def split: stage.splits)
    with e have "out = []" by (simp add: exec_step_def)
    with st' st(2) True show ?thesis by (auto simp: closed_by_def framed_def)
  next
    case False
    with st'(2) show ?thesis by (auto simp: closed_by_def)
  qed
  ultimately show ?thesis using framed_append [OF st(1) st'(1)] Advance e
    by (auto simp: traced_inv_def traced_step_def)
qed

interpretation traced: event_system "traced_step mtd" traced_inv for mtd
  by unfold_locales (rule traced_inv_step)

lemma traced_inv_new: "traced_inv \<lparr>x_task = new_task tid rid aid script getter, x_trace = []\<rparr>"
  by (auto simp: traced_inv_def new_task_def abs_life_def framed_def closed_by_def translator_inv_def
      intro: life_run.initial)

lemma task_run_inv: "traced_inv (task_run mtd (new_task tid rid aid script getter) evs)"
  by (rule traced.inv_run [OF traced_inv_new])

subsection \<open>Every run ends\<close>

fun budget :: "task \<Rightarrow> nat" where
  "budget t =
     (case t_stage t of
        Queued \<Rightarrow> length (t_items t) + 3 | Streaming \<Rightarrow> length (t_items t) + 2
      | Snapshotting \<Rightarrow> 1 | Settled \<Rightarrow> 0)"

declare budget.simps [simp del]

lemma budget_settled [simp]: "budget t = 0 \<longleftrightarrow> t_stage t = Settled"
  by (simp add: budget.simps split: stage.splits)

lemma stage_settle [simp]: "t_stage (settle oc t) = Settled"
  by (simp add: settle_def)

lemma fail_task_settles: "fail_task e t = (out, t') \<Longrightarrow> t_stage t' = Settled"
  by (auto simp: fail_task_def split: prod.splits option.splits)

lemma cancel_task_settles: "cancel_task t = (out, t') \<Longrightarrow> t_stage t' = Settled"
  by (auto simp: cancel_task_def split: prod.splits option.splits)

lemma conclude_settles: "conclude vs t = (out, p, t') \<Longrightarrow> t_stage t' = Settled"
  by (auto simp: conclude_def fail_task_settles split: sum.splits prod.splits option.splits if_splits)

lemma take_item_stage:
  "take_item mtd it t = (out, t') \<Longrightarrow>
   t_stage t' = Settled \<or> (t_stage t' = t_stage t \<and> t_items t' = t_items t)"
  by (auto simp: take_item_def fail_task_settles split: item.splits prod.splits option.splits sum.splits)

lemma exec_step_budget:
  assumes "exec_step mtd t = (out, p, t')" and "t_stage t \<noteq> Settled"
  shows "budget t' < budget t \<and> t_stage t \<le> t_stage t'"
proof -
  have over: "budget u < budget t \<and> t_stage t \<le> t_stage u" if "t_stage u = Settled" for u
    using assms(2) that by (cases "t_stage t") (simp_all add: budget.simps less_eq_stage_def)
  show ?thesis
  proof (cases "t_stage t")
    case Streaming
    show ?thesis
    proof (cases "t_items t")
      case Nil
      with assms Streaming show ?thesis
        by (auto simp: exec_step_def over fail_task_settles cancel_task_settles conclude_settles
            budget.simps less_eq_stage_def split: if_splits option.splits prod.splits)
    next
      case (Cons it its)
      have "budget u < budget t \<and> t_stage t \<le> t_stage u"
        if "take_item mtd it (t\<lparr>t_items := its\<rparr>) = (out, u)" for u
        using take_item_stage [OF that] Streaming Cons over [of u] by (auto simp: budget.simps)
      with assms Streaming Cons show ?thesis
        by (auto simp: exec_step_def over cancel_task_settles less_eq_stage_def split: if_splits prod.splits)
    qed
  qed (use assms over in \<open>auto simp: exec_step_def fail_task_settles cancel_task_settles
        conclude_settles budget.simps less_eq_stage_def split: if_splits sum.splits prod.splits\<close>)
qed

lemma exec_step_spends: "exec_step mtd t = (out, p, t') \<Longrightarrow> budget t' \<le> budget t - 1"
proof (cases "t_stage t = Settled")
  case True
  assume "exec_step mtd t = (out, p, t')"
  with True have "t_stage t' = Settled" by (simp add: exec_step_def)
  then have "budget t' = 0" by simp
  then show ?thesis by linarith
next
  case False
  assume "exec_step mtd t = (out, p, t')"
  from exec_step_budget [OF this False] show ?thesis by linarith
qed

definition advances :: "task_event list \<Rightarrow> nat" where
  "advances evs = length (filter (\<lambda>ev. ev = Advance) evs)"

lemma budget_cancel [simp]: "budget (request_cancel t) = budget t"
  by (cases "t_stage t") (simp_all add: budget.simps)

lemma budget_run: "budget (x_task (foldl (traced_step mtd) x evs)) \<le> budget (x_task x) - advances evs"
proof (induction evs arbitrary: x)
  case Nil
  then show ?case by (simp add: advances_def)
next
  case (Cons ev evs)
  have "budget (x_task (traced_step mtd x ev)) \<le> budget (x_task x) - advances [ev]"
  proof (cases ev)
    case Advance
    obtain out p t' where e: "exec_step mtd (x_task x) = (out, p, t')" by (metis prod_cases3)
    with Advance exec_step_spends [OF e] show ?thesis by (simp add: traced_step_def advances_def)
  qed (simp add: traced_step_def advances_def)
  moreover have "advances (ev # evs) = advances [ev] + advances evs" by (simp add: advances_def)
  ultimately show ?case using Cons [of "traced_step mtd x ev"] by simp
qed

section \<open>Properties\<close>

text \<open>C5: lifecycle events. In every run, with cancellation requested at any moments, a run that has
  begun announces \<open>started\<close> and \<open>running\<close>, and when it is over one terminal status, \<open>completed\<close>,
  \<open>failed\<close> or \<open>interrupted\<close>, and nothing after it. The only exceptions are a run cancelled before
  its first step, which announces nothing, and a run whose message finishing raised, which
  announces no terminal status.\<close>

theorem lifecycle_of_run:
  "announced (abs_life (x_task (task_run mtd (new_task tid rid aid script getter) evs)))
     (statuses (x_trace (task_run mtd (new_task tid rid aid script getter) evs)))"
  using task_run_inv [of mtd tid rid aid script getter evs]
  by (simp add: traced_inv_def life_run_announced)



text \<open>C27: the frames of a run, as published, follow the frame protocol, and a run that announces
  \<open>completed\<close> or \<open>failed\<close> has finished every message it started.\<close>

theorem run_frames:
  "\<exists>fs st. messages_of (x_trace (task_run mtd (new_task tid rid aid script getter) evs)) = map frame_data fs \<and>
     frame_run Outside fs = Some st \<and>
     closed_by (x_trace (task_run mtd (new_task tid rid aid script getter) evs)) st"
  using task_run_inv [of mtd tid rid aid script getter evs]
  by (auto simp: traced_inv_def framed_def)

text \<open>A run cancelled between \<open>create_task\<close> and its first step never runs \<open>_execute\<close>: it is over
  and has published nothing, not even a terminal status.\<close>

theorem early_cancel_is_silent:
  "x_task (task_run mtd (new_task tid rid aid script getter) [RequestCancel, Advance])
     = settle Cancelled (request_cancel (new_task tid rid aid script getter)) \<and>
   x_trace (task_run mtd (new_task tid rid aid script getter) [RequestCancel, Advance]) = []"
  by (simp add: traced_step_def exec_step_def request_cancel_def new_task_def)

definition long_digits :: string where
  "long_digits = replicate 5000 (CHR ''7'')"

lemma long_digits_raise:
  "args_value long_digits = Inl (parse_exn IntTooLong)" "long_digits \<noteq> []"
proof -
  have l: "length long_digits = 5000" by (simp add: long_digits_def)
  have "set long_digits = {CHR ''7''}" by (simp add: long_digits_def)
  then have d: "list_all is_digit long_digits" by (simp add: list_all_iff is_digit_def)
  from l show ne: "long_digits \<noteq> []" by auto
  have "hd long_digits \<noteq> CHR ''0''"
    using hd_in_set [OF ne] \<open>set long_digits = {CHR ''7''}\<close> by auto
  with d l show "args_value long_digits = Inl (parse_exn IntTooLong)"
    by (intro args_value_long) (simp_all add: MAX_STR_DIGITS_def)
qed

definition call_chunk :: "string \<Rightarrow> chunk" where
  "call_chunk args = (text_chunk ''AIMessageChunk'' ''m'' [])
     \<lparr>k_fragments := [\<lparr>f_index = Some 0, f_id = Some ''c'', f_name = Some ''add'', f_args = Some args\<rparr>]\<rparr>"

lemmas run_eval = traced_step_def exec_step_def new_task_def take_item_def feed_item_def conclude_def
  fail_task_def settle_def message_events_def serialize_values_def interrupts_from_snapshot_def
  py_or_def or_none_def translator_eval

text \<open>The terminal event can be lost: when a tool call's argument text is an integer beyond the
  digit limit, finishing the message raises, the handler finishes it again, that raises again,
  and the task ends with the exception and without a terminal lifecycle event.\<close>

theorem run_without_terminal_event:
  "let x = task_run mtd (new_task tid rid aid ([MessageItem (call_chunk long_digits), ValuesItem (PDict [])], None) None)
             [Advance, Advance, Advance, Advance]
   in t_outcome (x_task x) = Some (Raised (parse_exn IntTooLong)) \<and>
      statuses (x_trace x) = [''started'', ''running'']"
  by (simp add: run_eval call_chunk_def parse_args_def long_digits_raise)

text \<open>A run that the graph interrupts leaves its open message unfinished: the frames published
  before \<open>interrupted\<close> have a \<open>message-start\<close> and no \<open>message-finish\<close>.\<close>

theorem interrupted_run_leaves_message_open:
  "let x = task_run mtd (new_task tid rid aid
              ([MessageItem (text_chunk ''AIMessageChunk'' ''m'' ''Hi''),
                ValuesItem (PDict [(''__interrupt__'', PList [PDict [(''id'', PStr ''i''), (''value'', PNone)]])])], None) None)
             [Advance, Advance, Advance, Advance]
   in statuses (x_trace x) = [''started'', ''running'', ''interrupted''] \<and>
      t_outcome (x_task x) = Some Returned \<and>
      messages_of (x_trace x) = map frame_data [MessageStart ''ai'' ''m'', TextDelta 0 ''Hi'']"
  by (simp add: run_eval interrupt_pair_def serialize_value_def messages_of_def lifecycle_def
      input_requested_def status_of_def)

end
