(* ===== verification/Registry.thy ===== *)
theory Registry
  imports PyValues "HOL-Library.Char_ord" "HOL-Library.List_Lexorder"
begin

text \<open>
  \<open>registry.py\<close>: named graph factories. A factory is host code: a function from the run's
  config to what calling it gives, an exception, a graph, or an awaitable whose result is
  awaited. An assistant id comes from a request body and may be any value; registered ids are
  strings.
\<close>

datatype 'g built = Graph 'g | Awaitable "exn + 'g"

type_synonym 'g graph_factory = "pyval \<Rightarrow> exn + 'g built"

type_synonym 'g registry = "(string, 'g graph_factory) pydict"

definition new_registry :: "(string, 'g graph_factory) pydict option \<Rightarrow> 'g registry" where
  "new_registry agents = (case agents of Some d \<Rightarrow> d | None \<Rightarrow> [])"

definition assistant_ids :: "'g registry \<Rightarrow> string list" where
  "assistant_ids reg = sort (dkeys reg)"

definition register :: "string \<Rightarrow> 'g graph_factory \<Rightarrow> 'g registry \<Rightarrow> 'g registry" where
  "register aid f reg = dset aid f reg"

definition unknown_assistant :: "pyval \<Rightarrow> string list \<Rightarrow> exn" where
  "unknown_assistant aid known =
     Exn ''UnknownAssistantError''
       (''unknown assistant_id '' @ py_repr aid @ '' (registered: '' @ join '', '' known @ '')'')"

text \<open>\<open>self._factories.get(assistant_id)\<close> raises on an unhashable key.\<close>

definition find_factory :: "'g registry \<Rightarrow> pyval \<Rightarrow> exn + 'g graph_factory option" where
  "find_factory reg aid =
     (if \<not> hashable aid then Inl (TypeError (''unhashable type: '' @ repr_str (py_type_name aid)))
      else Inr (case aid of PStr s \<Rightarrow> dget reg s | _ \<Rightarrow> None))"

definition resolve :: "'g registry \<Rightarrow> pyval \<Rightarrow> pyval \<Rightarrow> exn + 'g" where
  "resolve reg aid config =
     (case find_factory reg aid of
        Inl e \<Rightarrow> Inl e
      | Inr None \<Rightarrow> Inl (unknown_assistant aid (assistant_ids reg))
      | Inr (Some f) \<Rightarrow>
          (case f config of
             Inl e \<Rightarrow> Inl e
           | Inr (Graph g) \<Rightarrow> Inr g
           | Inr (Awaitable r) \<Rightarrow> r))"

lemma resolve_str:
  "resolve reg (PStr aid) config =
     (case dget reg aid of
        None \<Rightarrow> Inl (unknown_assistant (PStr aid) (assistant_ids reg))
      | Some f \<Rightarrow> (case f config of Inl e \<Rightarrow> Inl e | Inr (Graph g) \<Rightarrow> Inr g | Inr (Awaitable r) \<Rightarrow> r))"
  by (simp add: resolve_def find_factory_def split: option.split)

lemma resolve_not_str: "resolve reg aid config = Inr g \<Longrightarrow> \<exists>s. aid = PStr s \<and> dget reg s \<noteq> None"
  by (cases aid) (auto simp: resolve_def find_factory_def split: if_splits option.splits)

text \<open>Registration as an interface: what a lookup finds after a registration.\<close>

locale factory_table =
  fixes put :: "string \<Rightarrow> 'f \<Rightarrow> 't \<Rightarrow> 't"
    and find :: "'t \<Rightarrow> string \<Rightarrow> 'f option"
    and names :: "'t \<Rightarrow> string list"
    and inv :: "'t \<Rightarrow> bool"
  assumes put_inv: "inv t \<Longrightarrow> inv (put k f t)"
    and find_put: "find (put k f t) k' = (if k' = k then Some f else find t k')"
    and names_sorted: "inv t \<Longrightarrow> sorted_wrt (<) (names t)"
    and names_find: "inv t \<Longrightarrow> k \<in> set (names t) \<longleftrightarrow> find t k \<noteq> None"
begin

lemma names_put: "inv t \<Longrightarrow> set (names (put k f t)) = insert k (set (names t))"
  using names_find [of t] names_find [of "put k f t"] put_inv [of t k f]
  by (auto simp: find_put split: if_splits)

text \<open>The listing of a table is determined by the names put into it.\<close>

lemma names_determined: "inv t \<Longrightarrow> inv t' \<Longrightarrow> set (names t) = set (names t') \<Longrightarrow> names t = names t'"
  by (metis names_sorted strict_sorted_equal)

lemma names_override: "inv t \<Longrightarrow> find t k \<noteq> None \<Longrightarrow> names (put k f t) = names t"
  by (rule names_determined) (simp_all add: put_inv names_put names_find insert_absorb)

end

interpretation registry: factory_table register dget assistant_ids dict_wf
proof unfold_locales
  fix t :: "'g registry"
  assume "dict_wf t"
  then show "sorted_wrt (<) (assistant_ids t)"
    by (simp add: assistant_ids_def dict_wf_def strict_sorted_iff)
next
  fix t :: "'g registry" and k
  show "k \<in> set (assistant_ids t) \<longleftrightarrow> dget t k \<noteq> None"
    using dget_None_keys [of t k] by (auto simp: assistant_ids_def)
qed (simp_all add: register_def)

section \<open>Properties\<close>

text \<open>A registration takes effect at once and for its id only: resolving the id calls the new
  factory, every other id resolves as before (an unknown one fails, naming the known ids), and
  \<open>assistant_ids\<close> lists the registered ids in strictly increasing order.\<close>

theorem register_then_resolve:
  assumes "dict_wf reg"
  shows "resolve (register aid f reg) (PStr aid) config
           = (case f config of Inl e \<Rightarrow> Inl e | Inr (Graph g) \<Rightarrow> Inr g | Inr (Awaitable r) \<Rightarrow> r) \<and>
         (\<forall>k. k \<noteq> aid \<longrightarrow> dget reg k \<noteq> None \<longrightarrow>
            resolve (register aid f reg) (PStr k) config = resolve reg (PStr k) config) \<and>
         sorted_wrt (<) (assistant_ids (register aid f reg)) \<and>
         set (assistant_ids (register aid f reg)) = insert aid (set (assistant_ids reg))"
  using registry.names_sorted [OF registry.put_inv [OF assms, of aid f]]
    registry.names_put [OF assms, of aid f]
  by (simp add: resolve_str registry.find_put split: option.split)

theorem register_then_resolve_witness:
  "resolve (register ''b'' (\<lambda>_. Inr (Graph 2)) [(''a'', \<lambda>_. Inr (Graph (1::nat)))]) (PStr ''b'') PNone = Inr 2"
  using register_then_resolve [of "[(''a'', \<lambda>_. Inr (Graph (1::nat)))]" "''b''" "\<lambda>_. Inr (Graph 2)" PNone]
  by (simp add: dict_wf_def dkeys_def)

text \<open>Only registered names resolve; anything else raises \<open>UnknownAssistantError\<close>, or
  \<open>TypeError\<close> when the id is not hashable (a list or a dict of the request).\<close>

theorem resolve_unregistered:
  assumes "\<nexists>s. aid = PStr s \<and> dget reg s \<noteq> None"
  shows "resolve reg aid config =
     Inl (if hashable aid then unknown_assistant aid (assistant_ids reg)
          else TypeError (''unhashable type: '' @ repr_str (py_type_name aid)))"
  using assms by (cases aid) (auto simp: resolve_def find_factory_def split: option.split)

theorem resolve_unregistered_witness:
  "resolve [(''a'', \<lambda>_. Inr (Graph (1::nat)))] (PStr ''zz'') PNone
     = Inl (Exn ''UnknownAssistantError''
         (''unknown assistant_id '' @ [CHR 0x27] @ ''zz'' @ [CHR 0x27] @ '' (registered: a)''))"
  using resolve_unregistered [of "PStr ''zz''" "[(''a'', \<lambda>_. Inr (Graph (1::nat)))]" PNone]
  by (simp add: unknown_assistant_def assistant_ids_def dkeys_def repr_str_def repr_char_def printable_def Let_def)

end
