(* ===== verification/Hub.thy ===== *)
theory Hub
  imports PyValues
begin

text \<open>
  \<open>hub.py\<close>: the per-thread event hub. A hub stamps every published event with the next
  sequence number, retains the last \<open>replay_size\<close> events, and puts the event on the queue
  of every subscriber whose filter it passes. Subscriptions are mutable objects with
  identity: a hub keeps them in a store indexed by their address, and its subscriber set
  as the list of addresses in the order of iteration.
\<close>

section \<open>Events and subscriptions\<close>

definition DEFAULT_REPLAY_SIZE :: nat where
  "DEFAULT_REPLAY_SIZE = 500"

definition MAX_QUEUE :: nat where
  "MAX_QUEUE = 4096"

definition METHOD_CHANNELS :: "(string, string) pydict" where
  "METHOD_CHANNELS =
     [(''lifecycle'', ''lifecycle''), (''messages'', ''messages''), (''tools'', ''tools''),
      (''values'', ''values''), (''updates'', ''updates''), (''checkpoints'', ''checkpoints''),
      (''custom'', ''custom''), (''tasks'', ''tasks''), (''input.requested'', ''input'')]"

definition channel_for_method :: "string \<Rightarrow> string" where
  "channel_for_method m = (case dget METHOD_CHANNELS m of Some c \<Rightarrow> c | None \<Rightarrow> m)"

record envelope =
  e_id :: string
  e_seq :: int
  e_method :: string
  e_namespace :: "string list"
  e_timestamp :: int
  e_data :: pyval

text \<open>\<open>channels = None\<close>: all channels; no namespace prefix: all namespaces.\<close>

record subscription =
  s_queue :: "envelope list"
  s_channels :: "pyval list option"
  s_namespaces :: "pyval list list"
  s_last_seq :: int

text \<open>
  The channel test and the namespace loop of \<open>Subscription.matches\<close>. Request bodies are
  not type checked, so a channel or a prefix component may be any value; only a string
  equals the string it is compared with.
\<close>

definition channel_ok :: "pyval list option \<Rightarrow> envelope \<Rightarrow> bool" where
  "channel_ok chans e =
     (case chans of
        None \<Rightarrow> True
      | Some cs \<Rightarrow> cs = [] \<or> PStr (channel_for_method (e_method e)) \<in> set cs)"

fun some_prefix :: "pyval list list \<Rightarrow> pyval list \<Rightarrow> bool" where
  "some_prefix [] ns = False"
| "some_prefix (pre # rest) ns =
     (if pre \<noteq> []
      then (if take (length pre) ns = pre then True else some_prefix rest ns)
      else (if ns = [] then True else some_prefix rest ns))"

definition namespace_ok :: "pyval list list \<Rightarrow> envelope \<Rightarrow> bool" where
  "namespace_ok nss e =
     (if nss \<noteq> [] then some_prefix nss (map PStr (e_namespace e)) else True)"

definition matches :: "subscription \<Rightarrow> envelope \<Rightarrow> bool" where
  "matches s e =
     (if e_seq e \<le> s_last_seq s then False
      else if \<not> channel_ok (s_channels s) e then False
      else if \<not> namespace_ok (s_namespaces s) e then False
      else True)"

section \<open>The hub\<close>

record hub =
  h_replay_size :: nat
  h_seq :: int
  h_buffer :: "envelope list"
  h_subs :: "nat \<Rightarrow> subscription option"
  h_subscribers :: "nat list"
  h_next :: nat

definition new_hub :: "nat \<Rightarrow> hub" where
  "new_hub n =
     \<lparr>h_replay_size = n, h_seq = 0, h_buffer = [], h_subs = (\<lambda>_. None),
      h_subscribers = [], h_next = 0\<rparr>"

abbreviation current_seq :: "hub \<Rightarrow> int" where
  "current_seq \<equiv> h_seq"

text \<open>
  \<open>with contextlib.suppress(asyncio.QueueFull): subscriber.queue.put_nowait(envelope)\<close>:
  a full queue drops the event.
\<close>

definition put_nowait :: "envelope \<Rightarrow> subscription \<Rightarrow> subscription" where
  "put_nowait e s =
     (if length (s_queue s) < MAX_QUEUE then s\<lparr>s_queue := s_queue s @ [e]\<rparr> else s)"

definition deliver :: "envelope \<Rightarrow> subscription \<Rightarrow> subscription" where
  "deliver e s = (if \<not> matches s e then s else put_nowait e s)"

fun fan_out :: "envelope \<Rightarrow> nat list \<Rightarrow> (nat \<Rightarrow> subscription option) \<Rightarrow> (nat \<Rightarrow> subscription option)" where
  "fan_out e [] subs = subs"
| "fan_out e (i # is) subs =
     fan_out e is (case subs i of None \<Rightarrow> subs | Some s \<Rightarrow> subs(i := Some (deliver e s)))"

text \<open>
  \<open>publish\<close>: \<open>now\<close> is the clock (\<open>now_ms()\<close>), read when no timestamp is given; an empty
  \<open>event_id\<close> counts as absent.
\<close>

definition make_envelope ::
  "int \<Rightarrow> int \<Rightarrow> string \<Rightarrow> pyval \<Rightarrow> string list option \<Rightarrow> int option \<Rightarrow> string option \<Rightarrow> envelope" where
  "make_envelope now sq meth dat namespace timestamp event_id =
     (let ts = (case timestamp of Some t \<Rightarrow> t | None \<Rightarrow> now)
      in \<lparr>e_id = (case event_id of
                    Some i \<Rightarrow> if i \<noteq> [] then i else show_int ts @ ''-'' @ show_int sq
                  | None \<Rightarrow> show_int ts @ ''-'' @ show_int sq),
          e_seq = sq, e_method = meth,
          e_namespace = (case namespace of Some ns \<Rightarrow> ns | None \<Rightarrow> []),
          e_timestamp = ts, e_data = dat\<rparr>)"

definition publish ::
  "int \<Rightarrow> string \<Rightarrow> pyval \<Rightarrow> string list option \<Rightarrow> int option \<Rightarrow> string option \<Rightarrow> hub
     \<Rightarrow> envelope \<times> hub" where
  "publish now meth dat namespace timestamp event_id h =
     (let sq = h_seq h + 1;
          e = make_envelope now sq meth dat namespace timestamp event_id
      in (e, h\<lparr>h_seq := sq,
               h_buffer := push_bounded (h_replay_size h) (h_buffer h) e,
               h_subs := fan_out e (h_subscribers h) (h_subs h)\<rparr>))"

text \<open>
  \<open>subscribe\<close>: an empty channel list means all channels; \<open>frozenset(channels)\<close> raises on
  an unhashable element, before anything is registered.
\<close>

definition new_subscription ::
  "pyval list option \<Rightarrow> pyval list list option \<Rightarrow> int option \<Rightarrow> exn + subscription" where
  "new_subscription channels namespaces since =
     (let mk = (\<lambda>cs. \<lparr>s_queue = [], s_channels = cs,
                     s_namespaces = (case namespaces of Some ns \<Rightarrow> ns | None \<Rightarrow> []),
                     s_last_seq = max (case since of Some i \<Rightarrow> i | None \<Rightarrow> 0) 0\<rparr>)
      in case channels of
           None \<Rightarrow> Inr (mk None)
         | Some cs \<Rightarrow>
             if cs = [] then Inr (mk None)
             else if list_all hashable cs then Inr (mk (Some (remdups cs)))
             else Inl (TypeError ''unhashable type in channels''))"

definition subscribe ::
  "pyval list option \<Rightarrow> pyval list list option \<Rightarrow> int option \<Rightarrow> hub \<Rightarrow> exn + (nat \<times> hub)" where
  "subscribe channels namespaces since h =
     (case new_subscription channels namespaces since of
        Inl e \<Rightarrow> Inl e
      | Inr s \<Rightarrow>
          Inr (h_next h,
               h\<lparr>h_subs := (h_subs h)(h_next h \<mapsto> s),
                 h_subscribers := h_next h # h_subscribers h,
                 h_next := Suc (h_next h)\<rparr>))"

definition unsubscribe :: "nat \<Rightarrow> hub \<Rightarrow> hub" where
  "unsubscribe i h = h\<lparr>h_subscribers := removeAll i (h_subscribers h)\<rparr>"

text \<open>
  \<open>replay\<close>: the buffered events the subscription matches; the cursor moves to the last.
\<close>

definition replay_sub :: "envelope list \<Rightarrow> subscription \<Rightarrow> envelope list \<times> subscription" where
  "replay_sub buf s =
     (let matched = filter (matches s) buf
      in (matched, if matched \<noteq> [] then s\<lparr>s_last_seq := e_seq (last matched)\<rparr> else s))"

definition replay :: "nat \<Rightarrow> hub \<Rightarrow> envelope list \<times> hub" where
  "replay i h =
     (case h_subs h i of
        None \<Rightarrow> ([], h)
      | Some s \<Rightarrow> (case replay_sub (h_buffer h) s of
                     (es, s') \<Rightarrow> (es, h\<lparr>h_subs := (h_subs h)(i \<mapsto> s')\<rparr>)))"

section \<open>HubRegistry\<close>

record hub_registry =
  r_replay_size :: nat
  r_hubs :: "string \<Rightarrow> hub option"

definition new_hub_registry :: "nat \<Rightarrow> hub_registry" where
  "new_hub_registry n = \<lparr>r_replay_size = n, r_hubs = (\<lambda>_. None)\<rparr>"

definition hub_of :: "string \<Rightarrow> hub_registry \<Rightarrow> hub \<times> hub_registry" where
  "hub_of tid r =
     (case r_hubs r tid of
        Some h \<Rightarrow> (h, r)
      | None \<Rightarrow> (let h = new_hub (r_replay_size r) in (h, r\<lparr>r_hubs := (r_hubs r)(tid \<mapsto> h)\<rparr>)))"

definition drop_hub :: "string \<Rightarrow> hub_registry \<Rightarrow> hub_registry" where
  "drop_hub tid r = r\<lparr>r_hubs := (r_hubs r)(tid := None)\<rparr>"


text \<open>The code mutates the hub it got; the model writes the changed hub back.\<close>

definition put_hub :: "string \<Rightarrow> hub \<Rightarrow> hub_registry \<Rightarrow> hub_registry" where
  "put_hub tid h r = r\<lparr>r_hubs := (r_hubs r)(tid \<mapsto> h)\<rparr>"

section \<open>The filter\<close>

lemma some_prefix_iff:
  "some_prefix nss ns \<longleftrightarrow>
     (\<exists>pre \<in> set nss. (if pre = [] then ns = [] else \<exists>rest. ns = pre @ rest))"
proof (induction nss)
  case Nil
  then show ?case by simp
next
  case (Cons p nss)
  have "take (length p) ns = p \<longleftrightarrow> (\<exists>rest. ns = p @ rest)"
    by (metis append_eq_conv_conj append_take_drop_id)
  with Cons show ?case by (cases "p = []") (auto split: if_splits)
qed

lemma matches_iff:
  "matches s e \<longleftrightarrow>
     s_last_seq s < e_seq e \<and> channel_ok (s_channels s) e \<and> namespace_ok (s_namespaces s) e"
  by (auto simp: matches_def)

section \<open>The hub against its history\<close>

text \<open>
  \<open>hub_log log h\<close>: the hub after the events \<open>log\<close> were published on it. The sequence
  numbers are 1, 2, ... without a gap, the buffer holds the end of the log, and the
  subscriber set names allocated subscriptions only.
\<close>

definition numbered :: "envelope list \<Rightarrow> bool" where
  "numbered log = (map e_seq log = map int [1..<Suc (length log)])"

definition hub_log :: "envelope list \<Rightarrow> hub \<Rightarrow> bool" where
  "hub_log log h =
     (numbered log \<and> h_seq h = int (length log) \<and>
      h_buffer h = last_n (h_replay_size h) log \<and>
      distinct (h_subscribers h) \<and> (\<forall>i \<in> set (h_subscribers h). i < h_next h) \<and>
      (\<forall>i. h_subs h i \<noteq> None \<longleftrightarrow> i < h_next h))"

lemma numbered_Nil [simp]: "numbered []"
  by (simp add: numbered_def)

lemma numbered_snoc:
  "numbered (log @ [e]) \<longleftrightarrow> numbered log \<and> e_seq e = int (length log) + 1"
  by (auto simp: numbered_def)

lemma numbered_seq:
  assumes "numbered log" and "i < length log"
  shows "e_seq (log ! i) = int i + 1"
proof -
  have "map e_seq log ! i = map int [1..<Suc (length log)] ! i"
    using assms(1) by (simp only: numbered_def)
  with assms(2) show ?thesis by (simp del: upt_Suc)
qed

lemma numbered_bounds: "numbered log \<Longrightarrow> e \<in> set log \<Longrightarrow> 1 \<le> e_seq e \<and> e_seq e \<le> int (length log)"
  by (auto simp: in_set_conv_nth numbered_seq)

lemma numbered_incr: "numbered log \<Longrightarrow> incr e_seq log"
proof (induction log rule: rev_induct)
  case Nil
  then show ?case by simp
next
  case (snoc e log)
  then have "numbered log" and "e_seq e = int (length log) + 1" by (simp_all add: numbered_snoc)
  with snoc.IH show ?case by (auto simp: incr_append incr_Cons dest: numbered_bounds)
qed

lemma hub_log_new: "hub_log [] (new_hub n)"
  by (simp add: hub_log_def new_hub_def)

lemma fan_out_apply:
  "distinct is \<Longrightarrow>
   fan_out e is subs i = (if i \<in> set is then map_option (deliver e) (subs i) else subs i)"
  by (induction "is" arbitrary: subs) (auto split: option.splits)

lemma publish_seq [simp]: "e_seq (fst (publish now m d ns ts eid h)) = h_seq h + 1"
  by (simp add: publish_def make_envelope_def Let_def)

lemma publish_subs:
  "distinct (h_subscribers h) \<Longrightarrow>
   h_subs (snd (publish now m d ns ts eid h)) i =
     (if i \<in> set (h_subscribers h)
      then map_option (deliver (fst (publish now m d ns ts eid h))) (h_subs h i)
      else h_subs h i)"
  by (simp add: publish_def Let_def fan_out_apply)

lemma publish_frame [simp]:
  "h_subscribers (snd (publish now m d ns ts eid h)) = h_subscribers h"
  "h_next (snd (publish now m d ns ts eid h)) = h_next h"
  "h_replay_size (snd (publish now m d ns ts eid h)) = h_replay_size h"
  "h_seq (snd (publish now m d ns ts eid h)) = h_seq h + 1"
  "h_buffer (snd (publish now m d ns ts eid h)) =
     push_bounded (h_replay_size h) (h_buffer h) (fst (publish now m d ns ts eid h))"
  by (simp_all add: publish_def Let_def)

lemma hub_log_publish:
  assumes "hub_log log h"
  shows "hub_log (log @ [fst (publish now m d ns ts eid h)]) (snd (publish now m d ns ts eid h))"
  using assms
  by (simp add: hub_log_def numbered_snoc push_bounded_last_n publish_subs)

lemma hub_log_unsubscribe: "hub_log log h \<Longrightarrow> hub_log log (unsubscribe i h)"
  by (simp add: hub_log_def unsubscribe_def distinct_removeAll)

lemma hub_log_subscribe:
  "hub_log log h \<Longrightarrow> subscribe cs nss since h = Inr (i, h') \<Longrightarrow> hub_log log h'"
  by (fastforce simp: hub_log_def subscribe_def less_Suc_eq split: sum.splits if_splits)

lemma hub_log_update_sub:
  "hub_log log h \<Longrightarrow> h_subs h i = Some s \<Longrightarrow> hub_log log (h\<lparr>h_subs := (h_subs h)(i \<mapsto> s')\<rparr>)"
  by (auto simp: hub_log_def)

lemma hub_log_replay: "hub_log log h \<Longrightarrow> hub_log log (snd (replay i h))"
  by (auto simp: replay_def hub_log_update_sub split: option.splits prod.splits)

end
