(* ===== verification/Runner.thy ===== *)
theory Runner
  imports RunTask Registry Hub
begin

text \<open>
  The run manager of \<open>runner.py\<close>. Coroutines interleave at their awaits: \<open>start\<close> is cut at the
  await of graph resolution, a run at every await of its task. An event is one such stretch, of
  one coroutine; theorems hold for all sequences of events. \<open>ActiveRun\<close> objects are compared by
  identity: the reservation of a start and the run of a task are told apart by the address of
  the start and of the task.
\<close>

section \<open>State\<close>

datatype run_input = Input pyval | CommandResume pyval

text \<open>
  A resolved graph: what the read endpoints use, what \<open>astream\<close> does for an input and a config,
  and what \<open>aget_state\<close>, if the graph has it, answers when the stream has ended.
\<close>

record run_graph =
  rg_reads :: graph
  rg_stream :: "run_input \<Rightarrow> pyval \<Rightarrow> item list \<times> exn option"
  rg_getter :: "(pyval \<Rightarrow> exn + snapshot) option"

text \<open>\<open>ActiveRun.task\<close> is \<open>None\<close> for a reservation.\<close>

datatype owner = Reserved nat | Running nat

record active_run =
  a_run_id :: string
  a_thread_id :: string
  a_assistant :: pyval
  a_owner :: owner

text \<open>A start that awaits its graph; \<open>p_outcome\<close> is what the registry will answer.\<close>

record starting =
  p_thread :: string
  p_run_id :: string
  p_assistant :: pyval
  p_input :: run_input
  p_config :: "dict option"
  p_metadata :: pyval
  p_outcome :: "exn + run_graph"

record manager =
  m_registry :: "run_graph registry"
  m_hubs :: hub_registry
  m_active :: "string \<Rightarrow> active_run option"
  m_pending :: "string \<Rightarrow> dict option"
  m_last :: "string \<Rightarrow> pyval option"
  m_starts :: "nat \<Rightarrow> starting option"
  m_tasks :: "nat \<Rightarrow> task option"
  m_next :: nat

definition new_manager :: "run_graph registry \<Rightarrow> nat \<Rightarrow> manager" where
  "new_manager reg replay_size =
     \<lparr>m_registry = reg, m_hubs = new_hub_registry replay_size, m_active = (\<lambda>_. None),
      m_pending = (\<lambda>_. None), m_last = (\<lambda>_. None), m_starts = (\<lambda>_. None),
      m_tasks = (\<lambda>_. None), m_next = 0\<rparr>"

section \<open>start\<close>

definition task_done :: "manager \<Rightarrow> nat \<Rightarrow> bool" where
  "task_done m j = (case m_tasks m j of Some t \<Rightarrow> t_stage t = Settled | None \<Rightarrow> True)"

text \<open>The run that refuses a second start on the thread, if any.\<close>

definition busy_run :: "manager \<Rightarrow> string \<Rightarrow> active_run option" where
  "busy_run m tid =
     (case m_active m tid of
        None \<Rightarrow> None
      | Some a \<Rightarrow>
          (case a_owner a of
             Reserved i \<Rightarrow> Some a
           | Running j \<Rightarrow> if \<not> task_done m j then Some a else None))"

definition run_active_error :: "string \<Rightarrow> string \<Rightarrow> exn" where
  "run_active_error tid rid =
     Exn ''RunActiveError'' (''thread '' @ tid @ '' already has an active run ('' @ rid @ '')'')"

definition config_value :: "dict option \<Rightarrow> pyval" where
  "config_value config = (case config of Some d \<Rightarrow> PDict d | None \<Rightarrow> PNone)"

text \<open>\<open>start\<close> up to the await: check and reserve, and call the factory.\<close>

definition start_reserve ::
  "string \<Rightarrow> pyval \<Rightarrow> run_input \<Rightarrow> dict option \<Rightarrow> pyval \<Rightarrow> string \<Rightarrow> manager \<Rightarrow> exn + (nat \<times> manager)" where
  "start_reserve tid aid inp config metadata run_id m =
     (case busy_run m tid of
        Some a \<Rightarrow> Inl (run_active_error tid (a_run_id a))
      | None \<Rightarrow>
          (let i = m_next m
           in Inr (i, m\<lparr>m_active := (m_active m)(tid \<mapsto>
                          \<lparr>a_run_id = run_id, a_thread_id = tid, a_assistant = aid, a_owner = Reserved i\<rparr>),
                        m_starts := (m_starts m)(i \<mapsto>
                          \<lparr>p_thread = tid, p_run_id = run_id, p_assistant = aid, p_input = inp,
                           p_config = config, p_metadata = metadata,
                           p_outcome = resolve (m_registry m) aid (config_value config)\<rparr>),
                        m_next := Suc i\<rparr>)))"

text \<open>
  The config of the run. The unpacking of the client's \<open>configurable\<close> comes after the thread
  id; unpacking a value that is no mapping raises.
\<close>

definition base_config :: "string \<Rightarrow> dict option \<Rightarrow> exn + dict" where
  "base_config tid config =
     (let cfg = (case config of Some d \<Rightarrow> d | None \<Rightarrow> [])
      in case py_mapping (py_or (or_none (dget cfg ''configurable'')) (PDict [])) of
           Inl e \<Rightarrow> Inl e
         | Inr conf \<Rightarrow>
             Inr (dmerge [(''configurable'', PDict (dmerge [(''thread_id'', PStr tid)] conf))]
                    (filter (\<lambda>(k, v). k \<noteq> ''configurable'') cfg)))"

definition run_config :: "string \<Rightarrow> dict option \<Rightarrow> pyval \<Rightarrow> exn + dict" where
  "run_config tid config metadata =
     (case base_config tid config of
        Inl e \<Rightarrow> Inl e
      | Inr rc \<Rightarrow>
          if \<not> truthy metadata then Inr rc
          else (case py_mapping (case dget rc ''metadata'' of None \<Rightarrow> PDict [] | Some v \<Rightarrow> v) of
                  Inl e \<Rightarrow> Inl e
                | Inr old \<Rightarrow>
                    (case py_mapping metadata of
                       Inl e \<Rightarrow> Inl e
                     | Inr new \<Rightarrow> Inr (dset ''metadata'' (PDict (dmerge old new)) rc))))"

definition owned_by :: "manager \<Rightarrow> string \<Rightarrow> owner \<Rightarrow> bool" where
  "owned_by m tid w = (case m_active m tid of Some a \<Rightarrow> a_owner a = w | None \<Rightarrow> False)"

text \<open>
  \<open>start\<close> after the await. Only the resolution is inside the \<open>try\<close>; the run config is built
  after it.
\<close>

definition start_finish :: "nat \<Rightarrow> starting \<Rightarrow> manager \<Rightarrow> (exn + string) \<times> manager" where
  "start_finish i p m =
     (let tid = p_thread p; m0 = m\<lparr>m_starts := (m_starts m)(i := None)\<rparr>
      in case p_outcome p of
           Inl e \<Rightarrow>
             (Inl e, if owned_by m tid (Reserved i) then m0\<lparr>m_active := (m_active m)(tid := None)\<rparr> else m0)
         | Inr g \<Rightarrow>
             (case run_config tid (p_config p) (p_metadata p) of
                Inl e \<Rightarrow> (Inl e, m0)
              | Inr rc \<Rightarrow>
                  (let j = m_next m;
                       getter = map_option (\<lambda>f. f (PDict rc)) (rg_getter g)
                   in (Inr (p_run_id p),
                       m0\<lparr>m_pending := (m_pending m)(tid := None),
                          m_tasks := (m_tasks m)(j \<mapsto>
                            new_task tid (p_run_id p) (p_assistant p) (rg_stream g (p_input p) (PDict rc)) getter),
                          m_last := (m_last m)(tid \<mapsto> p_assistant p),
                          m_active := (m_active m)(tid \<mapsto>
                            \<lparr>a_run_id = p_run_id p, a_thread_id = tid, a_assistant = p_assistant p,
                             a_owner = Running j\<rparr>),
                          m_next := Suc j\<rparr>))))"

text \<open>\<open>CancelledError\<close> at the await is no \<open>Exception\<close>: the reservation is not released.\<close>

definition start_cancelled :: "nat \<Rightarrow> manager \<Rightarrow> manager" where
  "start_cancelled i m = m\<lparr>m_starts := (m_starts m)(i := None)\<rparr>"

section \<open>respond, cancel, wait and the lookups\<close>

definition unknown_interrupt :: "string \<Rightarrow> string \<Rightarrow> exn" where
  "unknown_interrupt tid iid =
     Exn ''UnknownInterruptError'' (''thread '' @ tid @ '' has no pending interrupt '' @ iid)"

definition respond_assistant :: "string \<Rightarrow> string \<Rightarrow> pyval \<Rightarrow> manager \<Rightarrow> exn + pyval" where
  "respond_assistant tid iid aid m =
     (case m_pending m tid of
        Some pending \<Rightarrow>
          if dget pending iid \<noteq> None
          then Inr (py_or (py_or aid (or_none (dget pending ''assistant_id''))) (PStr []))
          else Inl (unknown_interrupt tid iid)
      | None \<Rightarrow> if truthy aid then Inr aid else Inl (unknown_interrupt tid iid))"

definition respond_reserve ::
  "string \<Rightarrow> string \<Rightarrow> pyval \<Rightarrow> pyval \<Rightarrow> string \<Rightarrow> manager \<Rightarrow> exn + (nat \<times> manager)" where
  "respond_reserve tid iid response aid run_id m =
     (case respond_assistant tid iid aid m of
        Inl e \<Rightarrow> Inl e
      | Inr a \<Rightarrow> start_reserve tid a (CommandResume response) None PNone run_id m)"

definition cancel :: "string \<Rightarrow> pyval \<Rightarrow> manager \<Rightarrow> bool \<times> manager" where
  "cancel tid run_id m =
     (case m_active m tid of
        None \<Rightarrow> (False, m)
      | Some a \<Rightarrow>
          (case a_owner a of
             Reserved i \<Rightarrow> (False, m)
           | Running j \<Rightarrow>
               if run_id \<noteq> PNone \<and> PStr (a_run_id a) \<noteq> run_id then (False, m)
               else (True, m\<lparr>m_tasks := (m_tasks m)(j := map_option request_cancel (m_tasks m j))\<rparr>)))"

text \<open>\<open>wait\<close>: what it waits for, and what it raises when that is over or it is cancelled itself.\<close>

definition wait_target :: "string \<Rightarrow> manager \<Rightarrow> nat option" where
  "wait_target tid m =
     (case m_active m tid of
        None \<Rightarrow> None
      | Some a \<Rightarrow> (case a_owner a of Reserved i \<Rightarrow> None | Running j \<Rightarrow> Some j))"

datatype awaited = TaskSettled outcome | WaiterCancelled

fun wait_result :: "awaited \<Rightarrow> exn option" where
  "wait_result (TaskSettled Returned) = None"
| "wait_result (TaskSettled Cancelled) = None"
| "wait_result (TaskSettled (Raised e)) = None"
| "wait_result WaiterCancelled = Some (Exn ''CancelledError'' [])"

definition pending_interrupts :: "string \<Rightarrow> manager \<Rightarrow> dict" where
  "pending_interrupts tid m = (case m_pending m tid of Some d \<Rightarrow> d | None \<Rightarrow> [])"

abbreviation last_assistant :: "string \<Rightarrow> manager \<Rightarrow> pyval option" where
  "last_assistant tid m \<equiv> m_last m tid"

abbreviation active_run_of :: "string \<Rightarrow> manager \<Rightarrow> active_run option" where
  "active_run_of tid m \<equiv> m_active m tid"

section \<open>Tasks\<close>

text \<open>The publications of one stretch, in order; \<open>ts\<close> are the readings of the clock.\<close>

fun publish_all :: "(nat \<Rightarrow> int) \<Rightarrow> string \<Rightarrow> emission list \<Rightarrow> hub_registry \<Rightarrow> hub_registry" where
  "publish_all ts tid [] r = r"
| "publish_all ts tid (e # out) r =
     (let (h, r1) = hub_of tid r;
          (env, h') = publish (ts 0) (fst e) (snd e) None None None h
      in publish_all (\<lambda>k. ts (Suc k)) tid out (put_hub tid h' r1))"

definition task_step :: "(pyval \<Rightarrow> exn + pyval) \<Rightarrow> nat \<Rightarrow> (nat \<Rightarrow> int) \<Rightarrow> manager \<Rightarrow> manager" where
  "task_step message_to_dict j ts m =
     (case m_tasks m j of
        None \<Rightarrow> m
      | Some t \<Rightarrow>
          (case exec_step message_to_dict t of
             (out, pending, t') \<Rightarrow>
               m\<lparr>m_tasks := (m_tasks m)(j \<mapsto> t'),
                 m_pending := (case pending of
                                 None \<Rightarrow> m_pending m | Some d \<Rightarrow> (m_pending m)(t_thread t \<mapsto> d)),
                 m_hubs := publish_all ts (t_thread t) out (m_hubs m)\<rparr>))"

text \<open>The done callback \<open>_clear\<close>, which runs after its task is done.\<close>

definition task_callback :: "nat \<Rightarrow> manager \<Rightarrow> manager" where
  "task_callback j m =
     (case m_tasks m j of
        None \<Rightarrow> m
      | Some t \<Rightarrow>
          if t_stage t = Settled \<and> owned_by m (t_thread t) (Running j)
          then m\<lparr>m_active := (m_active m)(t_thread t := None)\<rparr> else m)"

section \<open>The system\<close>

datatype run_event =
    StartCall string pyval run_input "dict option" pyval string
  | RespondCall string string pyval pyval string
  | StartDone nat
  | StartCancelled nat
  | TaskStep nat "nat \<Rightarrow> int"
  | TaskCallback nat
  | CancelCall string pyval
  | RegisterCall string "run_graph graph_factory"

fun run_step :: "(pyval \<Rightarrow> exn + pyval) \<Rightarrow> manager \<Rightarrow> run_event \<Rightarrow> manager" where
  "run_step mtd m (StartCall tid aid inp config metadata rid) =
     (case start_reserve tid aid inp config metadata rid m of Inl e \<Rightarrow> m | Inr (i, m') \<Rightarrow> m')"
| "run_step mtd m (RespondCall tid iid response aid rid) =
     (case respond_reserve tid iid response aid rid m of Inl e \<Rightarrow> m | Inr (i, m') \<Rightarrow> m')"
| "run_step mtd m (StartDone i) =
     (case m_starts m i of None \<Rightarrow> m | Some p \<Rightarrow> snd (start_finish i p m))"
| "run_step mtd m (StartCancelled i) = start_cancelled i m"
| "run_step mtd m (TaskStep j ts) = task_step mtd j ts m"
| "run_step mtd m (TaskCallback j) = task_callback j m"
| "run_step mtd m (CancelCall tid rid) = snd (cancel tid rid m)"
| "run_step mtd m (RegisterCall aid f) = m\<lparr>m_registry := register aid f (m_registry m)\<rparr>"

section \<open>The slot invariant\<close>

text \<open>
  Whoever may still act on a thread (a start that awaits its graph, a task that is not done)
  owns the thread's slot.
\<close>

definition start_inv :: "manager \<Rightarrow> nat \<Rightarrow> starting \<Rightarrow> bool" where
  "start_inv m i p = (i < m_next m \<and>
     (\<exists>a. m_active m (p_thread p) = Some a \<and> a_owner a = Reserved i \<and> a_run_id a = p_run_id p))"

definition task_inv :: "manager \<Rightarrow> nat \<Rightarrow> task \<Rightarrow> bool" where
  "task_inv m j t = (j < m_next m \<and>
     (t_stage t \<noteq> Settled \<longrightarrow>
        (\<exists>a. m_active m (t_thread t) = Some a \<and> a_owner a = Running j \<and> a_run_id a = t_run_id t)))"

definition slot_inv :: "manager \<Rightarrow> string \<Rightarrow> active_run \<Rightarrow> bool" where
  "slot_inv m tid a =
     (a_thread_id a = tid \<and>
      (case a_owner a of
         Reserved i \<Rightarrow> i < m_next m \<and> (\<forall>p. m_starts m i = Some p \<longrightarrow> p_thread p = tid)
       | Running j \<Rightarrow> (\<exists>t. m_tasks m j = Some t \<and> t_thread t = tid \<and> t_run_id t = a_run_id a)))"

definition run_inv :: "manager \<Rightarrow> bool" where
  "run_inv m =
     ((\<forall>i p. m_starts m i = Some p \<longrightarrow> start_inv m i p) \<and>
      (\<forall>j t. m_tasks m j = Some t \<longrightarrow> task_inv m j t) \<and>
      (\<forall>tid a. m_active m tid = Some a \<longrightarrow> slot_inv m tid a))"

lemma run_invI:
  "(\<And>i p. m_starts m i = Some p \<Longrightarrow> start_inv m i p) \<Longrightarrow>
   (\<And>j t. m_tasks m j = Some t \<Longrightarrow> task_inv m j t) \<Longrightarrow>
   (\<And>tid a. m_active m tid = Some a \<Longrightarrow> slot_inv m tid a) \<Longrightarrow> run_inv m"
  by (simp add: run_inv_def)

lemma run_invD:
  "run_inv m \<Longrightarrow> m_starts m i = Some p \<Longrightarrow> start_inv m i p"
  "run_inv m \<Longrightarrow> m_tasks m j = Some t \<Longrightarrow> task_inv m j t"
  "run_inv m \<Longrightarrow> m_active m tid = Some a \<Longrightarrow> slot_inv m tid a"
  by (simp_all add: run_inv_def)

lemma run_inv_new: "run_inv (new_manager reg n)"
  by (simp add: run_inv_def new_manager_def)

text \<open>A slot that is not busy is owned by no start and no task that can still act.\<close>

lemma owned_by_iff: "owned_by m tid w \<longleftrightarrow> (\<exists>a. m_active m tid = Some a \<and> a_owner a = w)"
  by (auto simp: owned_by_def split: option.splits)

lemma start_slot:
  "run_inv m \<Longrightarrow> m_starts m i = Some p \<Longrightarrow> owned_by m (p_thread p) (Reserved i)"
  by (drule (1) run_invD(1)) (auto simp: start_inv_def owned_by_iff)

lemma task_slot:
  "run_inv m \<Longrightarrow> m_tasks m j = Some t \<Longrightarrow> t_stage t \<noteq> Settled \<Longrightarrow> owned_by m (t_thread t) (Running j)"
  by (drule (1) run_invD(2)) (auto simp: task_inv_def owned_by_iff)

lemma not_busy_start:
  "run_inv m \<Longrightarrow> busy_run m tid = None \<Longrightarrow> m_starts m i = Some p \<Longrightarrow> p_thread p \<noteq> tid"
  by (drule (1) start_slot) (auto simp: busy_run_def owned_by_iff)

lemma not_busy_task:
  "run_inv m \<Longrightarrow> busy_run m tid = None \<Longrightarrow> m_tasks m j = Some t \<Longrightarrow> t_stage t \<noteq> Settled \<Longrightarrow>
   t_thread t \<noteq> tid"
  using task_slot [of m j t] by (auto simp: busy_run_def owned_by_iff task_done_def split: if_splits)

lemma start_reserve_inv:
  assumes inv: "run_inv m" and s: "start_reserve tid aid inp config metadata rid m = Inr (i, m')"
  shows "run_inv m'"
proof -
  have b: "busy_run m tid = None" using s by (simp add: start_reserve_def split: option.splits)
  let ?a = "\<lparr>a_run_id = rid, a_thread_id = tid, a_assistant = aid, a_owner = Reserved (m_next m)\<rparr>"
  let ?p = "\<lparr>p_thread = tid, p_run_id = rid, p_assistant = aid, p_input = inp, p_config = config,
             p_metadata = metadata, p_outcome = resolve (m_registry m) aid (config_value config)\<rparr>"
  have m': "m_active m' = (m_active m)(tid \<mapsto> ?a)" "m_starts m' = (m_starts m)(m_next m \<mapsto> ?p)"
    "m_tasks m' = m_tasks m" "m_next m' = Suc (m_next m)"
    using s b by (auto simp: start_reserve_def Let_def)
  show ?thesis
  proof (rule run_invI)
    fix k q
    assume q: "m_starts m' k = Some q"
    show "start_inv m' k q"
    proof (cases "k = m_next m")
      case True
      with q show ?thesis by (auto simp: start_inv_def m')
    next
      case False
      with q have old: "m_starts m k = Some q" by (simp add: m')
      show ?thesis using run_invD(1) [OF inv old] not_busy_start [OF inv b old]
        by (auto simp: start_inv_def m')
    qed
  next
    fix j t
    assume "m_tasks m' j = Some t"
    then have old: "m_tasks m j = Some t" by (simp add: m')
    show "task_inv m' j t" using run_invD(2) [OF inv old] not_busy_task [OF inv b old]
      by (auto simp: task_inv_def m')
  next
    fix k a
    assume a: "m_active m' k = Some a"
    show "slot_inv m' k a"
    proof (cases "k = tid")
      case True
      with a show ?thesis by (auto simp: slot_inv_def m')
    next
      case False
      with a run_invD(3) [OF inv, of k a] have "slot_inv m k a" by (simp add: m')
      then show ?thesis by (auto simp: slot_inv_def m' split: owner.splits)
    qed
  qed
qed

text \<open>Ending a start that does not get a task.\<close>

lemma drop_start_inv:
  assumes inv: "run_inv m"
  shows "run_inv (m\<lparr>m_starts := (m_starts m)(i := None)\<rparr>)"
proof -
  have "slot_inv (m\<lparr>m_starts := (m_starts m)(i := None)\<rparr>) tid a" if "slot_inv m tid a" for tid a
    using that by (auto simp: slot_inv_def split: owner.splits)
  with inv show ?thesis by (simp add: run_inv_def start_inv_def task_inv_def)
qed

text \<open>Clearing a slot that no start and no unsettled task owns.\<close>

lemma clear_slot_inv:
  assumes inv: "run_inv m"
    and "\<forall>i p. m_starts m i = Some p \<longrightarrow> p_thread p \<noteq> tid"
    and "\<forall>j t. m_tasks m j = Some t \<longrightarrow> t_stage t \<noteq> Settled \<longrightarrow> t_thread t \<noteq> tid"
  shows "run_inv (m\<lparr>m_active := (m_active m)(tid := None)\<rparr>)"
proof -
  have "slot_inv (m\<lparr>m_active := (m_active m)(tid := None)\<rparr>) k a" if "slot_inv m k a" for k a
    using that by (simp add: slot_inv_def split: owner.splits)
  with assms show ?thesis by (auto simp: run_inv_def start_inv_def task_inv_def)
qed

lemma owned_by_unique: "owned_by m tid v \<Longrightarrow> owned_by m tid w \<Longrightarrow> v = w"
  by (auto simp: owned_by_iff)

text \<open>The coroutines that can still act on a thread.\<close>

definition occupants :: "manager \<Rightarrow> string \<Rightarrow> owner set" where
  "occupants m tid =
     {Reserved i | i p. m_starts m i = Some p \<and> p_thread p = tid} \<union>
     {Running j | j t. m_tasks m j = Some t \<and> t_thread t = tid \<and> t_stage t \<noteq> Settled}"

lemma occupants_own: "run_inv m \<Longrightarrow> w \<in> occupants m tid \<Longrightarrow> owned_by m tid w"
  by (auto simp: occupants_def dest: start_slot task_slot)

lemma occupant_unique: "run_inv m \<Longrightarrow> v \<in> occupants m tid \<Longrightarrow> w \<in> occupants m tid \<Longrightarrow> v = w"
  using occupants_own owned_by_unique by blast

lemma start_occupies: "m_starts m i = Some p \<Longrightarrow> Reserved i \<in> occupants m (p_thread p)"
  by (auto simp: occupants_def)

lemma task_occupies:
  "m_tasks m j = Some t \<Longrightarrow> t_stage t \<noteq> Settled \<Longrightarrow> Running j \<in> occupants m (t_thread t)"
  by (auto simp: occupants_def)

text \<open>The steps.\<close>

lemma only_start:
  assumes inv: "run_inv m" and p: "m_starts m i = Some p"
  shows "m_starts m k = Some q \<Longrightarrow> k \<noteq> i \<Longrightarrow> p_thread q \<noteq> p_thread p"
    and "m_tasks m j = Some t \<Longrightarrow> t_stage t \<noteq> Settled \<Longrightarrow> t_thread t \<noteq> p_thread p"
proof -
  have only: "w = Reserved i" if "w \<in> occupants m (p_thread p)" for w
    using occupant_unique [OF inv that start_occupies [OF p]] .
  show "m_starts m k = Some q \<Longrightarrow> k \<noteq> i \<Longrightarrow> p_thread q \<noteq> p_thread p"
    using only [of "Reserved k"] start_occupies [of m k q] by auto
  show "m_tasks m j = Some t \<Longrightarrow> t_stage t \<noteq> Settled \<Longrightarrow> t_thread t \<noteq> p_thread p"
    using only [of "Running j"] task_occupies [of m j t] by auto
qed

text \<open>A start that gets its task.\<close>

lemma activate_inv:
  assumes inv: "run_inv m" and p: "m_starts m i = Some p"
    and t: "t_thread t = p_thread p" "t_run_id t = p_run_id p"
    and m': "m_active m' = (m_active m)(p_thread p \<mapsto>
        \<lparr>a_run_id = p_run_id p, a_thread_id = p_thread p, a_assistant = aid, a_owner = Running (m_next m)\<rparr>)"
      "m_starts m' = (m_starts m)(i := None)" "m_tasks m' = (m_tasks m)(m_next m \<mapsto> t)" "m_next m' = Suc (m_next m)"
  shows "run_inv m'"
proof (rule run_invI)
  show "start_inv m' k q" if "m_starts m' k = Some q" for k q
    using that only_start(1) [OF inv p, of k q] run_invD(1) [OF inv, of k q]
    by (auto simp: start_inv_def m' split: if_splits)
  show "task_inv m' j u" if "m_tasks m' j = Some u" for j u
    using that only_start(2) [OF inv p, of j u] run_invD(2) [OF inv, of j u] t
    by (auto simp: task_inv_def m' split: if_splits)
  show "slot_inv m' k a" if "m_active m' k = Some a" for k a
  proof (cases "k = p_thread p")
    case True
    with that t show ?thesis by (auto simp: slot_inv_def m')
  next
    case False
    with that run_invD(3) [OF inv, of k a] have "slot_inv m k a" by (simp add: m')
    moreover have "m_tasks m j = Some u \<Longrightarrow> j \<noteq> m_next m" for j u
      using run_invD(2) [OF inv, of j u] by (auto simp: task_inv_def)
    ultimately show ?thesis by (auto simp: slot_inv_def m' split: owner.splits)
  qed
qed

lemma start_finish_inv:
  assumes inv: "run_inv m" and p: "m_starts m i = Some p"
  shows "run_inv (snd (start_finish i p m))"
proof -
  let ?m0 = "m\<lparr>m_starts := (m_starts m)(i := None)\<rparr>"
  have inv0: "run_inv ?m0" using inv by (rule drop_start_inv)
  show ?thesis
  proof (cases "p_outcome p")
    case (Inl e)
    have "run_inv (?m0\<lparr>m_active := (m_active ?m0)(p_thread p := None)\<rparr>)"
      by (rule clear_slot_inv [OF inv0]) (use only_start [OF inv p] in \<open>auto split: if_splits\<close>)
    with Inl inv0 show ?thesis by (simp add: start_finish_def Let_def)
  next
    case g: (Inr g)
    show ?thesis
    proof (cases "run_config (p_thread p) (p_config p) (p_metadata p)")
      case (Inl e)
      with g inv0 show ?thesis by (simp add: start_finish_def Let_def)
    next
      case (Inr rc)
      show ?thesis
        by (rule activate_inv [OF inv p, of "new_task (p_thread p) (p_run_id p) (p_assistant p)
              (rg_stream g (p_input p) (PDict rc)) (map_option (\<lambda>f. f (PDict rc)) (rg_getter g))"])
           (simp_all add: g Inr start_finish_def Let_def new_task_def)
    qed
  qed
qed

text \<open>A change of one task that keeps its identity and does not wake it up.\<close>

lemma update_task_inv:
  assumes inv: "run_inv m" and t: "m_tasks m j = Some t"
    and t': "t_thread t' = t_thread t" "t_run_id t' = t_run_id t"
      "t_stage t = Settled \<longrightarrow> t_stage t' = Settled"
  shows "run_inv (m\<lparr>m_tasks := (m_tasks m)(j \<mapsto> t')\<rparr>)"
proof -
  have "slot_inv (m\<lparr>m_tasks := (m_tasks m)(j \<mapsto> t')\<rparr>) k a" if "slot_inv m k a" for k a
    using that t t' by (auto simp: slot_inv_def split: owner.splits)
  moreover have "task_inv m j t" using inv t by (simp add: run_inv_def)
  then have "task_inv (m\<lparr>m_tasks := (m_tasks m)(j \<mapsto> t')\<rparr>) j t'"
    using t' by (auto simp: task_inv_def)
  ultimately show ?thesis using inv by (auto simp: run_inv_def start_inv_def task_inv_def)
qed

lemma run_inv_frame:
  "m_starts m' = m_starts m \<Longrightarrow> m_tasks m' = m_tasks m \<Longrightarrow> m_active m' = m_active m \<Longrightarrow>
   m_next m' = m_next m \<Longrightarrow> run_inv m \<Longrightarrow> run_inv m'"
  by (simp add: run_inv_def start_inv_def task_inv_def slot_inv_def cong: owner.case_cong)

lemma fail_task_ids:
  "fail_task e t = (out, t') \<Longrightarrow> t_thread t' = t_thread t \<and> t_run_id t' = t_run_id t"
  by (auto simp: fail_task_def settle_def split: prod.splits option.splits)

lemma cancel_task_ids:
  "cancel_task t = (out, t') \<Longrightarrow> t_thread t' = t_thread t \<and> t_run_id t' = t_run_id t"
  by (auto simp: cancel_task_def settle_def split: prod.splits option.splits)

lemma take_item_ids:
  "take_item mtd it t = (out, t') \<Longrightarrow> t_thread t' = t_thread t \<and> t_run_id t' = t_run_id t"
  by (auto simp: take_item_def dest: fail_task_ids
      split: item.splits prod.splits option.splits sum.splits)

lemma conclude_ids:
  "conclude vs t = (out, p, t') \<Longrightarrow> t_thread t' = t_thread t \<and> t_run_id t' = t_run_id t"
  by (auto simp: conclude_def settle_def dest: fail_task_ids
      split: sum.splits prod.splits option.splits if_splits)

lemma exec_step_ids:
  assumes "exec_step mtd t = (out, p, t')"
  shows "t_thread t' = t_thread t \<and> t_run_id t' = t_run_id t"
  using assms
  by (auto simp: exec_step_def settle_def
      dest: fail_task_ids cancel_task_ids conclude_ids take_item_ids
      split: stage.splits if_splits list.splits option.splits sum.splits prod.splits)

lemma task_step_inv:
  assumes inv: "run_inv m"
  shows "run_inv (task_step mtd j ts m)"
proof (cases "m_tasks m j")
  case None
  with inv show ?thesis by (simp add: task_step_def)
next
  case (Some t)
  obtain out pd t' where e: "exec_step mtd t = (out, pd, t')" by (metis prod_cases3)
  have "t_stage t = Settled \<longrightarrow> t_stage t' = Settled" using e by (auto simp: exec_step_def)
  with update_task_inv [OF inv Some] exec_step_ids [OF e]
  have "run_inv (m\<lparr>m_tasks := (m_tasks m)(j \<mapsto> t')\<rparr>)" by simp
  then show ?thesis by (rule run_inv_frame [rotated 4]) (simp_all add: task_step_def Some e)
qed

lemma cancel_inv:
  assumes inv: "run_inv m"
  shows "run_inv (snd (cancel tid rid m))"
proof -
  have "run_inv (m\<lparr>m_tasks := (m_tasks m)(j := map_option request_cancel (m_tasks m j))\<rparr>)" for j
  proof (cases "m_tasks m j")
    case None
    then show ?thesis using inv by (simp add: fun_upd_idem)
  next
    case (Some t)
    with update_task_inv [OF inv Some, of "request_cancel t"] show ?thesis by simp
  qed
  with inv show ?thesis by (simp add: cancel_def split: option.split owner.split)
qed

lemma task_callback_inv:
  assumes inv: "run_inv m"
  shows "run_inv (task_callback j m)"
proof (cases "\<exists>t. m_tasks m j = Some t \<and> t_stage t = Settled \<and> owned_by m (t_thread t) (Running j)")
  case False
  with inv show ?thesis by (auto simp: task_callback_def split: option.split)
next
  case True
  then obtain t where t: "m_tasks m j = Some t" "t_stage t = Settled" "owned_by m (t_thread t) (Running j)"
    by blast
  have "p_thread p \<noteq> t_thread t" if "m_starts m i = Some p" for i p
    using owned_by_unique [of m "t_thread t" "Running j" "Reserved i"] start_slot [OF inv that] t(3) by auto
  moreover have "t_thread u \<noteq> t_thread t" if "m_tasks m k = Some u" "t_stage u \<noteq> Settled" for k u
    using owned_by_unique [of m "t_thread t" "Running j" "Running k"] task_slot [OF inv that] t that by auto
  ultimately have "run_inv (m\<lparr>m_active := (m_active m)(t_thread t := None)\<rparr>)"
    using clear_slot_inv [OF inv] by blast
  with t show ?thesis by (simp add: task_callback_def)
qed

lemma run_inv_step: "run_inv m \<Longrightarrow> run_inv (run_step mtd m ev)"
proof (cases ev)
  case (StartCall tid aid inp config metadata rid)
  then show "run_inv m \<Longrightarrow> ?thesis"
    by (auto dest: start_reserve_inv split: sum.split)
next
  case (RespondCall tid iid response aid rid)
  then show "run_inv m \<Longrightarrow> ?thesis"
    by (auto simp: respond_reserve_def dest: start_reserve_inv split: sum.split)
next
  case (StartDone i)
  then show "run_inv m \<Longrightarrow> ?thesis" by (auto intro: start_finish_inv split: option.split)
next
  case (RegisterCall aid f)
  then show "run_inv m \<Longrightarrow> ?thesis"
    by (auto intro: run_inv_frame [rotated 4])
qed (auto simp: start_cancelled_def intro: drop_start_inv task_step_inv task_callback_inv cancel_inv)

interpretation runs: event_system "run_step mtd" run_inv for mtd
  by unfold_locales (rule run_inv_step)

abbreviation runs_from :: "(pyval \<Rightarrow> exn + pyval) \<Rightarrow> manager \<Rightarrow> run_event list \<Rightarrow> manager" where
  "runs_from mtd m evs \<equiv> foldl (run_step mtd) m evs"

definition reached :: "(pyval \<Rightarrow> exn + pyval) \<Rightarrow> run_graph registry \<Rightarrow> nat \<Rightarrow> run_event list \<Rightarrow> manager" where
  "reached mtd reg n evs = runs_from mtd (new_manager reg n) evs"

lemma reached_inv: "run_inv (reached mtd reg n evs)"
  unfolding reached_def by (rule runs.inv_run [OF run_inv_new])

lemma not_busy_empty: "run_inv m \<Longrightarrow> busy_run m tid = None \<Longrightarrow> occupants m tid = {}"
  by (auto simp: occupants_def dest: not_busy_start not_busy_task)

section \<open>A reservation that is never released\<close>

definition stuck_inv :: "string \<Rightarrow> nat \<Rightarrow> manager \<Rightarrow> bool" where
  "stuck_inv tid i m = (run_inv m \<and> owned_by m tid (Reserved i) \<and> m_starts m i = None \<and> i < m_next m)"

lemma stuck_busy: "stuck_inv tid i m \<Longrightarrow> busy_run m tid \<noteq> None"
  by (auto simp: stuck_inv_def owned_by_iff busy_run_def)

lemma owned_by_frame: "m_active m' tid = m_active m tid \<Longrightarrow> owned_by m' tid w = owned_by m tid w"
  by (simp add: owned_by_def)

lemma start_reserve_stuck:
  assumes st: "stuck_inv tid i m" and s: "start_reserve k aid inp config metadata rid m = Inr (i', m')"
  shows "stuck_inv tid i m'"
proof -
  have "busy_run m k = None" using s by (simp add: start_reserve_def split: option.splits)
  with stuck_busy [OF st] have "k \<noteq> tid" by auto
  with s have "m_active m' tid = m_active m tid" "m_starts m' = (m_starts m)(m_next m := m_starts m' (m_next m))"
    "m_next m' = Suc (m_next m)"
    by (auto simp: start_reserve_def Let_def split: option.splits)
  moreover have "run_inv m'" using st start_reserve_inv [OF _ s] by (simp add: stuck_inv_def)
  ultimately show ?thesis using st owned_by_frame [of m' tid m]
    by (simp add: stuck_inv_def) (metis fun_upd_apply less_irrefl)
qed

lemma start_finish_stuck:
  assumes st: "stuck_inv tid i m" and p: "m_starts m k = Some p"
  shows "stuck_inv tid i (snd (start_finish k p m))"
proof -
  have k: "k \<noteq> i" "p_thread p \<noteq> tid"
    using st p start_slot [of m k p] owned_by_unique [of m tid "Reserved i" "Reserved k"]
    by (auto simp: stuck_inv_def)
  then have "m_active (snd (start_finish k p m)) tid = m_active m tid"
    "m_starts (snd (start_finish k p m)) i = None" "m_next m \<le> m_next (snd (start_finish k p m))"
    using st by (auto simp: start_finish_def Let_def stuck_inv_def split: sum.split)
  moreover have "run_inv (snd (start_finish k p m))"
    using st p by (simp add: stuck_inv_def start_finish_inv)
  ultimately show ?thesis using st owned_by_frame [of "snd (start_finish k p m)" tid m]
    by (simp add: stuck_inv_def)
qed

lemma task_callback_stuck:
  assumes st: "stuck_inv tid i m"
  shows "stuck_inv tid i (task_callback j m)"
proof -
  have "m_active (task_callback j m) tid = m_active m tid"
    using st by (auto simp: task_callback_def stuck_inv_def owned_by_iff split: option.split)
  moreover have "m_starts (task_callback j m) = m_starts m" "m_next (task_callback j m) = m_next m"
    by (auto simp: task_callback_def split: option.split)
  ultimately show ?thesis using st task_callback_inv [of m j] owned_by_frame [of "task_callback j m" tid m]
    by (simp add: stuck_inv_def)
qed

lemma stuck_inv_step: "stuck_inv tid i m \<Longrightarrow> stuck_inv tid i (run_step mtd m ev)"
proof -
  assume st: "stuck_inv tid i m"
  then have inv: "run_inv (run_step mtd m ev)" by (simp add: stuck_inv_def run_inv_step)
  show ?thesis
  proof (cases ev)
    case (StartCall k aid inp config metadata rid)
    with st start_reserve_stuck show ?thesis by (auto split: sum.split)
  next
    case (RespondCall k iid response aid rid)
    with st start_reserve_stuck show ?thesis by (auto simp: respond_reserve_def split: sum.split)
  next
    case (StartDone k)
    with st start_finish_stuck show ?thesis by (auto split: option.split)
  next
    case (TaskCallback j)
    with st task_callback_stuck show ?thesis by simp
  qed (use st inv in \<open>auto simp: start_cancelled_def task_step_def cancel_def stuck_inv_def
        owned_by_def split: option.splits owner.splits prod.splits\<close>)
qed

interpretation stuck: event_system "run_step mtd" "stuck_inv tid i" for mtd tid i
  by unfold_locales (rule stuck_inv_step)

lemma start_leaks:
  assumes "run_inv m" and "m_starts m i = Some p"
  shows "stuck_inv (p_thread p) i (start_cancelled i m)"
proof -
  have "i < m_next m" using run_invD(1) [OF assms] by (simp add: start_inv_def)
  then show ?thesis using start_slot [OF assms] drop_start_inv [OF assms(1)]
    by (simp add: stuck_inv_def start_cancelled_def owned_by_def)
qed

lemma stuck_refuses:
  "stuck_inv tid i m \<Longrightarrow>
   \<exists>rid. start_reserve tid aid inp config metadata run_id (runs_from mtd m evs)
         = Inl (run_active_error tid rid)"
  using stuck_busy [OF stuck.inv_run [of tid i m mtd evs]] by (auto simp: start_reserve_def)

section \<open>Publication\<close>

text \<open>\<open>m_hubs m\<close> seen as a map: the hub of a thread, a new one if there is none yet.\<close>

definition hub_at :: "hub_registry \<Rightarrow> string \<Rightarrow> hub" where
  "hub_at r tid = fst (hub_of tid r)"

lemma hub_at_put [simp]: "hub_at (put_hub tid h r) k = (if k = tid then h else hub_at r k)"
  by (simp add: hub_at_def hub_of_def put_hub_def Let_def split: option.split)

lemma hub_at_of [simp]: "hub_at (snd (hub_of tid r)) k = hub_at r k"
  by (simp add: hub_at_def hub_of_def Let_def split: option.split)

definition publishes :: "emission list \<Rightarrow> hub \<Rightarrow> hub \<Rightarrow> bool" where
  "publishes out h h' =
     (\<exists>envs. map (\<lambda>e. (e_method e, e_data e)) envs = out \<and>
        map e_seq envs = map (\<lambda>k. h_seq h + 1 + int k) [0..<length out] \<and>
        h_seq h' = h_seq h + int (length out) \<and>
        h_buffer h' = foldl (push_bounded (h_replay_size h)) (h_buffer h) envs)"

lemma publish_envelope:
  "e_method (fst (publish now m d ns ts eid h)) = m" "e_data (fst (publish now m d ns ts eid h)) = d"
  by (simp_all add: publish_def make_envelope_def Let_def)

lemma publish_all_hub:
  "publishes out (hub_at r tid) (hub_at (publish_all ts tid out r) tid) \<and>
   (\<forall>k. k \<noteq> tid \<longrightarrow> hub_at (publish_all ts tid out r) k = hub_at r k)"
proof (induction out arbitrary: ts r)
  case Nil
  then show ?case by (simp add: publishes_def)
next
  case (Cons e out)
  define h where "h = hub_at r tid"
  define env where "env = fst (publish (ts 0) (fst e) (snd e) None None None h)"
  define h1 where "h1 = snd (publish (ts 0) (fst e) (snd e) None None None h)"
  define r1 where "r1 = put_hub tid h1 (snd (hub_of tid r))"
  define R where "R = publish_all ts tid (e # out) r"
  have step: "R = publish_all (\<lambda>k. ts (Suc k)) tid out r1"
    by (simp add: R_def r1_def h1_def h_def hub_at_def case_prod_beta)
  have h1: "hub_at r1 tid = h1" "h_seq h1 = h_seq h + 1" "h_replay_size h1 = h_replay_size h"
    "h_buffer h1 = push_bounded (h_replay_size h) (h_buffer h) env"
    by (simp_all add: r1_def h1_def env_def)
  have other: "k \<noteq> tid \<Longrightarrow> hub_at r1 k = hub_at r k" for k by (simp add: r1_def)
  have ih: "publishes out h1 (hub_at R tid)" "k \<noteq> tid \<Longrightarrow> hub_at R k = hub_at r k" for k
    using Cons [of r1 "\<lambda>k. ts (Suc k)", folded step] h1(1) other by simp_all
  then obtain envs where
    envs: "map (\<lambda>e. (e_method e, e_data e)) envs = out"
      "map e_seq envs = map (\<lambda>k. h_seq h1 + 1 + int k) [0..<length out]"
      "h_seq (hub_at R tid) = h_seq h1 + int (length out)"
      "h_buffer (hub_at R tid) = foldl (push_bounded (h_replay_size h1)) (h_buffer h1) envs"
    unfolding publishes_def by blast
  have "map e_seq (env # envs) = map (\<lambda>k. h_seq h + 1 + int k) [0..<length (e # out)]"
    using envs(2) h1(2) by (simp add: env_def upt_conv_Cons map_Suc_upt [symmetric] comp_def del: upt_Suc)
  with envs h1 have "publishes (e # out) h (hub_at R tid)"
    unfolding publishes_def
    by (intro exI [of _ "env # envs"]) (simp add: env_def publish_envelope del: upt_Suc)
  with ih(2) show ?case by (simp add: h_def R_def del: publish_all.simps)
qed

section \<open>Isolation of threads\<close>

text \<open>The thread an event is about, if any.\<close>

definition concerns :: "manager \<Rightarrow> run_event \<Rightarrow> string option" where
  "concerns m ev =
     (case ev of
        StartCall tid aid inp config metadata rid \<Rightarrow> Some tid
      | RespondCall tid iid response aid rid \<Rightarrow> Some tid
      | StartDone i \<Rightarrow> map_option p_thread (m_starts m i)
      | StartCancelled i \<Rightarrow> map_option p_thread (m_starts m i)
      | TaskStep j ts \<Rightarrow> map_option t_thread (m_tasks m j)
      | TaskCallback j \<Rightarrow> map_option t_thread (m_tasks m j)
      | CancelCall tid rid \<Rightarrow> Some tid
      | RegisterCall aid f \<Rightarrow> None)"

text \<open>The part of a table whose entries belong to the thread.\<close>

definition own_of :: "('a \<Rightarrow> string) \<Rightarrow> (nat \<Rightarrow> 'a option) \<Rightarrow> string \<Rightarrow> nat \<Rightarrow> 'a option" where
  "own_of f h tid i = (case h i of Some x \<Rightarrow> if f x = tid then Some x else None | None \<Rightarrow> None)"

lemma own_of_change:
  assumes "\<And>x. h i = Some x \<Longrightarrow> f x \<noteq> tid" and "\<And>x. v = Some x \<Longrightarrow> f x \<noteq> tid"
  shows "own_of f (h(i := v)) tid = own_of f h tid"
  using assms by (auto simp: own_of_def fun_eq_iff split: option.split)

lemma own_of_new: "h i = None \<Longrightarrow> f x \<noteq> tid \<Longrightarrow> own_of f (h(i \<mapsto> x)) tid = own_of f h tid"
  by (rule own_of_change) auto

lemma own_of_drop: "h i = Some x \<Longrightarrow> f x \<noteq> tid \<Longrightarrow> own_of f (h(i := None)) tid = own_of f h tid"
  by (rule own_of_change) auto

lemmas own_of_simps = own_of_new own_of_drop

text \<open>All that the manager holds of a thread.\<close>

definition same_thread :: "string \<Rightarrow> manager \<Rightarrow> manager \<Rightarrow> bool" where
  "same_thread tid m m' =
     (m_active m' tid = m_active m tid \<and> m_pending m' tid = m_pending m tid \<and> m_last m' tid = m_last m tid \<and>
      hub_at (m_hubs m') tid = hub_at (m_hubs m) tid \<and>
      own_of p_thread (m_starts m') tid = own_of p_thread (m_starts m) tid \<and>
      own_of t_thread (m_tasks m') tid = own_of t_thread (m_tasks m) tid)"

lemma same_thread_refl [simp]: "same_thread tid m m"
  by (simp add: same_thread_def)

lemma same_thread_trans: "same_thread tid m m1 \<Longrightarrow> same_thread tid m1 m2 \<Longrightarrow> same_thread tid m m2"
  by (simp add: same_thread_def)

lemma next_is_new: "run_inv m \<Longrightarrow> m_starts m (m_next m) = None \<and> m_tasks m (m_next m) = None"
  using run_invD(1) [of m "m_next m"] run_invD(2) [of m "m_next m"]
  by (cases "m_starts m (m_next m)"; cases "m_tasks m (m_next m)") (auto simp: start_inv_def task_inv_def)

lemma start_reserve_same:
  assumes "run_inv m" and "start_reserve k aid inp config metadata rid m = Inr (i, m')" and "k \<noteq> tid"
  shows "same_thread tid m m'"
proof -
  have b: "busy_run m k = None" using assms(2) by (simp add: start_reserve_def split: option.splits)
  obtain a p where "m' = m\<lparr>m_active := (m_active m)(k \<mapsto> a), m_starts := (m_starts m)(m_next m \<mapsto> p),
      m_next := Suc (m_next m)\<rparr>" "p_thread p = k"
    using assms(2) b by (auto simp: start_reserve_def Let_def)
  with assms(3) next_is_new [OF assms(1)] show ?thesis by (simp add: same_thread_def own_of_simps)
qed

lemma start_finish_same:
  assumes "run_inv m" and "m_starts m i = Some p" and "p_thread p \<noteq> tid"
  shows "same_thread tid m (snd (start_finish i p m))"
proof (cases "p_outcome p")
  case (Inl e)
  with assms show ?thesis by (simp add: start_finish_def Let_def same_thread_def own_of_simps)
next
  case (Inr g)
  with assms next_is_new [OF assms(1)] show ?thesis
    by (cases "run_config (p_thread p) (p_config p) (p_metadata p)")
       (simp_all add: start_finish_def Let_def same_thread_def own_of_simps new_task_def)
qed

lemma cancel_same:
  assumes "run_inv m" and "k \<noteq> tid"
  shows "same_thread tid m (snd (cancel k rid m))"
proof -
  have "same_thread tid m (m\<lparr>m_tasks := (m_tasks m)(j := map_option request_cancel (m_tasks m j))\<rparr>)"
    if a: "m_active m k = Some a" "a_owner a = Running j" for a j
  proof -
    have "t_thread t \<noteq> tid" if "m_tasks m j = Some t" for t
      using run_invD(3) [OF assms(1) a(1)] a(2) that assms(2) by (auto simp: slot_inv_def)
    then show ?thesis by (auto simp: same_thread_def intro!: own_of_change)
  qed
  then show ?thesis by (simp add: cancel_def split: option.split owner.split)
qed

lemma run_step_same:
  assumes inv: "run_inv m" and other: "concerns m ev \<noteq> Some tid"
  shows "same_thread tid m (run_step mtd m ev)"
proof (cases ev)
  case (StartCall k aid inp config metadata rid)
  with inv other show ?thesis by (auto simp: concerns_def intro: start_reserve_same split: sum.split)
next
  case (RespondCall k iid response aid rid)
  with inv other show ?thesis
    by (auto simp: concerns_def respond_reserve_def intro: start_reserve_same split: sum.split)
next
  case (StartDone i)
  with inv other show ?thesis by (auto simp: concerns_def intro: start_finish_same split: option.split)
next
  case (StartCancelled i)
  with other show ?thesis
    by (auto simp: concerns_def start_cancelled_def same_thread_def intro!: own_of_change)
next
  case (TaskStep j ts)
  show ?thesis
  proof (cases "m_tasks m j")
    case (Some t)
    obtain out pd t' where e: "exec_step mtd t = (out, pd, t')" by (metis prod_cases3)
    have t: "t_thread t \<noteq> tid" "t_thread t' = t_thread t"
      using TaskStep Some other exec_step_ids [OF e] by (simp_all add: concerns_def)
    then have "own_of t_thread ((m_tasks m)(j \<mapsto> t')) tid = own_of t_thread (m_tasks m) tid"
      using Some by (intro own_of_change) auto
    with t publish_all_hub [of out "m_hubs m" "t_thread t" ts] show ?thesis
      by (simp add: TaskStep task_step_def Some e same_thread_def split: option.split)
  qed (simp add: TaskStep task_step_def)
next
  case (TaskCallback j)
  with other show ?thesis by (auto simp: concerns_def task_callback_def same_thread_def split: option.split)
next
  case (CancelCall k rid)
  with inv other show ?thesis by (simp add: concerns_def cancel_same)
next
  case (RegisterCall aid f)
  then show ?thesis by (simp add: same_thread_def)
qed

text \<open>No event of a sequence is about the thread.\<close>

fun spares :: "(pyval \<Rightarrow> exn + pyval) \<Rightarrow> string \<Rightarrow> manager \<Rightarrow> run_event list \<Rightarrow> bool" where
  "spares mtd tid m [] = True"
| "spares mtd tid m (ev # evs) = (concerns m ev \<noteq> Some tid \<and> spares mtd tid (run_step mtd m ev) evs)"

lemma spares_same: "run_inv m \<Longrightarrow> spares mtd tid m evs \<Longrightarrow> same_thread tid m (runs_from mtd m evs)"
proof (induction evs arbitrary: m)
  case (Cons ev evs)
  from Cons.IH [OF run_inv_step [OF Cons.prems(1), of mtd ev]] Cons.prems run_step_same [of m ev tid mtd]
  show ?case by (auto intro: same_thread_trans)
qed simp

section \<open>Properties\<close>

definition demo_graph :: run_graph where
  "demo_graph =
     \<lparr>rg_reads = idle_graph, rg_stream = (\<lambda>inp config. ([ValuesItem (PDict [(''n'', PInt 1)])], None)),
      rg_getter = None\<rparr>"

definition demo_registry :: "run_graph registry" where
  "demo_registry = [(''a'', \<lambda>config. Inr (Graph demo_graph))]"

definition demo_start :: run_event where
  "demo_start = StartCall ''t'' (PStr ''a'') (Input PNone) None PNone ''r1''"

definition demo_starting :: starting where
  "demo_starting =
     \<lparr>p_thread = ''t'', p_run_id = ''r1'', p_assistant = PStr ''a'', p_input = Input PNone, p_config = None,
      p_metadata = PNone, p_outcome = Inr demo_graph\<rparr>"

lemmas manager_eval = reached_def new_manager_def start_reserve_def busy_run_def Let_def
  demo_start_def demo_registry_def resolve_def find_factory_def config_value_def

lemma demo_reserved:
  "m_starts (reached mtd demo_registry 5 [demo_start]) 0 = Some demo_starting"
  by (simp add: manager_eval demo_starting_def)

text \<open>C2: one run per thread. However starts, resolutions, steps, callbacks and cancellations
  interleave, at most one coroutine can still act on a thread: one start that awaits its graph,
  or one task that is not done.\<close>

theorem one_run_per_thread:
  "occupants (reached mtd reg n evs) tid = {} \<or> (\<exists>w. occupants (reached mtd reg n evs) tid = {w})"
  using occupant_unique [OF reached_inv [of mtd reg n evs], of _ tid] by blast

text \<open>The guard of \<open>start\<close>: it succeeds only when nothing acts on the thread, and then the new
  start alone does; otherwise it raises the typed error naming the run that holds the thread.\<close>

theorem start_guard:
  "(\<exists>i m'. start_reserve tid aid inp config metadata rid (reached mtd reg n evs) = Inr (i, m') \<and>
      occupants (reached mtd reg n evs) tid = {} \<and> occupants m' tid = {Reserved i}) \<or>
   (\<exists>a. m_active (reached mtd reg n evs) tid = Some a \<and>
      start_reserve tid aid inp config metadata rid (reached mtd reg n evs)
        = Inl (run_active_error tid (a_run_id a)))"
proof (cases "busy_run (reached mtd reg n evs) tid")
  case (Some a)
  then have "m_active (reached mtd reg n evs) tid = Some a"
    by (auto simp: busy_run_def split: option.splits owner.splits if_splits)
  with Some show ?thesis by (auto simp: start_reserve_def)
next
  case None
  obtain i m' where s: "start_reserve tid aid inp config metadata rid (reached mtd reg n evs) = Inr (i, m')"
    using None by (simp add: start_reserve_def Let_def)
  have "Reserved i \<in> occupants m' tid"
    using s None by (auto simp: start_reserve_def Let_def occupants_def)
  with occupant_unique [OF start_reserve_inv [OF reached_inv s], of _ tid]
  have "occupants m' tid = {Reserved i}" by blast
  with s not_busy_empty [OF reached_inv None] show ?thesis by blast
qed



text \<open>A start that gets its graph and its config creates the one task of the thread, not yet
  begun, under the run id it returns; it consumes the pending interrupts of the thread and
  records the assistant.\<close>

theorem successful_start:
  assumes "m_starts (reached mtd reg n evs) i = Some p"
    and "start_finish i p (reached mtd reg n evs) = (Inr rid, m')"
  shows "\<exists>j t. occupants m' (p_thread p) = {Running j} \<and> m_tasks m' j = Some t \<and> t_stage t = Queued \<and>
     t_run_id t = rid \<and> rid = p_run_id p \<and> t_assistant t = p_assistant p \<and>
     m_pending m' = (m_pending (reached mtd reg n evs))(p_thread p := None) \<and>
     m_last m' = (m_last (reached mtd reg n evs))(p_thread p \<mapsto> p_assistant p)"
proof -
  let ?m = "reached mtd reg n evs"
  obtain g rc where g: "p_outcome p = Inr g" "run_config (p_thread p) (p_config p) (p_metadata p) = Inr rc"
    using assms(2) by (auto simp: start_finish_def Let_def split: sum.splits)
  let ?t = "new_task (p_thread p) (p_run_id p) (p_assistant p) (rg_stream g (p_input p) (PDict rc))
              (map_option (\<lambda>f. f (PDict rc)) (rg_getter g))"
  have m': "m_tasks m' (m_next ?m) = Some ?t" "rid = p_run_id p"
    "m_pending m' = (m_pending ?m)(p_thread p := None)" "m_last m' = (m_last ?m)(p_thread p \<mapsto> p_assistant p)"
    using assms(2) g by (auto simp: start_finish_def Let_def)
  have "Running (m_next ?m) \<in> occupants m' (p_thread p)"
    using task_occupies [OF m'(1)] by (simp add: new_task_def)
  moreover have "run_inv m'" using start_finish_inv [OF reached_inv assms(1)] assms(2) by simp
  ultimately have "occupants m' (p_thread p) = {Running (m_next ?m)}"
    using occupant_unique by blast
  with m' show ?thesis by (auto simp: new_task_def)
qed

theorem successful_start_witness:
  "\<exists>m' j t. start_finish 0 demo_starting (reached plain_message demo_registry 5 [demo_start]) = (Inr ''r1'', m') \<and>
     occupants m' ''t'' = {Running j} \<and> m_tasks m' j = Some t \<and> t_stage t = Queued"
proof -
  let ?m = "reached plain_message demo_registry 5 [demo_start]"
  obtain m' where f: "start_finish 0 demo_starting ?m = (Inr ''r1'', m')"
    by (simp add: start_finish_def demo_starting_def run_config_def base_config_def Let_def
        py_or_def or_none_def)
  from successful_start [OF demo_reserved f] f show ?thesis by (auto simp: demo_starting_def)
qed



text \<open>Whatever happens around it, a task keeps its identity and loses budget with each of its steps.\<close>

definition steps_task :: "nat \<Rightarrow> run_event \<Rightarrow> bool" where
  "steps_task j ev = (case ev of TaskStep k ts \<Rightarrow> k = j | _ \<Rightarrow> False)"

definition task_steps :: "nat \<Rightarrow> run_event list \<Rightarrow> nat" where
  "task_steps j evs = length (filter (steps_task j) evs)"

lemma task_after_step:
  assumes "run_inv m" and "m_tasks m j = Some t"
  shows "\<exists>t'. m_tasks (run_step mtd m ev) j = Some t' \<and> t_thread t' = t_thread t \<and> t_run_id t' = t_run_id t \<and>
     budget t' \<le> budget t - (if steps_task j ev then 1 else 0)"
proof (cases ev)
  case (StartDone i)
  have "j \<noteq> m_next m" using run_invD(2) [OF assms] by (auto simp: task_inv_def)
  with StartDone assms(2) show ?thesis
    by (auto simp: steps_task_def start_finish_def Let_def split: option.split sum.split)
next
  case (TaskStep k ts)
  obtain out pd t1 where e: "exec_step mtd t = (out, pd, t1)" by (metis prod_cases3)
  with TaskStep assms(2) exec_step_spends [OF e] exec_step_ids [OF e] show ?thesis
    by (auto simp: steps_task_def task_step_def split: option.split prod.split)
next
  case (CancelCall tid rid)
  have "t_thread (request_cancel t) = t_thread t \<and> t_run_id (request_cancel t) = t_run_id t"
    by (simp add: request_cancel_def)
  with CancelCall assms(2) show ?thesis
    by (auto simp: steps_task_def cancel_def split: option.split owner.split)
qed (use assms(2) in \<open>auto simp: steps_task_def respond_reserve_def start_reserve_def start_cancelled_def
    task_callback_def Let_def split: option.split sum.split\<close>)

lemma task_after_run:
  assumes "run_inv m" and "m_tasks m j = Some t"
  shows "\<exists>t'. m_tasks (runs_from mtd m evs) j = Some t' \<and> t_thread t' = t_thread t \<and> t_run_id t' = t_run_id t \<and>
     budget t' \<le> budget t - task_steps j evs"
  using assms
proof (induction evs arbitrary: m t)
  case (Cons ev evs)
  from task_after_step [OF Cons.prems, of mtd ev] obtain t1 where t1: "m_tasks (run_step mtd m ev) j = Some t1"
    "t_thread t1 = t_thread t" "t_run_id t1 = t_run_id t"
    "budget t1 \<le> budget t - (if steps_task j ev then 1 else 0)" by (elim exE conjE)
  from Cons.IH [OF run_inv_step [OF Cons.prems(1)] t1(1)] t1 show ?case
    by (fastforce simp: task_steps_def split: if_splits)
qed (simp add: task_steps_def)

text \<open>A run that was given its steps, at whatever times, is over and cannot act on any thread.\<close>

lemma run_over:
  assumes "run_inv m" and "m_tasks m j = Some t" and "budget t \<le> task_steps j evs"
  shows "\<exists>t'. m_tasks (runs_from mtd m evs) j = Some t' \<and> t_thread t' = t_thread t \<and> t_run_id t' = t_run_id t \<and>
     t_stage t' = Settled \<and> Running j \<notin> occupants (runs_from mtd m evs) tid \<and>
     (\<forall>a. busy_run (runs_from mtd m evs) tid = Some a \<longrightarrow> a_owner a \<noteq> Running j)"
proof -
  from task_after_run [OF assms(1,2), of mtd evs] obtain t' where t': "m_tasks (runs_from mtd m evs) j = Some t'"
    "t_thread t' = t_thread t" "t_run_id t' = t_run_id t" "budget t' \<le> budget t - task_steps j evs"
    by (elim exE conjE)
  with assms(3) have "budget t' = 0" by linarith
  then have "t_stage t' = Settled" by simp
  with t' show ?thesis
    by (auto simp: occupants_def busy_run_def task_done_def split: option.splits owner.splits if_splits)
qed

lemma busy_after_steps:
  "run_inv m \<Longrightarrow> m_tasks m j = Some t \<Longrightarrow> owned_by m (t_thread t) (Running j) \<Longrightarrow>
   (\<exists>t'. m_tasks (runs_from mtd m (replicate k (TaskStep j ts))) j = Some t' \<and> t_thread t' = t_thread t \<and>
      budget t' \<le> budget t - k) \<and>
   owned_by (runs_from mtd m (replicate k (TaskStep j ts))) (t_thread t) (Running j)"
proof (induction k arbitrary: m t)
  case (Suc k)
  obtain out pd t1 where e: "exec_step mtd t = (out, pd, t1)" by (metis prod_cases3)
  note b = exec_step_spends [OF e]
  let ?m1 = "task_step mtd j ts m"
  have one: "m_tasks ?m1 j = Some t1" "owned_by ?m1 (t_thread t1) (Running j)" "t_thread t1 = t_thread t"
    using Suc.prems e exec_step_ids [OF e] by (simp_all add: task_step_def owned_by_def)
  from Suc.IH [OF task_step_inv [OF Suc.prems(1)] one(1,2)] one(3) b show ?case by fastforce
qed auto

text \<open>A run frees its thread: when the task that holds a thread has been given as many steps as
  its budget, whatever it published or raised, the thread accepts a new start.\<close>

theorem run_frees_thread:
  assumes "m_tasks (reached mtd reg n evs) j = Some t"
    and "owned_by (reached mtd reg n evs) (t_thread t) (Running j)"
  shows "busy_run (runs_from mtd (reached mtd reg n evs) (replicate (budget t) (TaskStep j ts))) (t_thread t) = None"
proof -
  let ?m = "runs_from mtd (reached mtd reg n evs) (replicate (budget t) (TaskStep j ts))"
  from busy_after_steps [OF reached_inv assms, of mtd "budget t" ts] obtain t' where
    "m_tasks ?m j = Some t'" "budget t' = 0" "owned_by ?m (t_thread t) (Running j)" by auto
  then show ?thesis by (auto simp: busy_run_def owned_by_iff task_done_def)
qed

definition demo_run :: "run_event list" where
  "demo_run = [demo_start, StartDone 0]"

lemma demo_task:
  "m_tasks (reached plain_message demo_registry 5 demo_run) 1
     = Some (new_task ''t'' ''r1'' (PStr ''a'') ([ValuesItem (PDict [(''n'', PInt 1)])], None) None)"
  "owned_by (reached plain_message demo_registry 5 demo_run) ''t'' (Running 1)"
  by (simp_all add: demo_run_def manager_eval start_finish_def run_config_def base_config_def
      py_or_def or_none_def demo_graph_def owned_by_def)

theorem run_frees_thread_witness:
  "busy_run (runs_from plain_message (reached plain_message demo_registry 5 demo_run)
      (replicate 4 (TaskStep 1 int))) ''t'' = None"
  using run_frees_thread [OF demo_task(1), of int] demo_task(2)
  by (simp add: new_task_def budget.simps)

text \<open>A cancellation that names a run cannot stop another one: every task with a different run id
  is as before, and the call reports whether the named run held the thread.\<close>

theorem cancel_is_scoped:
  assumes "m_tasks (reached mtd reg n evs) k = Some t" and "t_run_id t \<noteq> rid"
  shows "m_tasks (snd (cancel tid (PStr rid) (reached mtd reg n evs))) k = Some t \<and>
     (fst (cancel tid (PStr rid) (reached mtd reg n evs)) \<longleftrightarrow>
        (\<exists>a j. m_active (reached mtd reg n evs) tid = Some a \<and> a_owner a = Running j \<and> a_run_id a = rid))"
proof -
  let ?m = "reached mtd reg n evs"
  have "k \<noteq> j" if "m_active ?m tid = Some a" "a_owner a = Running j" "a_run_id a = rid" for a j
    using run_invD(3) [OF reached_inv that(1)] that(2,3) assms by (auto simp: slot_inv_def)
  with assms(1) show ?thesis by (auto simp: cancel_def split: option.split owner.split)
qed

theorem cancel_is_scoped_witness:
  "m_tasks (snd (cancel ''t'' (PStr ''r0'') (reached plain_message demo_registry 5 demo_run))) 1
     = Some (new_task ''t'' ''r1'' (PStr ''a'') ([ValuesItem (PDict [(''n'', PInt 1)])], None) None)"
  using cancel_is_scoped [OF demo_task(1), of "''r0''" "''t''"] by (simp add: new_task_def)

text \<open>\<open>respond\<close> starts a run only for an interrupt it has reason to believe in: one of the pending
  map of the thread, or any when there is no map and the caller names an assistant. Otherwise it
  raises \<open>UnknownInterruptError\<close> and, as on every error, reserves nothing.\<close>

theorem respond_outcome:
  "respond_reserve tid iid response aid rid m =
     (if (case m_pending m tid of Some pending \<Rightarrow> dget pending iid \<noteq> None | None \<Rightarrow> truthy aid)
      then start_reserve tid
             (case m_pending m tid of
                Some pending \<Rightarrow> py_or (py_or aid (or_none (dget pending ''assistant_id''))) (PStr [])
              | None \<Rightarrow> aid)
             (CommandResume response) None PNone rid m
      else Inl (unknown_interrupt tid iid))"
  by (auto simp: respond_reserve_def respond_assistant_def split: option.split)

text \<open>What a step of a run publishes arrives on its thread's hub only, in order, with consecutive
  sequence numbers, and is retained like every event.\<close>

theorem task_step_publishes:
  assumes "m_tasks m j = Some t" and "exec_step mtd t = (out, pending, t')"
  shows "publishes out (hub_at (m_hubs m) (t_thread t)) (hub_at (m_hubs (task_step mtd j ts m)) (t_thread t)) \<and>
     (\<forall>k. k \<noteq> t_thread t \<longrightarrow> hub_at (m_hubs (task_step mtd j ts m)) k = hub_at (m_hubs m) k)"
  using assms publish_all_hub [of out "m_hubs m" "t_thread t" ts] by (simp add: task_step_def)

theorem task_step_publishes_witness:
  "h_seq (hub_at (m_hubs (task_step plain_message 1 int (reached plain_message demo_registry 5 demo_run))) ''t'')
     = h_seq (hub_at (m_hubs (reached plain_message demo_registry 5 demo_run)) ''t'') + 2"
proof -
  let ?t = "new_task ''t'' ''r1'' (PStr ''a'') ([ValuesItem (PDict [(''n'', PInt 1)])], None) None"
  have "exec_step plain_message ?t =
     ([lifecycle (PStr ''a'') ''started'' [], lifecycle (PStr ''a'') ''running'' []], None, ?t\<lparr>t_stage := Streaming\<rparr>)"
    by (simp add: exec_step_def new_task_def)
  from task_step_publishes [OF demo_task(1) this, of int] show ?thesis
    by (auto simp: publishes_def new_task_def)
qed

text \<open>A start whose handler is cancelled while its graph resolves keeps the thread's slot for ever:
  \<open>except Exception\<close> does not see \<open>CancelledError\<close>. Whatever happens afterwards, no start on the
  thread ever succeeds again.\<close>

theorem cancelled_start_blocks_thread:
  assumes "m_starts (reached mtd reg n evs) i = Some p"
  shows "\<exists>rid. start_reserve (p_thread p) aid inp config metadata run_id
       (runs_from mtd (start_cancelled i (reached mtd reg n evs)) later) = Inl (run_active_error (p_thread p) rid)"
  by (rule stuck_refuses [OF start_leaks [OF reached_inv assms]])

theorem cancelled_start_blocks_thread_witness:
  "\<exists>rid. start_reserve ''t'' (PStr ''a'') (Input PNone) None PNone ''r2''
       (runs_from plain_message (start_cancelled 0 (reached plain_message demo_registry 5 [demo_start])) [CancelCall ''t'' PNone])
     = Inl (run_active_error ''t'' rid)"
proof -
  have "p_thread demo_starting = ''t''" by (simp add: demo_starting_def)
  with cancelled_start_blocks_thread [OF demo_reserved [where mtd = plain_message], of "PStr ''a''"
      "Input PNone" None PNone "''r2''" "[CancelCall ''t'' PNone]"]
  show ?thesis by (simp only:)
qed

text \<open>C40: the same happens when the config of the run cannot be built, after the reservation and
  outside the \<open>try\<close>: with a \<open>metadata\<close> that is true but no mapping the start raises a
  \<open>TypeError\<close> and its thread is blocked for ever.\<close>

theorem bad_metadata_blocks_thread:
  assumes "m_starts (reached mtd reg n evs) i = Some p" and "p_outcome p = Inr g"
    and "truthy (p_metadata p)" and "\<nexists>d. p_metadata p = PDict d"
  shows "\<exists>e m'. start_finish i p (reached mtd reg n evs) = (Inl e, m') \<and> exn_type e = ''TypeError'' \<and>
     (\<forall>later aid inp config metadata run_id. \<exists>rid.
        start_reserve (p_thread p) aid inp config metadata run_id (runs_from mtd m' later)
          = Inl (run_active_error (p_thread p) rid))"
proof -
  let ?m = "reached mtd reg n evs"
  have not_mapping: "\<exists>e. py_mapping v = Inl e \<and> exn_type e = ''TypeError''" if "\<nexists>d. v = PDict d" for v
    using that by (cases v) auto
  have "\<exists>e. run_config (p_thread p) (p_config p) (p_metadata p) = Inl e \<and> exn_type e = ''TypeError''"
    using not_mapping [OF assms(4)] assms(3) not_mapping
    by (fastforce simp: run_config_def base_config_def Let_def elim: py_mapping.elims split: sum.split)
  then obtain e where e: "run_config (p_thread p) (p_config p) (p_metadata p) = Inl e" "exn_type e = ''TypeError''"
    by blast
  then have "start_finish i p ?m = (Inl e, start_cancelled i ?m)"
    using assms(2) by (simp add: start_finish_def start_cancelled_def Let_def)
  with e stuck_refuses [OF start_leaks [OF reached_inv assms(1)]] show ?thesis by blast
qed

lemma bad_start:
  "m_starts (reached mtd demo_registry 5 [StartCall ''t'' (PStr ''a'') (Input PNone) None (PInt 1) ''r1'']) 0
     = Some (demo_starting\<lparr>p_metadata := PInt 1\<rparr>)"
  by (simp add: manager_eval demo_starting_def)

theorem bad_metadata_blocks_thread_witness:
  "\<exists>m'. snd (start_finish 0 (demo_starting\<lparr>p_metadata := PInt 1\<rparr>)
           (reached plain_message demo_registry 5 [StartCall ''t'' (PStr ''a'') (Input PNone) None (PInt 1) ''r1''])) = m' \<and>
     (\<exists>rid. start_reserve ''t'' (PStr ''a'') (Input PNone) None PNone ''r2'' m' = Inl (run_active_error ''t'' rid))"
proof -
  let ?p = "demo_starting\<lparr>p_metadata := PInt 1\<rparr>"
  let ?m = "reached plain_message demo_registry 5 [StartCall ''t'' (PStr ''a'') (Input PNone) None (PInt 1) ''r1'']"
  have "p_outcome ?p = Inr demo_graph" "truthy (p_metadata ?p)" "\<nexists>d. p_metadata ?p = PDict d" "p_thread ?p = ''t''"
    by (simp_all add: demo_starting_def)
  with bad_metadata_blocks_thread [OF bad_start, of demo_graph plain_message] obtain e m' where
    m': "start_finish 0 ?p ?m = (Inl e, m')"
    "\<forall>later aid inp config metadata run_id. \<exists>rid.
        start_reserve ''t'' aid inp config metadata run_id (runs_from plain_message m' later)
          = Inl (run_active_error ''t'' rid)" by auto
  from m'(2) [rule_format, of "PStr ''a''" "Input PNone" None PNone "''r2''" "[]"] m'(1) show ?thesis by simp
qed

text \<open>The thread id of a run's config is the client's if it sends one: a \<open>thread_id\<close> in the
  \<open>configurable\<close> of the request replaces the thread the command was sent to.\<close>

theorem client_overrides_thread_id:
  assumes "dget cfg ''configurable'' = Some (PDict conf)" and "dict_wf conf" and "dict_wf cfg"
    and "dget conf ''thread_id'' = Some v"
  shows "\<exists>rc. run_config tid (Some cfg) PNone = Inr rc \<and>
     (\<exists>c. dget rc ''configurable'' = Some (PDict c) \<and> dget c ''thread_id'' = Some v)"
proof -
  have ne: "conf \<noteq> []" using assms(4) by auto
  let ?rest = "filter (\<lambda>(k, v). k \<noteq> ''configurable'') cfg"
  have "dict_wf ?rest" using assms(3) by (simp add: dict_wf_def dkeys_def distinct_map_filter)
  moreover have "dget ?rest ''configurable'' = None"
    by (auto simp: dget_None_keys dkeys_def)
  ultimately show ?thesis using assms ne
    by (simp add: run_config_def base_config_def py_or_def or_none_def dget_dmerge)
qed

theorem client_overrides_thread_id_witness:
  "\<exists>rc c. run_config ''mine'' (Some [(''configurable'', PDict [(''thread_id'', PStr ''other'')])]) PNone = Inr rc \<and>
     dget rc ''configurable'' = Some (PDict c) \<and> dget c ''thread_id'' = Some (PStr ''other'')"
  using client_overrides_thread_id [of "[(''configurable'', PDict [(''thread_id'', PStr ''other'')])]"
      "[(''thread_id'', PStr ''other'')]" "PStr ''other''" "''mine''"]
  by (auto simp: dict_wf_def dkeys_def)

text \<open>C7: threads are independent. Runs, starts, cancellations and registrations on other threads,
  however many and in whatever order, leave everything of a thread as it was: its slot, its pending
  interrupts, its last assistant, its starts and tasks, and its hub with all subscriptions.\<close>

theorem threads_isolated:
  assumes "spares mtd tid (reached mtd reg n evs) others"
  shows "same_thread tid (reached mtd reg n evs) (runs_from mtd (reached mtd reg n evs) others)"
  using reached_inv assms by (rule spares_same)

theorem threads_isolated_witness:
  "hub_at (m_hubs (runs_from plain_message (reached plain_message demo_registry 5 []) demo_run)) ''u''
     = hub_at (m_hubs (reached plain_message demo_registry 5 [])) ''u'' \<and>
   m_tasks (runs_from plain_message (reached plain_message demo_registry 5 []) demo_run) 1 \<noteq> None"
proof -
  let ?m = "reached plain_message demo_registry 5 []"
  have "concerns ?m demo_start = Some ''t''" by (simp add: concerns_def demo_start_def)
  moreover have "m_starts (run_step plain_message ?m demo_start) 0 = Some demo_starting"
    using demo_reserved [where mtd = plain_message] by (simp add: reached_def)
  ultimately have "spares plain_message ''u'' ?m demo_run"
    by (simp add: demo_run_def concerns_def demo_starting_def del: run_step.simps)
  from threads_isolated [OF this] demo_task(1) show ?thesis by (simp add: same_thread_def reached_def)
qed

end
