(* ===== verification/Uuid7.thy ===== *)
theory Uuid7
  imports PyJson "HOL-Library.Word" "HOL-Library.Char_ord" "HOL-Library.List_Lexorder"
begin

unbundle bit_operations_syntax

text \<open>
  \<open>uuid7.py\<close>: thread ids. A byte is an \<open>8 word\<close>; Python's integers are unbounded, so the
  fields are computed on \<open>int\<close>. The random bytes of \<open>os.urandom\<close> and the clock are arguments.
\<close>

section \<open>Bytes\<close>

type_synonym bytes = "8 word list"

text \<open>\<open>int.to_bytes(k, "big")\<close> for a number that fits, and \<open>int.from_bytes(_, "big")\<close>.\<close>

fun to_bytes :: "nat \<Rightarrow> int \<Rightarrow> bytes" where
  "to_bytes 0 n = []"
| "to_bytes (Suc k) n = to_bytes k (n div 256) @ [word_of_int (n mod 256)]"

definition from_bytes :: "bytes \<Rightarrow> int" where
  "from_bytes bs = foldl (\<lambda>n b. 256 * n + uint b) 0 bs"

definition fits :: "nat \<Rightarrow> int \<Rightarrow> bool" where
  "fits k n = (0 \<le> n \<and> n < 256 ^ k)"

text \<open>\<open>uuid.UUID(bytes=raw).hex\<close>\<close>

definition hex :: "bytes \<Rightarrow> string" where
  "hex bs = concat (map (\<lambda>b. hex2 (unat b)) bs)"

section \<open>The id\<close>

definition timestamp_field :: "int \<Rightarrow> int" where
  "timestamp_field now = now AND (push_bit 48 1 - 1)"

definition version_field :: "bytes \<Rightarrow> int" where
  "version_field raw = push_bit 12 0b0111 OR (from_bytes (take 2 (drop 6 raw)) AND 0x0FFF)"

definition variant_field :: "bytes \<Rightarrow> int" where
  "variant_field raw = push_bit 14 0b10 OR (from_bytes (take 2 (drop 8 raw)) AND 0x3FFF)"

definition uuid7_bytes :: "bytes \<Rightarrow> int \<Rightarrow> bytes" where
  "uuid7_bytes raw now =
     to_bytes 6 (timestamp_field now) @ to_bytes 2 (version_field raw)
       @ to_bytes 2 (variant_field raw) @ drop 10 raw"

definition uuid7 :: "bytes \<Rightarrow> int \<Rightarrow> string" where
  "uuid7 raw now = hex (uuid7_bytes raw now)"

section \<open>The fields\<close>

lemma length_to_bytes [simp]: "length (to_bytes k n) = k"
  by (induction k arbitrary: n) simp_all

lemma from_bytes_snoc [simp]: "from_bytes (bs @ [b]) = 256 * from_bytes bs + uint b"
  by (simp add: from_bytes_def)

lemma from_bytes_Nil [simp]: "from_bytes [] = 0"
  by (simp add: from_bytes_def)

lemma from_bytes_to_bytes: "fits k n \<Longrightarrow> from_bytes (to_bytes k n) = n"
proof (induction k arbitrary: n)
  case 0
  then show ?case by (simp add: fits_def)
next
  case (Suc k)
  then have "fits k (n div 256)" by (auto simp: fits_def)
  moreover have "uint (word_of_int (n mod 256) :: 8 word) = n mod 256"
    by (simp add: uint_word_of_int)
  ultimately show ?case using Suc.IH by simp
qed

lemma to_bytes_inj: "fits k m \<Longrightarrow> fits k n \<Longrightarrow> to_bytes k m = to_bytes k n \<longleftrightarrow> m = n"
  by (metis from_bytes_to_bytes)

lemma and_mask_mod: "(x::int) AND mask n = x mod 2 ^ n"
  by (simp add: take_bit_eq_mod flip: take_bit_eq_mask)

lemma timestamp_field_mod: "timestamp_field now = now mod 2 ^ 48"
  using and_mask_mod [of now 48]
  by (simp add: timestamp_field_def mask_eq_exp_minus_1 push_bit_eq_mult)

lemma field_sum: "push_bit n (c::int) OR (x AND mask n) = push_bit n c + x mod 2 ^ n"
proof -
  have "push_bit n c AND take_bit n x = 0"
    by (rule bit_eqI) (auto simp: bit_and_iff bit_take_bit_iff bit_push_bit_iff)
  then have "push_bit n c + take_bit n x = push_bit n c OR take_bit n x"
    by (rule disjunctive_add_eq_or)
  then show ?thesis by (simp add: take_bit_eq_mod flip: take_bit_eq_mask)
qed

lemma version_field_sum: "version_field raw = 0x7000 + from_bytes (take 2 (drop 6 raw)) mod 0x1000"
  using field_sum [of 12 "0b0111" "from_bytes (take 2 (drop 6 raw))"]
  by (simp add: version_field_def mask_eq_exp_minus_1 push_bit_eq_mult)

lemma variant_field_sum: "variant_field raw = 0x8000 + from_bytes (take 2 (drop 8 raw)) mod 0x4000"
  using field_sum [of 14 "0b10" "from_bytes (take 2 (drop 8 raw))"]
  by (simp add: variant_field_def mask_eq_exp_minus_1 push_bit_eq_mult)

lemma field_ranges:
  "0 \<le> timestamp_field now \<and> timestamp_field now < 2 ^ 48"
  "0x7000 \<le> version_field raw \<and> version_field raw < 0x8000"
  "0x8000 \<le> variant_field raw \<and> variant_field raw < 0xC000"
  using pos_mod_bound [of "0x1000::int" "from_bytes (take 2 (drop 6 raw))"]
    pos_mod_bound [of "0x4000::int" "from_bytes (take 2 (drop 8 raw))"]
  by (simp_all add: timestamp_field_mod version_field_sum variant_field_sum)

text \<open>So \<open>to_bytes\<close> never overflows.\<close>

lemma fields_fit:
  "fits 6 (timestamp_field now)" "fits 2 (version_field raw)" "fits 2 (variant_field raw)"
  using field_ranges(1) [of now] field_ranges(2,3) [of raw] by (simp_all add: fits_def)

section \<open>Hexadecimal text\<close>

text \<open>\<open>k\<close> hexadecimal digits of a number, most significant first.\<close>

fun hex_of :: "nat \<Rightarrow> int \<Rightarrow> string" where
  "hex_of 0 n = []"
| "hex_of (Suc k) n = hex_of k (n div 16) @ [hex_digit (nat (n mod 16))]"

fun of_hex :: "string \<Rightarrow> int" where
  "of_hex [] = 0"
| "of_hex (c # cs) = (case hex_val c of Some v \<Rightarrow> int v | None \<Rightarrow> 0) * 16 ^ length cs + of_hex cs"

lemma hex_append [simp]: "hex (as @ bs) = hex as @ hex bs"
  by (simp add: hex_def)

lemma length_hex [simp]: "length (hex bs) = 2 * length bs"
  by (induction bs) (simp_all add: hex_def hex2_def)

lemma length_hex_of [simp]: "length (hex_of k n) = k"
  by (induction k arbitrary: n) simp_all

lemma nat_mod_256: "(m::nat) mod 256 div 16 mod 16 = m div 16 mod 16 \<and> m mod 256 mod 16 = m mod 16"
  using mod_mult2_eq [of m 16 16] by (simp add: mod_mod_cancel)

lemma hex_byte:
  assumes "0 \<le> n"
  shows "hex [word_of_int (n mod 256)] = [hex_digit (nat (n div 16 mod 16)), hex_digit (nat (n mod 16))]"
proof -
  obtain m where n: "n = int m" using assms nonneg_int_cases by blast
  have "unat (word_of_int (n mod 256) :: 8 word) = m mod 256"
    by (simp add: unat_eq_nat_uint uint_word_of_int n nat_mod_distrib)
  moreover have "nat (n div 16 mod 16) = m div 16 mod 16" "nat (n mod 16) = m mod 16"
    by (simp_all add: n nat_mod_distrib nat_div_distrib)
  ultimately show ?thesis by (simp add: hex_def hex2_def nat_mod_256)
qed

lemma hex_to_bytes: "0 \<le> n \<Longrightarrow> hex (to_bytes k n) = hex_of (2 * k) n"
proof (induction k arbitrary: n)
  case 0
  then show ?case by (simp add: hex_def)
next
  case (Suc k)
  have "n div 16 div 16 = n div 256" by (simp add: div_mult2_eq' flip: zdiv_zmult2_eq)
  with Suc show ?case by (simp add: hex_byte)
qed

lemma hex_val_nat: "0 \<le> n \<Longrightarrow> hex_val (hex_digit (nat (n mod 16))) = Some (nat (n mod 16))"
  by (rule hex_val_digit) (simp add: nat_less_iff)

lemma of_hex_append: "of_hex (xs @ ys) = of_hex xs * 16 ^ length ys + of_hex ys"
  by (induction xs) (simp_all add: power_add algebra_simps)

lemma of_hex_hex_of: "0 \<le> n \<Longrightarrow> n < 16 ^ k \<Longrightarrow> of_hex (hex_of k n) = n"
proof (induction k arbitrary: n)
  case 0
  then show ?case by simp
next
  case (Suc k)
  then have "of_hex (hex_of k (n div 16)) = n div 16" by simp
  with Suc.prems show ?case by (simp add: of_hex_append hex_val_nat)
qed

lemma of_char_hex_digit: "i < 16 \<Longrightarrow> of_char (hex_digit i) = (if i < 10 then 48 + i else 87 + i)"
proof -
  have "\<forall>j \<in> set [0..<16]. of_char (hex_digit j) = (if j < 10 then 48 + j else 87 + j)"
    by (simp add: upt_rec hex_digit_def)
  then show "i < 16 \<Longrightarrow> ?thesis" by simp
qed

lemma hex_digit_less: "i < j \<Longrightarrow> j < 16 \<Longrightarrow> hex_digit i < hex_digit j"
  by (simp add: less_char_def of_char_hex_digit)

lemma str_less_append: "(xs :: string) < ys \<Longrightarrow> length xs = length ys \<Longrightarrow> xs @ us < ys @ vs"
  by (simp add: list_less_def lexord_sufI)

text \<open>Numbers with the same number of digits are ordered as their texts.\<close>

lemma hex_of_less: "0 \<le> m \<Longrightarrow> m < n \<Longrightarrow> n < 16 ^ k \<Longrightarrow> hex_of k m < hex_of k n"
proof (induction k arbitrary: m n)
  case 0
  then show ?case by simp
next
  case (Suc k)
  show ?case
  proof (cases "m div 16 = n div 16")
    case True
    then have "m mod 16 < n mod 16" using Suc.prems(2) by presburger
    then have "hex_digit (nat (m mod 16)) < hex_digit (nat (n mod 16))"
      by (intro hex_digit_less) (simp_all add: nat_less_iff)
    with True show ?thesis by (simp add: list_less_def lexord_append_leftI)
  next
    case False
    then have "m div 16 < n div 16" using Suc.prems(2) zdiv_mono1 [of m n 16] by linarith
    with Suc show ?thesis by (simp add: str_less_append)
  qed
qed

lemma uuid7_hex:
  "uuid7 raw now = hex_of 12 (timestamp_field now) @ hex_of 4 (version_field raw)
     @ hex_of 4 (variant_field raw) @ hex (drop 10 raw)"
  using field_ranges(1) [of now] field_ranges(2,3) [of raw]
  by (simp add: uuid7_def uuid7_bytes_def hex_to_bytes)

lemma hex_of_hd: "hd (hex_of 4 n) = hex_digit (nat (n div 4096 mod 16))"
  by (simp add: numeral_eq_Suc hd_append flip: zdiv_zmult2_eq)

lemma hex2_inj: "m < 256 \<Longrightarrow> n < 256 \<Longrightarrow> hex2 m = hex2 n \<longleftrightarrow> m = n"
proof -
  assume *: "m < 256" "n < 256"
  have "hex_digit i = hex_digit j \<longleftrightarrow> i = j" if "i < 16" "j < 16" for i j
    using hex_digit_less [of i j] hex_digit_less [of j i] that by (cases i j rule: linorder_cases) auto
  moreover have "m div 16 = n div 16 \<and> m mod 16 = n mod 16 \<longleftrightarrow> m = n"
    by (metis div_mult_mod_eq)
  ultimately show ?thesis using * by (simp add: hex2_def)
qed

lemma hex_inj: "hex as = hex bs \<longleftrightarrow> as = bs"
proof (induction as arbitrary: bs)
  case Nil
  show ?case by (cases bs) (simp_all add: hex_def hex2_def)
next
  case (Cons a as)
  have "hex2 (unat a) = hex2 (unat b) \<longleftrightarrow> a = b" for b
  proof -
    have "unat x < 256" for x :: "8 word" by (rule less_le_trans [OF unsigned_less]) simp
    then show ?thesis by (simp add: hex2_inj word_unat_eq_iff)
  qed
  moreover have "length (hex2 (unat a)) = length (hex2 (unat b))" for b :: "8 word"
    by (simp add: hex2_def)
  ultimately show ?case using Cons
    by (cases bs) (simp_all add: hex_def, simp add: hex2_def)
qed

lemma nth_append_hd: "length xs = n \<Longrightarrow> ys \<noteq> [] \<Longrightarrow> (xs @ ys) ! n = hd ys"
  by (auto simp: nth_append hd_conv_nth)

lemma int_div_eq: "k * q \<le> v \<Longrightarrow> v < k * q + k \<Longrightarrow> v div k = (q :: int)"
  by (rule int_div_pos_eq [of v k q "v - k * q"]) simp_all

lemma version_digit: "version_field raw div 4096 mod 16 = 7"
  using field_ranges(2) [of raw] int_div_eq [of 4096 7 "version_field raw"] by simp

lemma variant_digit: "variant_field raw div 4096 mod 16 \<in> {8, 9, 10, 11}"
proof -
  have "variant_field raw div 4096 = 8 \<or> variant_field raw div 4096 = 9 \<or>
        variant_field raw div 4096 = 10 \<or> variant_field raw div 4096 = 11"
    using field_ranges(3) [of raw] int_div_eq [of 4096 _ "variant_field raw"] by fastforce
  then show ?thesis by auto
qed

text \<open>The 12 + 14 + 48 random bits.\<close>

definition random_bits :: "bytes \<Rightarrow> int \<times> int \<times> bytes" where
  "random_bits raw =
     (from_bytes (take 2 (drop 6 raw)) mod 2 ^ 12, from_bytes (take 2 (drop 8 raw)) mod 2 ^ 14,
      drop 10 raw)"

section \<open>Properties\<close>

text \<open>C34: the id has the shape of RFC 9562: 32 hexadecimal digits, version digit 7, a variant
  digit from 8 to b, and the millisecond timestamp in its first 48 bits.\<close>

theorem uuid7_shape:
  assumes "length raw = 16"
  shows "length (uuid7 raw now) = 32 \<and> uuid7 raw now ! 12 = CHR ''7'' \<and>
     uuid7 raw now ! 16 \<in> set ''89ab'' \<and> of_hex (take 12 (uuid7 raw now)) = now mod 2 ^ 48"
proof -
  have ne: "hex_of 4 n \<noteq> []" for n by (metis length_hex_of list.size(3) zero_neq_numeral)
  have "uuid7 raw now ! 12 = hd (hex_of 4 (version_field raw))"
    unfolding uuid7_hex by (subst nth_append_hd) (simp_all add: ne)
  moreover have "uuid7 raw now ! 16 = hd (hex_of 4 (variant_field raw))"
    unfolding uuid7_hex append_assoc [symmetric]
    by (subst append_assoc, subst nth_append_hd) (simp_all add: ne)
  moreover have "of_hex (take 12 (uuid7 raw now)) = now mod 2 ^ 48"
    using field_ranges(1) [of now] of_hex_hex_of [of "timestamp_field now" 12]
    by (simp add: uuid7_hex timestamp_field_mod)
  moreover have "length (uuid7 raw now) = 32" using assms by (simp add: uuid7_hex)
  ultimately show ?thesis using version_digit [of raw] variant_digit [of raw]
    by (auto simp: hex_of_hd hex_digit_def)
qed

theorem uuid7_shape_witness:
  "of_hex (take 12 (uuid7 (replicate 16 255) 1700000000000)) = 1700000000000"
  using uuid7_shape [of "replicate 16 255" 1700000000000] by simp

text \<open>C35: ids sort by creation time: of two ids made in different milliseconds (of the 48-bit
  epoch) the earlier one is smaller as a string, whatever the random bits.\<close>

theorem uuid7_sorted:
  assumes "0 \<le> now1" and "now1 < now2" and "now2 < 2 ^ 48"
  shows "uuid7 raw1 now1 < uuid7 raw2 now2"
  using assms hex_of_less [of now1 now2 12]
  by (simp add: uuid7_hex timestamp_field_mod str_less_append)

theorem uuid7_sorted_witness:
  "uuid7 (replicate 16 255) 1700000000000 < uuid7 (replicate 16 0) 1700000000001"
  by (rule uuid7_sorted) simp_all

text \<open>Two ids are equal exactly when their milliseconds and all 74 random bits are: fixing the
  version and the variant loses nothing else.\<close>

theorem uuid7_collision:
  "uuid7 raw1 now1 = uuid7 raw2 now2 \<longleftrightarrow>
     now1 mod 2 ^ 48 = now2 mod 2 ^ 48 \<and> random_bits raw1 = random_bits raw2"
  using field_ranges(1) [of now1] field_ranges(1) [of now2]
    fields_fit(1) [of now1] fields_fit(1) [of now2]
    fields_fit(2,3) [of raw1] fields_fit(2,3) [of raw2]
  by (auto simp: uuid7_def uuid7_bytes_def hex_inj to_bytes_inj random_bits_def
      timestamp_field_mod version_field_sum variant_field_sum)

end
