(* ===== verification/Threads.thy ===== *)
theory Threads
  imports Uuid7
begin

text \<open>
  \<open>threads.py\<close>: the two built-in thread stores. The in-memory store is a dict of records; the
  SQLite store is a connection to a table of rows whose metadata column holds JSON text.
  Clock readings (ISO texts for the columns, milliseconds for the id) and random bytes are
  arguments. Both stores implement one interface, stated as a locale: they answer as a map
  from ids to records.
\<close>

record thread_record =
  tr_thread_id :: string
  tr_metadata :: dict
  tr_assistant_id :: "string option"
  tr_created_at :: string
  tr_updated_at :: string

definition fresh_record :: "string \<Rightarrow> bytes \<Rightarrow> int \<Rightarrow> dict option \<Rightarrow> thread_record" where
  "fresh_record now raw ms metadata =
     \<lparr>tr_thread_id = uuid7 raw ms, tr_metadata = (case metadata of Some d \<Rightarrow> d | None \<Rightarrow> []),
      tr_assistant_id = None, tr_created_at = now, tr_updated_at = now\<rparr>"

section \<open>MemoryThreadStore\<close>

type_synonym memory_store = "(string, thread_record) pydict"

text \<open>\<open>memory()\<close>: the store a protocol starts with.\<close>

definition no_threads :: memory_store where
  "no_threads = []"

definition memory_create ::
  "string \<Rightarrow> bytes \<Rightarrow> int \<Rightarrow> dict option \<Rightarrow> memory_store \<Rightarrow> exn + (thread_record \<times> memory_store)" where
  "memory_create now raw ms metadata st =
     (let r = fresh_record now raw ms metadata
      in Inr (r, dset (tr_thread_id r) r st))"

definition memory_get :: "string \<Rightarrow> memory_store \<Rightarrow> exn + thread_record option" where
  "memory_get tid st = Inr (dget st tid)"

definition memory_set_assistant :: "string \<Rightarrow> string \<Rightarrow> string \<Rightarrow> memory_store \<Rightarrow> exn + memory_store" where
  "memory_set_assistant now tid aid st =
     (case dget st tid of
        None \<Rightarrow> Inr st
      | Some r \<Rightarrow> Inr (dset tid (r\<lparr>tr_assistant_id := Some aid, tr_updated_at := now\<rparr>) st))"

section \<open>SqliteThreadStore\<close>

record thread_row =
  w_thread_id :: string
  w_metadata_json :: string
  w_assistant_id :: "string option"
  w_created_at :: string
  w_updated_at :: string

record sqlite_store =
  q_open :: bool
  q_rows :: "thread_row list"

text \<open>
  Opening a database file: \<open>None\<close> is a file without the table, which
  \<open>CREATE TABLE IF NOT EXISTS\<close> then makes.
\<close>

definition sqlite_connect :: "thread_row list option \<Rightarrow> sqlite_store" where
  "sqlite_connect table =
     \<lparr>q_open = True, q_rows = (case table of None \<Rightarrow> [] | Some rows \<Rightarrow> rows)\<rparr>"

definition sqlite_close :: "sqlite_store \<Rightarrow> sqlite_store" where
  "sqlite_close st = st\<lparr>q_open := False\<rparr>"

definition closed_error :: exn where
  "closed_error = Exn ''ProgrammingError'' ''Cannot operate on a closed database.''"

definition select_row :: "string \<Rightarrow> thread_row list \<Rightarrow> thread_row option" where
  "select_row tid rows = List.find (\<lambda>w. w_thread_id w = tid) rows"

text \<open>\<open>json.dumps\<close> runs before the statement; the primary key refuses a second row with an id.\<close>

definition sqlite_create ::
  "string \<Rightarrow> bytes \<Rightarrow> int \<Rightarrow> dict option \<Rightarrow> sqlite_store \<Rightarrow> exn + (thread_record \<times> sqlite_store)" where
  "sqlite_create now raw ms metadata st =
     (let r = fresh_record now raw ms metadata
      in case json_dumps '', '' '': '' (PDict (tr_metadata r)) of
           Inl e \<Rightarrow> Inl e
         | Inr j \<Rightarrow>
             if \<not> q_open st then Inl closed_error
             else if select_row (tr_thread_id r) (q_rows st) \<noteq> None
             then Inl (Exn ''IntegrityError'' ''UNIQUE constraint failed: threads.thread_id'')
             else Inr (r, st\<lparr>q_rows := q_rows st @
                    [\<lparr>w_thread_id = tr_thread_id r, w_metadata_json = j, w_assistant_id = None,
                      w_created_at = now, w_updated_at = now\<rparr>]\<rparr>))"

text \<open>Only \<open>JSONDecodeError\<close> and \<open>TypeError\<close> are caught; data that is no dict counts as empty.\<close>

definition read_metadata :: "string \<Rightarrow> exn + dict" where
  "read_metadata j =
     (if j = [] then Inr []
      else (case json_loads j of
              Inr v \<Rightarrow> Inr (case v of PDict d \<Rightarrow> d | _ \<Rightarrow> [])
            | Inl e \<Rightarrow> if exn_type e \<in> {''JSONDecodeError'', ''TypeError''} then Inr [] else Inl e))"

definition sqlite_get :: "string \<Rightarrow> sqlite_store \<Rightarrow> exn + thread_record option" where
  "sqlite_get tid st =
     (if \<not> q_open st then Inl closed_error
      else (case select_row tid (q_rows st) of
              None \<Rightarrow> Inr None
            | Some w \<Rightarrow>
                (case read_metadata (w_metadata_json w) of
                   Inl e \<Rightarrow> Inl e
                 | Inr md \<Rightarrow>
                     Inr (Some \<lparr>tr_thread_id = w_thread_id w, tr_metadata = md,
                                tr_assistant_id = w_assistant_id w,
                                tr_created_at = w_created_at w, tr_updated_at = w_updated_at w\<rparr>))))"

definition sqlite_set_assistant :: "string \<Rightarrow> string \<Rightarrow> string \<Rightarrow> sqlite_store \<Rightarrow> exn + sqlite_store" where
  "sqlite_set_assistant now tid aid st =
     (if \<not> q_open st then Inl closed_error
      else Inr (st\<lparr>q_rows := map (\<lambda>w. if w_thread_id w = tid
                                    then w\<lparr>w_assistant_id := Some aid, w_updated_at := now\<rparr> else w)
                             (q_rows st)\<rparr>))"

section \<open>The interface\<close>

text \<open>
  What the router relies on. A store answers as a map; \<open>inv\<close> are its reachable states and
  \<open>storable\<close> the metadata it keeps.
\<close>

locale thread_store =
  fixes create :: "string \<Rightarrow> bytes \<Rightarrow> int \<Rightarrow> dict option \<Rightarrow> 's \<Rightarrow> exn + (thread_record \<times> 's)"
    and get :: "string \<Rightarrow> 's \<Rightarrow> exn + thread_record option"
    and set_assistant :: "string \<Rightarrow> string \<Rightarrow> string \<Rightarrow> 's \<Rightarrow> exn + 's"
    and inv :: "'s \<Rightarrow> bool"
    and storable :: "dict option \<Rightarrow> bool"
  assumes get_total: "inv s \<Longrightarrow> \<exists>r. get tid s = Inr r"
    and create_fresh: "inv s \<Longrightarrow> storable md \<Longrightarrow> get (uuid7 raw ms) s = Inr None \<Longrightarrow>
      \<exists>s'. create now raw ms md s = Inr (fresh_record now raw ms md, s') \<and> inv s' \<and>
        (\<forall>tid. get tid s' = (if tid = uuid7 raw ms then Inr (Some (fresh_record now raw ms md))
                             else get tid s))"
    and set_known: "inv s \<Longrightarrow>
      \<exists>s'. set_assistant now tid aid s = Inr s' \<and> inv s' \<and>
        (\<forall>k. get k s' =
           (if k = tid
            then map_sum id (map_option (\<lambda>r. r\<lparr>tr_assistant_id := Some aid, tr_updated_at := now\<rparr>)) (get k s)
            else get k s))"

text \<open>Operations on a store, and the map they act on.\<close>

datatype store_op =
    Create string bytes int "dict option"
  | SetAssistant string string string

type_synonym thread_map = "string \<Rightarrow> thread_record option"

fun spec_op :: "store_op \<Rightarrow> thread_map \<Rightarrow> thread_map" where
  "spec_op (Create now raw ms md) t = t(uuid7 raw ms \<mapsto> fresh_record now raw ms md)"
| "spec_op (SetAssistant now tid aid) t =
     t(tid := map_option (\<lambda>r. r\<lparr>tr_assistant_id := Some aid, tr_updated_at := now\<rparr>) (t tid))"

fun created_id :: "store_op \<Rightarrow> string option" where
  "created_id (Create now raw ms md) = Some (uuid7 raw ms)"
| "created_id (SetAssistant now tid aid) = None"

text \<open>Ids of a history are new when they are made, and its metadata is storable.\<close>

fun history_ok :: "(dict option \<Rightarrow> bool) \<Rightarrow> thread_map \<Rightarrow> store_op list \<Rightarrow> bool" where
  "history_ok P t [] = True"
| "history_ok P t (op # ops) =
     ((case op of Create now raw ms md \<Rightarrow> t (uuid7 raw ms) = None \<and> P md | _ \<Rightarrow> True) \<and>
      history_ok P (spec_op op t) ops)"

fun run_ops ::
  "(string \<Rightarrow> bytes \<Rightarrow> int \<Rightarrow> dict option \<Rightarrow> 's \<Rightarrow> exn + (thread_record \<times> 's)) \<Rightarrow>
   (string \<Rightarrow> string \<Rightarrow> string \<Rightarrow> 's \<Rightarrow> exn + 's) \<Rightarrow> store_op list \<Rightarrow> 's \<Rightarrow> exn + 's" where
  "run_ops cr sa [] s = Inr s"
| "run_ops cr sa (Create now raw ms md # ops) s =
     (case cr now raw ms md s of Inl e \<Rightarrow> Inl e | Inr (r, s') \<Rightarrow> run_ops cr sa ops s')"
| "run_ops cr sa (SetAssistant now tid aid # ops) s =
     (case sa now tid aid s of Inl e \<Rightarrow> Inl e | Inr s' \<Rightarrow> run_ops cr sa ops s')"

context thread_store
begin

definition represents :: "thread_map \<Rightarrow> 's \<Rightarrow> bool" where
  "represents t s = (inv s \<and> (\<forall>tid. get tid s = Inr (t tid)))"

lemma represents_op:
  assumes "represents t s"
    and "case op of Create now raw ms md \<Rightarrow> t (uuid7 raw ms) = None \<and> storable md | _ \<Rightarrow> True"
  shows "\<exists>s'. run_ops create set_assistant [op] s = Inr s' \<and> represents (spec_op op t) s'"
proof (cases op)
  case (Create now raw ms md)
  with assms have c: "inv s" "storable md" "get (uuid7 raw ms) s = Inr None"
    by (simp_all add: represents_def)
  from create_fresh [OF c, of now] obtain s' where
    s': "create now raw ms md s = Inr (fresh_record now raw ms md, s')" "inv s'"
    "\<forall>tid. get tid s' = (if tid = uuid7 raw ms then Inr (Some (fresh_record now raw ms md)) else get tid s)"
    by blast
  from s'(3) assms(1) have "represents (spec_op op t) s'" using s'(2)
    by (simp add: represents_def Create)
  with s'(1) show ?thesis by (simp add: Create)
next
  case (SetAssistant now tid aid)
  from assms have "inv s" by (simp add: represents_def)
  from set_known [OF this, of now tid aid] obtain s' where
    s': "set_assistant now tid aid s = Inr s'" "inv s'"
    "\<forall>k. get k s' = (if k = tid
            then map_sum id (map_option (\<lambda>r. r\<lparr>tr_assistant_id := Some aid, tr_updated_at := now\<rparr>)) (get k s)
            else get k s)" by blast
  from s'(3) assms(1) have "represents (spec_op op t) s'" using s'(2)
    by (simp add: represents_def SetAssistant)
  with s'(1) show ?thesis by (simp add: SetAssistant)
qed

lemma run_ops_Cons:
  "run_ops create set_assistant (op # ops) s =
     (case run_ops create set_assistant [op] s of
        Inl e \<Rightarrow> Inl e | Inr s' \<Rightarrow> run_ops create set_assistant ops s')"
  by (cases op) (auto split: sum.split prod.split)

lemma represents_run:
  "represents t s \<Longrightarrow> history_ok storable t ops \<Longrightarrow>
   \<exists>s'. run_ops create set_assistant ops s = Inr s' \<and> represents (fold spec_op ops t) s'"
proof (induction ops arbitrary: t s)
  case Nil
  then show ?case by simp
next
  case (Cons op ops)
  then obtain s1 where "run_ops create set_assistant [op] s = Inr s1" "represents (spec_op op t) s1"
    using represents_op [of t s op] by (auto split: store_op.splits)
  with Cons.IH [of "spec_op op t" s1] Cons.prems(2) run_ops_Cons [of op ops s] show ?case by simp
qed

end

section \<open>Both stores implement it\<close>

definition any_metadata :: "dict option \<Rightarrow> bool" where
  "any_metadata md = True"

interpretation memory: thread_store memory_create memory_get memory_set_assistant dict_wf any_metadata
proof unfold_locales
  fix s :: memory_store and now raw ms md
  assume "dict_wf s"
  then show "\<exists>s'. memory_create now raw ms md s = Inr (fresh_record now raw ms md, s') \<and> dict_wf s' \<and>
        (\<forall>tid. memory_get tid s' = (if tid = uuid7 raw ms then Inr (Some (fresh_record now raw ms md))
                             else memory_get tid s))"
    by (simp add: memory_create_def memory_get_def Let_def fresh_record_def)
next
  fix s :: memory_store and now tid aid
  assume "dict_wf s"
  then show "\<exists>s'. memory_set_assistant now tid aid s = Inr s' \<and> dict_wf s' \<and>
        (\<forall>k. memory_get k s' =
           (if k = tid
            then map_sum id (map_option (\<lambda>r. r\<lparr>tr_assistant_id := Some aid, tr_updated_at := now\<rparr>)) (memory_get k s)
            else memory_get k s))"
    by (simp add: memory_set_assistant_def memory_get_def split: option.split)
qed (simp add: memory_get_def)

text \<open>
  The SQLite store keeps metadata that JSON can express. In its reachable states every row
  holds the text of such a dict.
\<close>

definition json_metadata :: "dict option \<Rightarrow> bool" where
  "json_metadata md = json_ok (PDict (case md of Some d \<Rightarrow> d | None \<Rightarrow> []))"

definition row_ok :: "thread_row \<Rightarrow> bool" where
  "row_ok w = (\<exists>d. read_metadata (w_metadata_json w) = Inr d)"

definition sqlite_inv :: "sqlite_store \<Rightarrow> bool" where
  "sqlite_inv st = (q_open st \<and> list_all row_ok (q_rows st))"

lemma select_row_append: "select_row tid (ws @ [w]) =
   (case select_row tid ws of Some v \<Rightarrow> Some v | None \<Rightarrow> if w_thread_id w = tid then Some w else None)"
  by (induction ws) (simp_all add: select_row_def)

lemma select_row_map:
  assumes "\<And>w. w_thread_id (f w) = w_thread_id w"
  shows "select_row tid (map f ws) = map_option f (select_row tid ws)"
  using assms by (induction ws) (simp_all add: select_row_def)

lemma select_row_Some: "select_row tid ws = Some w \<Longrightarrow> w \<in> set ws \<and> w_thread_id w = tid"
  by (induction ws) (auto simp: select_row_def split: if_splits)

lemma sqlite_get_None:
  "q_open st \<Longrightarrow> list_all row_ok (q_rows st) \<Longrightarrow>
   sqlite_get tid st = Inr None \<longleftrightarrow> select_row tid (q_rows st) = None"
  by (auto simp: sqlite_get_def row_ok_def list_all_iff dest!: select_row_Some
      split: option.split sum.split)

lemma default_separators: "separators '', '' '': ''"
  by (simp add: separators_def is_ws_def)

lemma read_metadata_dumps:
  assumes "json_ok (PDict d)"
  shows "\<exists>j. json_dumps '', '' '': '' (PDict d) = Inr j \<and> read_metadata j = Inr d"
  using json_roundtrip_law [OF default_separators assms] by (auto simp: read_metadata_def)

lemma sqlite_create_law:
  assumes "sqlite_inv st" and "json_metadata md" and "sqlite_get (uuid7 raw ms) st = Inr None"
  shows "\<exists>st'. sqlite_create now raw ms md st = Inr (fresh_record now raw ms md, st') \<and> sqlite_inv st' \<and>
     (\<forall>tid. sqlite_get tid st' = (if tid = uuid7 raw ms then Inr (Some (fresh_record now raw ms md))
                                 else sqlite_get tid st))"
proof -
  let ?r = "fresh_record now raw ms md"
  obtain j where j: "json_dumps '', '' '': '' (PDict (tr_metadata ?r)) = Inr j" "read_metadata j = Inr (tr_metadata ?r)"
    using read_metadata_dumps assms(2) by (fastforce simp: json_metadata_def fresh_record_def)
  have st: "q_open st" "list_all row_ok (q_rows st)" using assms(1) by (simp_all add: sqlite_inv_def)
  then have none: "select_row (tr_thread_id ?r) (q_rows st) = None"
    using sqlite_get_None [OF st] assms(3) by (simp add: fresh_record_def)
  let ?w = "\<lparr>w_thread_id = tr_thread_id ?r, w_metadata_json = j, w_assistant_id = None,
             w_created_at = now, w_updated_at = now\<rparr>"
  have "sqlite_create now raw ms md st = Inr (?r, st\<lparr>q_rows := q_rows st @ [?w]\<rparr>)"
    using j(1) st(1) none by (simp add: sqlite_create_def Let_def)
  moreover have "sqlite_inv (st\<lparr>q_rows := q_rows st @ [?w]\<rparr>)"
    using st j(2) by (simp add: sqlite_inv_def row_ok_def)
  moreover have "sqlite_get tid (st\<lparr>q_rows := q_rows st @ [?w]\<rparr>) =
     (if tid = uuid7 raw ms then Inr (Some ?r) else sqlite_get tid st)" for tid
    using st(1) none j(2)
    by (auto simp: sqlite_get_def select_row_append fresh_record_def split: option.split)
  ultimately show ?thesis by blast
qed

lemma sqlite_set_law:
  assumes "sqlite_inv st"
  shows "\<exists>st'. sqlite_set_assistant now tid aid st = Inr st' \<and> sqlite_inv st' \<and>
     (\<forall>k. sqlite_get k st' =
        (if k = tid
         then map_sum id (map_option (\<lambda>r. r\<lparr>tr_assistant_id := Some aid, tr_updated_at := now\<rparr>)) (sqlite_get k st)
         else sqlite_get k st))"
proof -
  let ?f = "\<lambda>w. if w_thread_id w = tid then w\<lparr>w_assistant_id := Some aid, w_updated_at := now\<rparr> else w"
  let ?st = "st\<lparr>q_rows := map ?f (q_rows st)\<rparr>"
  have st: "q_open st" "list_all row_ok (q_rows st)" using assms by (simp_all add: sqlite_inv_def)
  then have "sqlite_inv ?st" by (auto simp: sqlite_inv_def row_ok_def list_all_iff)
  moreover have "sqlite_get k ?st =
     (if k = tid
      then map_sum id (map_option (\<lambda>r. r\<lparr>tr_assistant_id := Some aid, tr_updated_at := now\<rparr>)) (sqlite_get k st)
      else sqlite_get k st)" for k
    using st(1)
    by (auto simp: sqlite_get_def select_row_map split: option.split sum.split dest: select_row_Some)
  ultimately show ?thesis using st(1) by (simp add: sqlite_set_assistant_def)
qed

interpretation sqlite: thread_store sqlite_create sqlite_get sqlite_set_assistant sqlite_inv json_metadata
proof unfold_locales
  show "sqlite_inv s \<Longrightarrow> \<exists>r. sqlite_get tid s = Inr r" for s tid
    by (auto simp: sqlite_inv_def sqlite_get_def row_ok_def list_all_iff dest!: select_row_Some
        split: option.split sum.split)
qed (use sqlite_create_law sqlite_set_law in blast)+

lemma history_ok_mono: "history_ok P t ops \<Longrightarrow> (\<And>md. P md \<Longrightarrow> Q md) \<Longrightarrow> history_ok Q t ops"
  by (induction ops arbitrary: t) (auto split: store_op.splits)

lemma history_ok_append:
  "history_ok P t (ops1 @ ops2) \<longleftrightarrow> history_ok P t ops1 \<and> history_ok P (fold spec_op ops1 t) ops2"
  by (induction ops1 arbitrary: t) auto

abbreviation memory_run :: "store_op list \<Rightarrow> memory_store \<Rightarrow> exn + memory_store" where
  "memory_run \<equiv> run_ops memory_create memory_set_assistant"

abbreviation sqlite_run :: "store_op list \<Rightarrow> sqlite_store \<Rightarrow> exn + sqlite_store" where
  "sqlite_run \<equiv> run_ops sqlite_create sqlite_set_assistant"

lemma memory_represents_new: "memory.represents Map.empty []"
  by (simp add: memory.represents_def memory_get_def)

lemma sqlite_represents_new: "sqlite.represents Map.empty (sqlite_connect None)"
  by (simp add: sqlite.represents_def sqlite_connect_def sqlite_get_def sqlite_inv_def select_row_def)

lemma sqlite_represents_reopen:
  assumes "sqlite.represents t q"
  shows "sqlite.represents t (sqlite_connect (Some (q_rows (sqlite_close q))))"
proof -
  have "q_open q" using assms by (simp add: sqlite.represents_def sqlite_inv_def)
  then have "sqlite_connect (Some (q_rows (sqlite_close q))) = q"
    by (simp add: sqlite_connect_def sqlite_close_def)
  with assms show ?thesis by simp
qed

section \<open>Properties\<close>

text \<open>C17: the two stores cannot be told apart: after every history of operations whose ids are new
  and whose metadata is JSON data, both have succeeded and answer every \<open>get\<close> alike, with the
  record the history gives that id.\<close>

theorem stores_equivalent:
  assumes "history_ok json_metadata Map.empty ops"
  shows "\<exists>m q. memory_run ops [] = Inr m \<and> sqlite_run ops (sqlite_connect None) = Inr q \<and>
     (\<forall>tid. memory_get tid m = Inr (fold spec_op ops Map.empty tid) \<and>
            sqlite_get tid q = Inr (fold spec_op ops Map.empty tid))"
proof -
  have "history_ok any_metadata Map.empty ops"
    using assms by (rule history_ok_mono) (simp add: any_metadata_def)
  from memory.represents_run [OF memory_represents_new this]
    sqlite.represents_run [OF sqlite_represents_new assms]
  show ?thesis by (auto simp: memory.represents_def sqlite.represents_def)
qed

definition demo_history :: "store_op list" where
  "demo_history =
     [Create ''t0'' (replicate 16 1) 1000 (Some [(''owner'', PStr ''ann'')]),
      SetAssistant ''t1'' (uuid7 (replicate 16 1) 1000) ''support'']"

lemma demo_history_ok: "history_ok json_metadata Map.empty demo_history"
  by (simp add: demo_history_def json_metadata_def dict_wf_def dkeys_def)

theorem stores_equivalent_witness:
  "\<exists>m q. memory_run demo_history [] = Inr m \<and> sqlite_run demo_history (sqlite_connect None) = Inr q \<and>
     (\<forall>tid. memory_get tid m = sqlite_get tid q)"
  using stores_equivalent [OF demo_history_ok] by fastforce



text \<open>An id that already exists: the SQLite store refuses the second thread and keeps the first;
  the in-memory store replaces the first thread's record.\<close>

theorem duplicate_id:
  assumes "json_metadata md"
    and "sqlite_get (uuid7 raw ms) q = Inr (Some r)" and "memory_get (uuid7 raw ms) m = Inr (Some r)"
  shows "(\<exists>msg. sqlite_create now raw ms md q = Inl (Exn ''IntegrityError'' msg)) \<and>
     (\<exists>m'. memory_create now raw ms md m = Inr (fresh_record now raw ms md, m') \<and>
           memory_get (uuid7 raw ms) m' = Inr (Some (fresh_record now raw ms md)))"
proof -
  from assms(1) obtain j where "json_dumps '', '' '': '' (PDict (tr_metadata (fresh_record now raw ms md))) = Inr j"
    using read_metadata_dumps by (fastforce simp: json_metadata_def fresh_record_def)
  moreover from assms(2) have "q_open q" "select_row (uuid7 raw ms) (q_rows q) \<noteq> None"
    by (auto simp: sqlite_get_def split: if_splits option.splits)
  ultimately show ?thesis
    by (auto simp: sqlite_create_def Let_def memory_create_def memory_get_def fresh_record_def)
qed

theorem duplicate_id_witness:
  "\<exists>q m. sqlite_run demo_history (sqlite_connect None) = Inr q \<and> memory_run demo_history [] = Inr m \<and>
     (\<exists>msg. sqlite_create ''t9'' (replicate 16 1) 1000 None q = Inl (Exn ''IntegrityError'' msg))"
proof -
  let ?r = "(fresh_record ''t0'' (replicate 16 1) 1000 (Some [(''owner'', PStr ''ann'')]))
      \<lparr>tr_assistant_id := Some ''support'', tr_updated_at := ''t1''\<rparr>"
  have "history_ok any_metadata Map.empty demo_history"
    using demo_history_ok by (rule history_ok_mono) (simp add: any_metadata_def)
  from memory.represents_run [OF memory_represents_new this]
    sqlite.represents_run [OF sqlite_represents_new demo_history_ok]
  obtain m q where run: "memory_run demo_history [] = Inr m" "sqlite_run demo_history (sqlite_connect None) = Inr q"
    and rep: "memory_get (uuid7 (replicate 16 1) 1000) m = Inr (fold spec_op demo_history Map.empty (uuid7 (replicate 16 1) 1000))"
    "sqlite_get (uuid7 (replicate 16 1) 1000) q = Inr (fold spec_op demo_history Map.empty (uuid7 (replicate 16 1) 1000))"
    by (auto simp: memory.represents_def sqlite.represents_def)
  have "fold spec_op demo_history Map.empty (uuid7 (replicate 16 1) 1000) = Some ?r"
    by (simp add: demo_history_def)
  with rep have "memory_get (uuid7 (replicate 16 1) 1000) m = Inr (Some ?r)"
    "sqlite_get (uuid7 (replicate 16 1) 1000) q = Inr (Some ?r)" by simp_all
  moreover have "json_metadata None" by (simp add: json_metadata_def)
  ultimately show ?thesis using duplicate_id [of None "replicate 16 1" 1000 q ?r m "''t9''"] run by blast
qed

end
