(* ===== verification/Router.thy ===== *)
theory Router
  imports Runner Threads
begin

text \<open>
  The endpoints of \<open>router.py\<close>. A handler takes the parsed request body (or the exception of
  parsing it) and the server's state to a reply, an HTTP status and a JSON value, or to the
  exception that leaves it, which the framework answers with status 500. Here a handler runs
  without interruption; how starts and runs interleave is the subject of \<open>Runner\<close>. The thread
  store is any store: its operations are a record.
\<close>

section \<open>The server\<close>

record 's store_ops =
  so_create :: "string \<Rightarrow> bytes \<Rightarrow> int \<Rightarrow> dict option \<Rightarrow> 's \<Rightarrow> exn + (thread_record \<times> 's)"
  so_get :: "string \<Rightarrow> 's \<Rightarrow> exn + thread_record option"
  so_set :: "string \<Rightarrow> string \<Rightarrow> string \<Rightarrow> 's \<Rightarrow> exn + 's"

record 's server =
  v_store :: 's
  v_manager :: manager

type_synonym reply = "exn + (nat \<times> pyval)"

type_synonym body = "exn + pyval"

definition error_envelope :: "pyval \<Rightarrow> string \<Rightarrow> string \<Rightarrow> nat \<times> pyval" where
  "error_envelope cmd_id code message =
     (200, PDict [(''type'', PStr ''error''), (''id'', cmd_id), (''error'', PStr code), (''message'', PStr message)])"

definition success_envelope :: "pyval \<Rightarrow> dict \<Rightarrow> nat \<times> pyval" where
  "success_envelope cmd_id result =
     (200, PDict [(''type'', PStr ''success''), (''id'', cmd_id), (''result'', PDict result)])"

definition detail :: "nat \<Rightarrow> string \<Rightarrow> nat \<times> pyval" where
  "detail status text = (status, PDict [(''detail'', PStr text)])"

definition not_found :: "nat \<times> pyval" where
  "not_found = detail 404 ''thread not found''"

text \<open>A body that is not a JSON object, or not JSON at all, counts as an empty one.\<close>

definition body_dict :: "body \<Rightarrow> dict" where
  "body_dict b = (case b of Inr (PDict d) \<Rightarrow> d | _ \<Rightarrow> [])"

section \<open>Threads and state\<close>

definition record_reply :: "thread_record \<Rightarrow> pyval" where
  "record_reply r =
     PDict [(''thread_id'', PStr (tr_thread_id r)), (''created_at'', PStr (tr_created_at r)),
            (''updated_at'', PStr (tr_updated_at r)), (''state_updated_at'', PNone),
            (''metadata'', PDict (tr_metadata r)), (''status'', PStr ''idle''),
            (''config'', PDict []), (''values'', PNone)]"

definition create_thread ::
  "'s store_ops \<Rightarrow> string \<Rightarrow> bytes \<Rightarrow> int \<Rightarrow> body \<Rightarrow> 's server \<Rightarrow> reply \<times> 's server" where
  "create_thread ops now raw ms b sv =
     (let metadata = (case dget (body_dict b) ''metadata'' of Some (PDict d) \<Rightarrow> d | _ \<Rightarrow> [])
      in case so_create ops now raw ms (Some metadata) (v_store sv) of
           Inl e \<Rightarrow> (Inl e, sv)
         | Inr (r, st) \<Rightarrow> (Inr (200, record_reply r), sv\<lparr>v_store := st\<rparr>))"

definition state_graph :: "'s store_ops \<Rightarrow> string \<Rightarrow> 's server \<Rightarrow> exn + run_graph option" where
  "state_graph ops tid sv =
     (case so_get ops tid (v_store sv) of
        Inl e \<Rightarrow> Inl e
      | Inr rec \<Rightarrow>
          (case (case rec of None \<Rightarrow> None | Some r \<Rightarrow> tr_assistant_id r) of
             None \<Rightarrow> Inr None
           | Some aid \<Rightarrow>
               (case resolve (m_registry (v_manager sv)) (PStr aid) PNone of
                  Inl e \<Rightarrow> Inl e
                | Inr g \<Rightarrow> Inr (Some g))))"

definition is_unknown_assistant :: "exn \<Rightarrow> bool" where
  "is_unknown_assistant e = (exn_type e = ''UnknownAssistantError'')"

definition get_state :: "(pyval \<Rightarrow> exn + pyval) \<Rightarrow> 's store_ops \<Rightarrow> string \<Rightarrow> 's server \<Rightarrow> reply" where
  "get_state mtd ops tid sv =
     (case so_get ops tid (v_store sv) of
        Inl e \<Rightarrow> Inl e
      | Inr None \<Rightarrow> Inr not_found
      | Inr (Some r) \<Rightarrow>
          (case state_graph ops tid sv of
             Inl e \<Rightarrow> if is_unknown_assistant e then Inr not_found else Inl e
           | Inr None \<Rightarrow> Inr (200, PDict (empty_state tid))
           | Inr (Some g) \<Rightarrow>
               (case read_thread_state mtd (rg_reads g) tid of
                  Inl e \<Rightarrow> Inl e
                | Inr st \<Rightarrow> Inr (200, PDict st))))"

text \<open>The cursor: a checkpoint id, or a config dict that holds one.\<close>

definition before_cursor :: "pyval \<Rightarrow> exn + string option" where
  "before_cursor before =
     (case before of
        PDict d \<Rightarrow>
          (case py_get (py_or (or_none (dget d ''configurable'')) (PDict [])) ''checkpoint_id'' of
             Inl e \<Rightarrow> Inl e
           | Inr v \<Rightarrow> Inr (as_str v))
      | _ \<Rightarrow> Inr (as_str before))"

definition history ::
  "(pyval \<Rightarrow> exn + pyval) \<Rightarrow> 's store_ops \<Rightarrow> string \<Rightarrow> int \<Rightarrow> pyval \<Rightarrow> 's server \<Rightarrow> reply" where
  "history mtd ops tid limit before sv =
     (case so_get ops tid (v_store sv) of
        Inl e \<Rightarrow> Inl e
      | Inr None \<Rightarrow> Inr not_found
      | Inr (Some r) \<Rightarrow>
          if limit < 1 then Inr (detail 422 ''limit must be >= 1'')
          else (case before_cursor before of
                  Inl e \<Rightarrow> Inl e
                | Inr cursor \<Rightarrow>
                    (case state_graph ops tid sv of
                       Inl e \<Rightarrow> if is_unknown_assistant e then Inr not_found else Inl e
                     | Inr None \<Rightarrow> Inr (200, PList [])
                     | Inr (Some g) \<Rightarrow>
                         (case read_thread_history mtd (rg_reads g) tid limit cursor of
                            Inl e \<Rightarrow> Inl e
                          | Inr out \<Rightarrow> Inr (200, PList out)))))"

definition search_history ::
  "(pyval \<Rightarrow> exn + pyval) \<Rightarrow> 's store_ops \<Rightarrow> string \<Rightarrow> body \<Rightarrow> 's server \<Rightarrow> reply" where
  "search_history mtd ops tid b sv =
     (let d = body_dict b;
          limit = (case as_int (or_none (dget d ''limit'')) of Some n \<Rightarrow> n | None \<Rightarrow> 10)
      in history mtd ops tid limit (or_none (dget d ''before'')) sv)"

definition get_history ::
  "(pyval \<Rightarrow> exn + pyval) \<Rightarrow> 's store_ops \<Rightarrow> string \<Rightarrow> int \<Rightarrow> string option \<Rightarrow> 's server \<Rightarrow> reply" where
  "get_history mtd ops tid limit before sv = history mtd ops tid limit (opt_str before) sv"

section \<open>Commands\<close>

text \<open>\<open>manager.start\<close> and \<open>manager.respond\<close>, awaited to the end.\<close>

definition run_to_end :: "exn + (nat \<times> manager) \<Rightarrow> manager \<Rightarrow> (exn + string) \<times> manager" where
  "run_to_end reserved m =
     (case reserved of
        Inl e \<Rightarrow> (Inl e, m)
      | Inr (i, m1) \<Rightarrow>
          (case m_starts m1 i of
             None \<Rightarrow> (Inl beyond_model, m1)
           | Some p \<Rightarrow> start_finish i p m1))"

definition manager_start ::
  "string \<Rightarrow> pyval \<Rightarrow> run_input \<Rightarrow> dict option \<Rightarrow> pyval \<Rightarrow> string \<Rightarrow> manager \<Rightarrow> (exn + string) \<times> manager" where
  "manager_start tid aid inp config metadata rid m =
     run_to_end (start_reserve tid aid inp config metadata rid m) m"

definition manager_respond ::
  "string \<Rightarrow> string \<Rightarrow> pyval \<Rightarrow> pyval \<Rightarrow> string \<Rightarrow> manager \<Rightarrow> (exn + string) \<times> manager" where
  "manager_respond tid iid response aid rid m =
     run_to_end (respond_reserve tid iid response aid rid m) m"

text \<open>The code of the typed run errors; other exceptions are not caught.\<close>

definition start_error :: "pyval \<Rightarrow> exn \<Rightarrow> reply" where
  "start_error cmd_id e =
     (if exn_type e = ''RunActiveError'' then Inr (error_envelope cmd_id ''invalid_argument'' (exn_str e))
      else if is_unknown_assistant e then Inr (error_envelope cmd_id ''unknown_command'' (exn_str e))
      else Inl e)"

definition respond_error :: "pyval \<Rightarrow> exn \<Rightarrow> reply" where
  "respond_error cmd_id e =
     (if exn_type e = ''UnknownInterruptError''
      then Inr (error_envelope cmd_id ''no_such_interrupt'' (exn_str e))
      else start_error cmd_id e)"

text \<open>\<open>run.start\<close>: the config with the stored metadata stamped into its \<open>configurable\<close>.\<close>

definition stamped_config :: "dict \<Rightarrow> pyval \<Rightarrow> exn + dict" where
  "stamped_config metadata raw =
     (case py_dict (py_or raw (PDict [])) of
        Inl e \<Rightarrow> Inl e
      | Inr config \<Rightarrow>
          (case py_dict (py_or (or_none (dget config ''configurable'')) (PDict [])) of
             Inl e \<Rightarrow> Inl e
           | Inr conf \<Rightarrow>
               Inr (dset ''configurable'' (PDict (dset ''session_metadata'' (PDict metadata) conf)) config)))"

definition command_start ::
  "'s store_ops \<Rightarrow> string \<Rightarrow> string \<Rightarrow> string \<Rightarrow> thread_record \<Rightarrow> pyval \<Rightarrow> dict \<Rightarrow> 's server \<Rightarrow> reply \<times> 's server" where
  "command_start ops now rid tid rec cmd_id params sv =
     (let aid = or_none (dget params ''assistant_id'')
      in if \<not> truthy aid then (Inr (error_envelope cmd_id ''invalid_argument'' ''missing assistant_id''), sv)
         else (case stamped_config (tr_metadata rec) (or_none (dget params ''config'')) of
                 Inl e \<Rightarrow> (Inl e, sv)
               | Inr config \<Rightarrow>
                   (case manager_start tid aid (Input (or_none (dget params ''input''))) (Some config)
                           (or_none (dget params ''metadata'')) rid (v_manager sv) of
                      (Inl e, m) \<Rightarrow> (start_error cmd_id e, sv\<lparr>v_manager := m\<rparr>)
                    | (Inr run_id, m) \<Rightarrow>
                        (case so_set ops now tid (py_str aid) (v_store sv) of
                           Inl e \<Rightarrow> (Inl e, sv\<lparr>v_manager := m\<rparr>)
                         | Inr st \<Rightarrow>
                             (Inr (success_envelope cmd_id [(''run_id'', PStr run_id)]),
                              \<lparr>v_store = st, v_manager = m\<rparr>)))))"

text \<open>\<open>{i["id"] for i in snapshot["interrupts"]}\<close>\<close>

definition pending_ids :: "dict \<Rightarrow> exn + pyval list" where
  "pending_ids st =
     (let ids = (case dget st ''interrupts'' of
                   Some (PList is) \<Rightarrow> map (\<lambda>i. case i of PDict d \<Rightarrow> or_none (dget d ''id'') | _ \<Rightarrow> PNone) is
                 | _ \<Rightarrow> [])
      in if list_all hashable ids then Inr ids else Inl (TypeError ''unhashable type''))"

definition no_such_interrupt :: "pyval \<Rightarrow> string \<Rightarrow> nat \<times> pyval" where
  "no_such_interrupt cmd_id iid =
     error_envelope cmd_id ''no_such_interrupt'' (''no pending interrupt '' @ iid)"

definition command_respond ::
  "(pyval \<Rightarrow> exn + pyval) \<Rightarrow> 's store_ops \<Rightarrow> string \<Rightarrow> string \<Rightarrow> pyval \<Rightarrow> dict \<Rightarrow> 's server \<Rightarrow> reply \<times> 's server" where
  "command_respond mtd ops rid tid cmd_id params sv =
     (let iid = py_str (py_or (or_none (dget params ''interrupt_id'')) (PStr []))
      in if iid = [] then (Inr (error_envelope cmd_id ''invalid_argument'' ''missing interrupt_id''), sv)
         else (case state_graph ops tid sv of
                 Inl e \<Rightarrow> (Inl e, sv)
               | Inr None \<Rightarrow> (Inr (no_such_interrupt cmd_id iid), sv)
               | Inr (Some g) \<Rightarrow>
                   (case read_thread_state mtd (rg_reads g) tid of
                      Inl e \<Rightarrow> (Inl e, sv)
                    | Inr snap \<Rightarrow>
                        (case pending_ids snap of
                           Inl e \<Rightarrow> (Inl e, sv)
                         | Inr ids \<Rightarrow>
                             if PStr iid \<notin> set ids then (Inr (no_such_interrupt cmd_id iid), sv)
                             else (case so_get ops tid (v_store sv) of
                                     Inl e \<Rightarrow> (Inl e, sv)
                                   | Inr stored \<Rightarrow>
                                       (case manager_respond tid iid (or_none (dget params ''response''))
                                               (case stored of
                                                  None \<Rightarrow> PNone
                                                | Some r \<Rightarrow> opt_str (tr_assistant_id r)) rid (v_manager sv) of
                                          (Inl e, m) \<Rightarrow> (respond_error cmd_id e, sv\<lparr>v_manager := m\<rparr>)
                                        | (Inr run_id, m) \<Rightarrow>
                                            (Inr (success_envelope cmd_id [(''run_id'', PStr run_id)]),
                                             sv\<lparr>v_manager := m\<rparr>)))))))"

definition command_state ::
  "(pyval \<Rightarrow> exn + pyval) \<Rightarrow> 's store_ops \<Rightarrow> string \<Rightarrow> pyval \<Rightarrow> 's server \<Rightarrow> reply" where
  "command_state mtd ops tid cmd_id sv =
     (case state_graph ops tid sv of
        Inl e \<Rightarrow>
          if is_unknown_assistant e
          then Inr (error_envelope cmd_id ''unknown_command''
                      (''assistant for thread '' @ tid @ '' is not registered''))
          else Inl e
      | Inr None \<Rightarrow> Inr (success_envelope cmd_id (empty_state tid))
      | Inr (Some g) \<Rightarrow>
          (case read_thread_state mtd (rg_reads g) tid of
             Inl e \<Rightarrow> Inl e
           | Inr snap \<Rightarrow> Inr (success_envelope cmd_id snap)))"

text \<open>\<open>params\<close> that is true but no object has no \<open>get\<close>.\<close>

definition with_params :: "pyval \<Rightarrow> 's server \<Rightarrow> (dict \<Rightarrow> reply \<times> 's server) \<Rightarrow> reply \<times> 's server" where
  "with_params params sv k =
     (case params of
        PDict d \<Rightarrow> k d
      | _ \<Rightarrow> (case py_get params ''assistant_id'' of Inl e \<Rightarrow> (Inl e, sv) | Inr v \<Rightarrow> (Inl beyond_model, sv)))"

definition dispatch_command ::
  "(pyval \<Rightarrow> exn + pyval) \<Rightarrow> 's store_ops \<Rightarrow> string \<Rightarrow> string \<Rightarrow> string \<Rightarrow> body \<Rightarrow> 's server \<Rightarrow> reply \<times> 's server" where
  "dispatch_command mtd ops now rid tid b sv =
     (case so_get ops tid (v_store sv) of
        Inl e \<Rightarrow> (Inl e, sv)
      | Inr None \<Rightarrow> (Inr not_found, sv)
      | Inr (Some rec) \<Rightarrow>
          (case b of
             Inl e \<Rightarrow> (Inr (error_envelope PNone ''invalid_argument'' ''invalid JSON body''), sv)
           | Inr (PDict body) \<Rightarrow>
               (let cmd_id = or_none (dget body ''id'');
                    meth = or_none (dget body ''method'');
                    params = py_or (or_none (dget body ''params'')) (PDict [])
                in if meth = PStr ''run.start''
                   then with_params params sv (\<lambda>d. command_start ops now rid tid rec cmd_id d sv)
                   else if meth = PStr ''input.respond''
                   then with_params params sv (\<lambda>d. command_respond mtd ops rid tid cmd_id d sv)
                   else if meth = PStr ''run.cancel''
                   then with_params params sv
                          (\<lambda>d. (Inr (success_envelope cmd_id []),
                               sv\<lparr>v_manager := snd (cancel tid (or_none (dget d ''run_id'')) (v_manager sv))\<rparr>))
                   else if meth = PStr ''state.get''
                   then (command_state mtd ops tid cmd_id sv, sv)
                   else (Inr (error_envelope cmd_id ''unknown_command'' (''unsupported method: '' @ py_str meth)), sv))
           | Inr v \<Rightarrow> (Inr (error_envelope PNone ''invalid_argument'' ''invalid command body''), sv)))"

section \<open>The other endpoints\<close>

definition cancel_run :: "'s store_ops \<Rightarrow> string \<Rightarrow> string \<Rightarrow> 's server \<Rightarrow> reply \<times> 's server" where
  "cancel_run ops tid rid sv =
     (case so_get ops tid (v_store sv) of
        Inl e \<Rightarrow> (Inl e, sv)
      | Inr None \<Rightarrow> (Inr not_found, sv)
      | Inr (Some r) \<Rightarrow>
          (let m = snd (cancel tid (PStr rid) (v_manager sv));
               status = (if active_run_of tid m = None then ''interrupted'' else ''cancelling'')
           in (Inr (200, PDict [(''run_id'', PStr rid), (''status'', PStr status)]), sv\<lparr>v_manager := m\<rparr>)))"

text \<open>The parameters of a stream request; of \<open>namespaces\<close> only the lists count.\<close>

definition stream_params ::
  "dict \<Rightarrow> pyval list option \<times> pyval list list option \<times> int option" where
  "stream_params d =
     ((case dget d ''channels'' of Some (PList cs) \<Rightarrow> Some cs | _ \<Rightarrow> None),
      (case dget d ''namespaces'' of
         Some (PList nss) \<Rightarrow> Some (List.map_filter (\<lambda>ns. case ns of PList xs \<Rightarrow> Some xs | _ \<Rightarrow> None) nss)
       | _ \<Rightarrow> None),
      as_int (or_none (dget d ''since'')))"

text \<open>Opening a stream: the reply is the address of the subscription the generator will read.\<close>

definition open_stream ::
  "'s store_ops \<Rightarrow> string \<Rightarrow> body \<Rightarrow> 's server \<Rightarrow> (exn + ((nat \<times> pyval) + nat)) \<times> 's server" where
  "open_stream ops tid b sv =
     (case so_get ops tid (v_store sv) of
        Inl e \<Rightarrow> (Inl e, sv)
      | Inr None \<Rightarrow> (Inr (Inl not_found), sv)
      | Inr (Some r) \<Rightarrow>
          (let (channels, namespaces, since) = stream_params (body_dict b);
               (h, hubs) = hub_of tid (m_hubs (v_manager sv))
           in case subscribe channels namespaces since h of
                Inl e \<Rightarrow> (Inl e, sv\<lparr>v_manager := (v_manager sv)\<lparr>m_hubs := hubs\<rparr>\<rparr>)
              | Inr (i, h') \<Rightarrow>
                  (Inr (Inr i), sv\<lparr>v_manager := (v_manager sv)\<lparr>m_hubs := put_hub tid h' hubs\<rparr>\<rparr>)))"

definition info :: "'s server \<Rightarrow> pyval" where
  "info sv =
     PDict [(''agents'', PList (map (\<lambda>aid. PDict [(''assistant_id'', PStr aid)])
                                 (assistant_ids (m_registry (v_manager sv)))))]"

section \<open>Facts about handlers\<close>

lemma is_unknown_unknown [simp]: "is_unknown_assistant (unknown_assistant aid known)"
  by (simp add: is_unknown_assistant_def unknown_assistant_def)

lemma manager_start_free:
  assumes "busy_run m tid = None"
  shows "\<exists>i p m1. start_reserve tid aid inp config metadata rid m = Inr (i, m1) \<and> m_starts m1 i = Some p \<and>
     manager_start tid aid inp config metadata rid m = start_finish i p m1 \<and>
     p = \<lparr>p_thread = tid, p_run_id = rid, p_assistant = aid, p_input = inp, p_config = config,
          p_metadata = metadata, p_outcome = resolve (m_registry m) aid (config_value config)\<rparr>"
  using assms by (simp add: manager_start_def run_to_end_def start_reserve_def Let_def)

lemma manager_respond_free:
  "manager_respond tid iid response aid rid m = (Inr r, m') \<Longrightarrow> busy_run m tid = None"
  by (auto simp: manager_respond_def run_to_end_def respond_reserve_def start_reserve_def
      split: sum.splits option.splits)

text \<open>A start succeeds only with a registered assistant.\<close>

lemma manager_start_Inr:
  assumes "manager_start tid aid inp config metadata rid m = (Inr r, m')"
  shows "r = rid \<and> busy_run m tid = None \<and> (\<exists>s. aid = PStr s \<and> dget (m_registry m) s \<noteq> None) \<and>
     m_registry m' = m_registry m \<and> m_last m' tid = Some aid"
proof -
  have b: "busy_run m tid = None"
    using assms by (auto simp: manager_start_def run_to_end_def start_reserve_def split: option.splits)
  from manager_start_free [OF b, of aid inp config metadata rid] assms
  obtain i p m1 where m1: "start_reserve tid aid inp config metadata rid m = Inr (i, m1)"
    "start_finish i p m1 = (Inr r, m')" and
    p: "p = \<lparr>p_thread = tid, p_run_id = rid, p_assistant = aid, p_input = inp, p_config = config,
          p_metadata = metadata, p_outcome = resolve (m_registry m) aid (config_value config)\<rparr>" by auto
  have "m_registry m1 = m_registry m" using m1(1) b by (auto simp: start_reserve_def Let_def)
  moreover obtain g where "resolve (m_registry m) aid (config_value config) = Inr g"
    "r = rid" "m_registry m' = m_registry m1" "m_last m' tid = Some aid"
    using m1(2) by (auto simp: start_finish_def Let_def p split: sum.splits)
  ultimately show ?thesis using resolve_not_str [of "m_registry m" aid "config_value config" g] b by simp
qed

context thread_store
begin

definition ops :: "'s store_ops" where
  "ops = \<lparr>so_create = create, so_get = get, so_set = set_assistant\<rparr>"

lemma ops_simps [simp]:
  "so_create ops = create" "so_get ops = get" "so_set ops = set_assistant"
  by (simp_all add: ops_def)

text \<open>A created thread is found, untouched.\<close>

lemma created_is_untouched:
  assumes "inv (v_store sv)" and "get (uuid7 raw ms) (v_store sv) = Inr None"
    and "storable (Some (case dget (body_dict b) ''metadata'' of Some (PDict d) \<Rightarrow> d | _ \<Rightarrow> []))"
  shows "\<exists>r sv'. create_thread ops now raw ms b sv = (Inr (200, record_reply r), sv') \<and>
     tr_thread_id r = uuid7 raw ms \<and> get_state mtd ops (uuid7 raw ms) sv' = Inr (200, PDict (empty_state (uuid7 raw ms)))"
proof -
  let ?md = "Some (case dget (body_dict b) ''metadata'' of Some (PDict d) \<Rightarrow> d | _ \<Rightarrow> [])"
  from create_fresh [OF assms(1,3,2), of now] obtain st where
    st: "create now raw ms ?md (v_store sv) = Inr (fresh_record now raw ms ?md, st)"
    "get (uuid7 raw ms) st = Inr (Some (fresh_record now raw ms ?md))" by auto
  then have "create_thread ops now raw ms b sv
      = (Inr (200, record_reply (fresh_record now raw ms ?md)), sv\<lparr>v_store := st\<rparr>)"
    by (simp add: create_thread_def Let_def)
  moreover have "get_state mtd ops (uuid7 raw ms) (sv\<lparr>v_store := st\<rparr>) = Inr (200, PDict (empty_state (uuid7 raw ms)))"
    using st(2) by (simp add: get_state_def state_graph_def fresh_record_def)
  ultimately show ?thesis by (fastforce simp: fresh_record_def)
qed

text \<open>A successful \<open>run.start\<close> persists its assistant.\<close>

lemma start_persists:
  assumes "inv (v_store sv)" and "get tid (v_store sv) = Inr (Some rec)"
    and "manager_start tid aid inp config metadata rid (v_manager sv) = (Inr run_id, m)"
  shows "\<exists>st s. aid = PStr s \<and> set_assistant now tid s (v_store sv) = Inr st \<and>
     get tid st = Inr (Some (rec\<lparr>tr_assistant_id := Some s, tr_updated_at := now\<rparr>))"
proof -
  from manager_start_Inr [OF assms(3)] obtain s where "aid = PStr s" by blast
  with set_known [OF assms(1), of now tid s] assms(2) show ?thesis by fastforce
qed

end

lemma py_or_dict: "py_or (PDict d) (PDict []) = PDict d"
  by (simp add: py_or_def)

lemma py_dict_dict: "py_dict (PDict d) = Inr d"
  by (simp add: py_dict_def)

lemma stamped_start:
  assumes "dict_wf raw" and "\<And>v. dget raw ''configurable'' = Some v \<Longrightarrow> \<exists>d. v = PDict d \<and> dict_wf d"
  shows "\<exists>cfg conf. stamped_config md (PDict raw) = Inr cfg \<and> dict_wf cfg \<and>
     dget cfg ''configurable'' = Some (PDict conf) \<and> dict_wf conf \<and>
     dget conf ''session_metadata'' = Some (PDict md)"
proof -
  obtain conf where conf: "py_dict (py_or (or_none (dget raw ''configurable'')) (PDict [])) = Inr conf" "dict_wf conf"
    using assms(2)
  proof (cases "dget raw ''configurable''")
    case None
    with that [of "[]"] show thesis by (simp add: or_none_def py_or_def py_dict_dict)
  next
    case (Some v)
    then obtain d where "v = PDict d" "dict_wf d" using assms(2) by blast
    with Some that [of d] show thesis by (simp add: or_none_def py_or_dict py_dict_dict)
  qed
  have "py_dict (py_or (PDict raw) (PDict [])) = Inr raw" by (simp add: py_or_dict py_dict_dict)
  with conf assms(1) show ?thesis by (simp add: stamped_config_def)
qed

section \<open>Properties\<close>

text \<open>A created thread can be used at once: the reply carries its id, and reading its state gives the
  empty state, on the SQLite store as on any store that keeps the interface.\<close>

theorem created_thread_untouched:
  assumes "sqlite_inv (v_store sv)" and "sqlite_get (uuid7 raw ms) (v_store sv) = Inr None"
    and "json_metadata (Some (case dget (body_dict b) ''metadata'' of Some (PDict d) \<Rightarrow> d | _ \<Rightarrow> []))"
  shows "\<exists>r sv'. create_thread sqlite.ops now raw ms b sv = (Inr (200, record_reply r), sv') \<and>
     tr_thread_id r = uuid7 raw ms \<and>
     get_state mtd sqlite.ops (uuid7 raw ms) sv' = Inr (200, PDict (empty_state (uuid7 raw ms)))"
  using assms by (rule sqlite.created_is_untouched)

definition fresh_server :: "'s \<Rightarrow> 's server" where
  "fresh_server st = \<lparr>v_store = st, v_manager = new_manager demo_registry 5\<rparr>"

theorem created_thread_untouched_witness:
  "\<exists>r sv'. create_thread sqlite.ops ''now'' (replicate 16 1) 1000 (Inl (ValueError [])) (fresh_server (sqlite_connect None))
       = (Inr (200, record_reply r), sv') \<and> tr_thread_id r = uuid7 (replicate 16 1) 1000"
proof -
  let ?sv = "fresh_server (sqlite_connect None)"
  have "sqlite_inv (v_store ?sv)" "sqlite_get (uuid7 (replicate 16 1) 1000) (v_store ?sv) = Inr None"
    by (simp_all add: fresh_server_def sqlite_inv_def sqlite_connect_def sqlite_get_def select_row_def)
  moreover have "json_metadata (Some (case dget (body_dict (Inl (ValueError []))) ''metadata'' of Some (PDict d) \<Rightarrow> d | _ \<Rightarrow> []))"
    by (simp add: json_metadata_def body_dict_def)
  ultimately show ?thesis using created_thread_untouched [of ?sv "replicate 16 1" 1000 "Inl (ValueError [])" "''now''"]
    by blast
qed

text \<open>\<open>run.start\<close> in full, for a thread that runs nothing and a registered assistant whose graph
  resolves: the reply is the success envelope with the run id, a task for the run exists, and
  the store finds the thread with that assistant, so that state, history and resume use its
  graph.\<close>

theorem start_command_succeeds:
  assumes "sqlite_inv (v_store sv)" and "sqlite_get tid (v_store sv) = Inr (Some rec)"
    and "dget params ''assistant_id'' = Some (PStr aid)" and "aid \<noteq> []"
    and "stamped_config (tr_metadata rec) (or_none (dget params ''config'')) = Inr cfg"
    and "manager_start tid (PStr aid) (Input (or_none (dget params ''input''))) (Some cfg)
           (or_none (dget params ''metadata'')) rid (v_manager sv) = (Inr run_id, m)"
  shows "\<exists>st. command_start sqlite.ops now rid tid rec cid params sv
            = (Inr (success_envelope cid [(''run_id'', PStr rid)]), \<lparr>v_store = st, v_manager = m\<rparr>) \<and>
     sqlite_get tid st = Inr (Some (rec\<lparr>tr_assistant_id := Some aid, tr_updated_at := now\<rparr>)) \<and>
     m_last m tid = Some (PStr aid)"
proof -
  from sqlite.start_persists [OF assms(1,2,6), of now] obtain st where
    "sqlite_set_assistant now tid aid (v_store sv) = Inr st"
    "sqlite_get tid st = Inr (Some (rec\<lparr>tr_assistant_id := Some aid, tr_updated_at := now\<rparr>))" by auto
  with manager_start_Inr [OF assms(6)] assms show ?thesis
    by (simp add: command_start_def Let_def or_none_def)
qed

definition demo_record :: thread_record where
  "demo_record = fresh_record ''now'' (replicate 16 1) 1000 (Some [(''owner'', PStr ''ann'')])"

definition demo_rows :: "thread_row list" where
  "demo_rows =
     [\<lparr>w_thread_id = uuid7 (replicate 16 1) 1000,
       w_metadata_json = enc '', '' '': '' (PDict [(''owner'', PStr ''ann'')]), w_assistant_id = None,
       w_created_at = ''now'', w_updated_at = ''now''\<rparr>]"

lemma demo_metadata: "read_metadata (enc '', '' '': '' (PDict [(''owner'', PStr ''ann'')])) = Inr [(''owner'', PStr ''ann'')]"
proof -
  have "json_ok (PDict [(''owner'', PStr ''ann'')])" by (simp add: dict_wf_def dkeys_def)
  from json_roundtrip_law [OF default_separators this] show ?thesis
    by (simp add: read_metadata_def del: enc.simps) simp
qed

lemma demo_store:
  "sqlite_inv (sqlite_connect (Some demo_rows))"
  "sqlite_get (uuid7 (replicate 16 1) 1000) (sqlite_connect (Some demo_rows)) = Inr (Some demo_record)"
  using demo_metadata
  by (simp_all add: sqlite_inv_def sqlite_connect_def demo_rows_def row_ok_def sqlite_get_def select_row_def
      demo_record_def fresh_record_def del: enc.simps)

definition demo_params :: dict where
  "demo_params = [(''assistant_id'', PStr ''a'')]"

lemma demo_stamped:
  "stamped_config (tr_metadata demo_record) (or_none (dget demo_params ''config''))
     = Inr [(''configurable'', PDict [(''session_metadata'', PDict [(''owner'', PStr ''ann'')])])]"
  by (simp add: stamped_config_def demo_params_def demo_record_def fresh_record_def or_none_def py_or_def
      py_dict_def dset_def)

lemma demo_manager_start:
  "\<exists>m. manager_start tid (PStr ''a'') (Input (or_none (dget demo_params ''input'')))
     (Some [(''configurable'', PDict [(''session_metadata'', PDict [(''owner'', PStr ''ann'')])])])
     (or_none (dget demo_params ''metadata'')) rid (new_manager demo_registry 5) = (Inr rid, m)"
  by (simp add: manager_start_def run_to_end_def manager_eval start_finish_def run_config_def base_config_def
      demo_params_def py_or_def or_none_def)

theorem start_command_succeeds_witness:
  "\<exists>st m. command_start sqlite.ops ''later'' ''r1'' (uuid7 (replicate 16 1) 1000) demo_record (PInt 7) demo_params
            (fresh_server (sqlite_connect (Some demo_rows)))
       = (Inr (success_envelope (PInt 7) [(''run_id'', PStr ''r1'')]), \<lparr>v_store = st, v_manager = m\<rparr>) \<and>
     sqlite_get (uuid7 (replicate 16 1) 1000) st
       = Inr (Some (demo_record\<lparr>tr_assistant_id := Some ''a'', tr_updated_at := ''later''\<rparr>))"
proof -
  let ?sv = "fresh_server (sqlite_connect (Some demo_rows))"
  let ?tid = "uuid7 (replicate 16 1) 1000"
  have sv: "v_store ?sv = sqlite_connect (Some demo_rows)" "v_manager ?sv = new_manager demo_registry 5"
    by (simp_all add: fresh_server_def)
  obtain m where m: "manager_start ?tid (PStr ''a'') (Input (or_none (dget demo_params ''input'')))
     (Some [(''configurable'', PDict [(''session_metadata'', PDict [(''owner'', PStr ''ann'')])])])
     (or_none (dget demo_params ''metadata'')) ''r1'' (v_manager ?sv) = (Inr ''r1'', m)"
    using demo_manager_start sv(2) by auto
  have p: "dget demo_params ''assistant_id'' = Some (PStr ''a'')" by (simp add: demo_params_def)
  from start_command_succeeds [of ?sv ?tid demo_record demo_params "''a''", OF _ _ p _ demo_stamped m, of "''later''" "PInt 7"]
    demo_store sv(1) show ?thesis by fastforce
qed

text \<open>On a thread that is running, \<open>run.start\<close> answers with the typed error envelope, naming the
  active run, and changes nothing.\<close>

theorem start_command_busy:
  assumes "busy_run (v_manager sv) tid = Some a"
    and "truthy (or_none (dget params ''assistant_id''))"
    and "stamped_config (tr_metadata rec) (or_none (dget params ''config'')) = Inr cfg"
  shows "command_start ops now rid tid rec cid params sv =
     (Inr (error_envelope cid ''invalid_argument''
             (''thread '' @ tid @ '' already has an active run ('' @ a_run_id a @ '')'')), sv)"
  using assms
  by (simp add: command_start_def manager_start_def run_to_end_def start_reserve_def start_error_def
      run_active_error_def)

theorem start_command_busy_witness:
  "command_start memory.ops ''now'' ''r2'' ''t'' demo_record (PInt 1) demo_params
     \<lparr>v_store = [], v_manager = reached plain_message demo_registry 5 demo_run\<rparr>
   = (Inr (error_envelope (PInt 1) ''invalid_argument'' ''thread t already has an active run (r1)''),
      \<lparr>v_store = [], v_manager = reached plain_message demo_registry 5 demo_run\<rparr>)"
proof -
  let ?m = "reached plain_message demo_registry 5 demo_run"
  obtain a where a: "m_active ?m ''t'' = Some a" "a_owner a = Running 1"
    using demo_task(2) by (auto simp: owned_by_iff)
  with demo_task(1) have b: "busy_run ?m ''t'' = Some a"
    by (simp add: busy_run_def task_done_def new_task_def)
  have "a_run_id a = ''r1''"
    using run_invD(3) [OF reached_inv a(1)] a(2) demo_task(1) by (auto simp: slot_inv_def new_task_def)
  moreover have "truthy (or_none (dget demo_params ''assistant_id''))" by (simp add: demo_params_def or_none_def)
  ultimately show ?thesis
    using start_command_busy [of "\<lparr>v_store = [], v_manager = ?m\<rparr>" "''t''" a demo_params demo_record, OF _ _ demo_stamped] b
    by simp
qed

text \<open>A thread that does not exist: every endpoint answers 404 and changes nothing, whatever the
  request says.\<close>

theorem unknown_thread_404:
  assumes "so_get ops tid (v_store sv) = Inr None"
  shows "dispatch_command mtd ops now rid tid b sv = (Inr not_found, sv) \<and>
     get_state mtd ops tid sv = Inr not_found \<and> search_history mtd ops tid b sv = Inr not_found \<and>
     get_history mtd ops tid limit before sv = Inr not_found \<and>
     cancel_run ops tid run_id sv = (Inr not_found, sv) \<and> open_stream ops tid b sv = (Inr (Inl not_found), sv)"
  using assms
  by (simp add: dispatch_command_def get_state_def search_history_def get_history_def history_def
      cancel_run_def open_stream_def Let_def)

theorem unknown_thread_404_witness:
  "dispatch_command plain_message memory.ops ''now'' ''r'' ''nope'' (Inl (ValueError [])) (fresh_server []) = (Inr not_found, fresh_server [])"
proof -
  have "so_get memory.ops ''nope'' (v_store (fresh_server [])) = Inr None"
    by (simp add: fresh_server_def memory_get_def)
  from unknown_thread_404 [OF this] show ?thesis by blast
qed

definition understood :: "pyval \<Rightarrow> bool" where
  "understood meth = (meth \<in> {PStr ''run.start'', PStr ''input.respond'', PStr ''run.cancel'', PStr ''state.get''})"

text \<open>A command the server does not understand (no JSON, no object, or a method that is none of
  the four) gets an error envelope that carries the command's id, and changes nothing.\<close>

theorem malformed_commands:
  assumes "so_get ops tid (v_store sv) = Inr (Some rec)"
    and "\<nexists>d. b = Inr (PDict d) \<and> understood (or_none (dget d ''method''))"
  shows "\<exists>code msg. dispatch_command mtd ops now rid tid b sv =
       (Inr (error_envelope (or_none (dget (body_dict b) ''id'')) code msg), sv) \<and>
     code \<in> {''invalid_argument'', ''unknown_command''}"
proof (cases "\<exists>d. b = Inr (PDict d)")
  case True
  with assms show ?thesis
    by (auto simp: dispatch_command_def understood_def body_dict_def Let_def error_envelope_def)
next
  case False
  then show ?thesis using assms(1)
    by (auto simp: dispatch_command_def body_dict_def or_none_def error_envelope_def split: sum.split pyval.split)
qed

theorem malformed_commands_witness:
  "\<exists>code msg. dispatch_command plain_message sqlite.ops ''now'' ''r'' (uuid7 (replicate 16 1) 1000)
       (Inr (PDict [(''id'', PInt 3), (''method'', PStr ''run.pause'')])) (fresh_server (sqlite_connect (Some demo_rows)))
     = (Inr (error_envelope (PInt 3) code msg), fresh_server (sqlite_connect (Some demo_rows)))"
proof -
  let ?b = "Inr (PDict [(''id'', PInt 3), (''method'', PStr ''run.pause'')])"
  let ?sv = "fresh_server (sqlite_connect (Some demo_rows))"
  have "so_get sqlite.ops (uuid7 (replicate 16 1) 1000) (v_store ?sv) = Inr (Some demo_record)"
    using demo_store(2) by (simp add: fresh_server_def)
  moreover have "\<nexists>d. ?b = Inr (PDict d) \<and> understood (or_none (dget d ''method''))"
    by (simp add: understood_def or_none_def)
  ultimately have "\<exists>code msg. dispatch_command plain_message sqlite.ops ''now'' ''r'' (uuid7 (replicate 16 1) 1000) ?b ?sv =
       (Inr (error_envelope (or_none (dget (body_dict ?b) ''id'')) code msg), ?sv) \<and>
     code \<in> {''invalid_argument'', ''unknown_command''}"
    by (rule malformed_commands)
  then show ?thesis by (auto simp: body_dict_def or_none_def)
qed

text \<open>C30: \<open>input.respond\<close> resumes a run only for an interrupt the thread's checkpoint holds: a
  success reply means that the thread's graph resolved, its state was read and lists that
  interrupt id, and nothing ran on the thread.\<close>

theorem respond_needs_interrupt:
  assumes "fst (command_respond mtd ops rid tid cid params sv) = Inr (success_envelope cid result)"
  shows "busy_run (v_manager sv) tid = None \<and>
     (\<exists>g snap ids. state_graph ops tid sv = Inr (Some g) \<and> read_thread_state mtd (rg_reads g) tid = Inr snap \<and>
        pending_ids snap = Inr ids \<and>
        PStr (py_str (py_or (or_none (dget params ''interrupt_id'')) (PStr []))) \<in> set ids)"
proof -
  have no_err: "error_envelope c code msg \<noteq> success_envelope c' r"
    "start_error c e \<noteq> Inr (success_envelope c' r)" "respond_error c e \<noteq> Inr (success_envelope c' r)"
    for c code msg e c' r
    by (simp_all add: respond_error_def start_error_def error_envelope_def success_envelope_def)
  show ?thesis using assms
    by (auto simp: command_respond_def no_such_interrupt_def no_err Let_def dest!: manager_respond_free
        split: if_splits sum.splits option.splits prod.splits)
qed

text \<open>A thread whose last assistant is a graph waiting at one interrupt.\<close>

definition waiting_graph :: run_graph where
  "waiting_graph =
     \<lparr>rg_reads = \<lparr>g_alist = None,
        g_state = (\<lambda>config. Inr \<lparr>n_values = PDict [], n_next = [], n_tasks = [],
          n_interrupts = [PObj None [(''id'', PStr ''i1''), (''value'', PInt 1)] [] []],
          n_metadata = PNone, n_created = NotCreated\<rparr>)\<rparr>,
      rg_stream = (\<lambda>inp config. ([], None)), rg_getter = None\<rparr>"

definition waiting_server :: "memory_store server" where
  "waiting_server =
     \<lparr>v_store = [(''t'', demo_record\<lparr>tr_assistant_id := Some ''w''\<rparr>)],
      v_manager = new_manager [(''w'', \<lambda>config. Inr (Graph waiting_graph))] 5\<rparr>"

theorem respond_needs_interrupt_witness:
  "busy_run (v_manager waiting_server) ''t'' = None \<and>
   (\<exists>m. command_respond plain_message memory.ops ''r9'' ''t'' (PInt 2) [(''interrupt_id'', PStr ''i1'')] waiting_server
      = (Inr (success_envelope (PInt 2) [(''run_id'', PStr ''r9'')]), waiting_server\<lparr>v_manager := m\<rparr>))"
proof -
  obtain m where m: "command_respond plain_message memory.ops ''r9'' ''t'' (PInt 2) [(''interrupt_id'', PStr ''i1'')] waiting_server
      = (Inr (success_envelope (PInt 2) [(''run_id'', PStr ''r9'')]), waiting_server\<lparr>v_manager := m\<rparr>)"
    by (simp add: command_respond_def waiting_server_def state_graph_def memory_get_def manager_eval
        waiting_graph_def read_thread_state_def serialize_values_def pending_ids_def interrupt_dict_def
        or_none_def py_or_def manager_respond_def run_to_end_def respond_reserve_def respond_assistant_def
        start_finish_def run_config_def base_config_def)
  then have "fst (command_respond plain_message memory.ops ''r9'' ''t'' (PInt 2) [(''interrupt_id'', PStr ''i1'')] waiting_server)
      = Inr (success_envelope (PInt 2) [(''run_id'', PStr ''r9'')])" by simp
  from respond_needs_interrupt [OF this] m show ?thesis by blast
qed

text \<open>A thread whose last assistant is no longer registered: \<open>state.get\<close> answers with a typed error
  and the state endpoint with 404, but \<open>input.respond\<close> lets the exception through, an internal
  server error.\<close>

theorem respond_unregistered_raises:
  assumes "so_get ops tid (v_store sv) = Inr (Some rec)" and "tr_assistant_id rec = Some aid"
    and "dget (m_registry (v_manager sv)) aid = None"
    and "dget params ''interrupt_id'' = Some (PStr iid)" and "iid \<noteq> []"
  shows "command_respond mtd ops rid tid cid params sv
       = (Inl (unknown_assistant (PStr aid) (assistant_ids (m_registry (v_manager sv)))), sv) \<and>
     command_state mtd ops tid cid sv
       = Inr (error_envelope cid ''unknown_command'' (''assistant for thread '' @ tid @ '' is not registered'')) \<and>
     get_state mtd ops tid sv = Inr not_found"
  using assms
  by (simp add: command_respond_def command_state_def get_state_def state_graph_def resolve_str
      or_none_def py_or_def)

theorem respond_unregistered_raises_witness:
  "fst (command_respond plain_message memory.ops ''r'' ''t'' PNone [(''interrupt_id'', PStr ''i1'')]
      (waiting_server\<lparr>v_manager := new_manager [] 5\<rparr>)) = Inl (unknown_assistant (PStr ''w'') [])"
proof -
  let ?sv = "waiting_server\<lparr>v_manager := new_manager [] 5\<rparr>"
  have "so_get memory.ops ''t'' (v_store ?sv) = Inr (Some (demo_record\<lparr>tr_assistant_id := Some ''w''\<rparr>))"
    "dget (m_registry (v_manager ?sv)) ''w'' = None" "assistant_ids (m_registry (v_manager ?sv)) = []"
    by (simp_all add: waiting_server_def memory_get_def new_manager_def assistant_ids_def dkeys_def)
  with respond_unregistered_raises [of memory.ops "''t''" ?sv "demo_record\<lparr>tr_assistant_id := Some ''w''\<rparr>" "''w''"
      "[(''interrupt_id'', PStr ''i1'')]" "''i1''"] show ?thesis by simp
qed



lemma sqlite_reopen: "sqlite_get tid q = Inr r \<Longrightarrow> sqlite_connect (Some (q_rows (sqlite_close q))) = q"
  by (cases q) (auto simp: sqlite_get_def sqlite_connect_def sqlite_close_def split: if_splits)

text \<open>C20: an interrupt survives a restart. After the process was replaced, with the same database and
  the same registered graphs but an empty run manager, \<open>input.respond\<close> to an interrupt that the
  thread's checkpoint lists is accepted: it answers with the run id and creates a run of the last
  assistant's graph, resumed with the response on this thread.\<close>

theorem respond_survives_restart:
  assumes "sqlite_get tid q = Inr (Some rec)" and "tr_assistant_id rec = Some aid" and "aid \<noteq> []"
    and "resolve reg (PStr aid) PNone = Inr g"
    and "read_thread_state mtd (rg_reads g) tid = Inr snap" and "pending_ids snap = Inr ids"
    and "PStr iid \<in> set ids" and "iid \<noteq> []" and "dget params ''interrupt_id'' = Some (PStr iid)"
  shows "\<exists>sv' j t. command_respond mtd sqlite.ops rid tid cid params
         \<lparr>v_store = sqlite_connect (Some (q_rows (sqlite_close q))), v_manager = new_manager reg n\<rparr>
       = (Inr (success_envelope cid [(''run_id'', PStr rid)]), sv') \<and>
     m_tasks (v_manager sv') j = Some t \<and> t_stage t = Queued \<and> t_thread t = tid \<and> t_assistant t = PStr aid \<and>
     t_items t = fst (rg_stream g (CommandResume (or_none (dget params ''response'')))
                       (PDict [(''configurable'', PDict [(''thread_id'', PStr tid)])]))"
proof -
  let ?m = "new_manager reg n"
  let ?sv = "\<lparr>v_store = q, v_manager = ?m\<rparr>"
  let ?resp = "or_none (dget params ''response'')"
  have reg: "m_registry ?m = reg" by (simp add: new_manager_def)
  have g: "state_graph sqlite.ops tid ?sv = Inr (Some g)"
    using assms(1,2,4) by (simp add: state_graph_def reg)
  have cfg: "run_config tid None PNone = Inr [(''configurable'', PDict [(''thread_id'', PStr tid)])]"
    by (simp add: run_config_def base_config_def or_none_def py_or_def dmerge_def dset_def)
  let ?r = "manager_respond tid iid ?resp (PStr aid) rid ?m"
  note eval = manager_respond_def run_to_end_def respond_reserve_def respond_assistant_def start_reserve_def
    busy_run_def new_manager_def config_value_def start_finish_def new_task_def
  have r: "fst ?r = Inr rid" using assms(3,4) cfg by (simp add: eval Let_def)
  have "\<exists>t. m_tasks (snd ?r) 1 = Some t \<and> t_stage t = Queued \<and> t_thread t = tid \<and> t_assistant t = PStr aid \<and>
     t_items t = fst (rg_stream g (CommandResume ?resp) (PDict [(''configurable'', PDict [(''thread_id'', PStr tid)])]))"
    using assms(3,4) cfg by (simp add: eval Let_def)
  then obtain j t m where m: "?r = (Inr rid, m)" "m_tasks m j = Some t" "t_stage t = Queued" "t_thread t = tid"
    "t_assistant t = PStr aid"
    "t_items t = fst (rg_stream g (CommandResume ?resp) (PDict [(''configurable'', PDict [(''thread_id'', PStr tid)])]))"
    using r by (metis prod.collapse)
  have "command_respond mtd sqlite.ops rid tid cid params ?sv
      = (Inr (success_envelope cid [(''run_id'', PStr rid)]), ?sv\<lparr>v_manager := m\<rparr>)"
    using assms(1,2,5-9) g m(1) by (simp add: command_respond_def or_none_def py_or_def)
  with m(2-) show ?thesis unfolding sqlite_reopen [OF assms(1)]
    by (intro exI [of _ "?sv\<lparr>v_manager := m\<rparr>"] exI [of _ j] exI [of _ t]) simp
qed

definition waiting_rows :: "thread_row list" where
  "waiting_rows = map (\<lambda>w. w\<lparr>w_assistant_id := Some ''w''\<rparr>) demo_rows"

theorem respond_survives_restart_witness:
  "\<exists>sv'. command_respond plain_message sqlite.ops ''r9'' (uuid7 (replicate 16 1) 1000) (PInt 2)
       [(''interrupt_id'', PStr ''i1'')]
       \<lparr>v_store = sqlite_connect (Some (q_rows (sqlite_close (sqlite_connect (Some waiting_rows))))),
        v_manager = new_manager [(''w'', \<lambda>config. Inr (Graph waiting_graph))] 5\<rparr>
     = (Inr (success_envelope (PInt 2) [(''run_id'', PStr ''r9'')]), sv')"
proof -
  let ?tid = "uuid7 (replicate 16 1) 1000"
  let ?reg = "[(''w'', \<lambda>config. Inr (Graph waiting_graph))]"
  obtain rec where rec: "sqlite_get ?tid (sqlite_connect (Some waiting_rows)) = Inr (Some rec)"
    "tr_assistant_id rec = Some ''w''"
    using demo_metadata by (auto simp: sqlite_get_def sqlite_connect_def select_row_def waiting_rows_def demo_rows_def
        simp del: enc.simps)
  have "resolve ?reg (PStr ''w'') PNone = Inr waiting_graph" by (simp add: resolve_str)
  moreover obtain snap where "read_thread_state plain_message (rg_reads waiting_graph) ?tid = Inr snap"
    "pending_ids snap = Inr [PStr ''i1'']"
    by (simp add: waiting_graph_def read_thread_state_def serialize_values_def pending_ids_def interrupt_dict_def
        or_none_def)
  ultimately show ?thesis
    using respond_survives_restart [OF rec, of ?reg waiting_graph plain_message snap "[PStr ''i1'']" "''i1''"
        "[(''interrupt_id'', PStr ''i1'')]" "''r9''" "PInt 2" 5] by auto
qed

end
