(* ===== verification/Factory.thy ===== *)
theory Factory
  imports Router
begin

text \<open>
  \<open>factory.py\<close>: \<open>create_protocol\<close> puts the parts together. The router, the run manager and the
  factory share one registry object and one hub registry; in the model these are fields of the
  manager, which the server's handlers read. The heartbeat interval is carried by its text.
\<close>

definition DEFAULT_HEARTBEAT_S :: string where
  "DEFAULT_HEARTBEAT_S = ''15.0''"

record 's protocol =
  f_server :: "'s server"
  f_heartbeat :: string

text \<open>A missing store is a new in-memory store, injected here into the type of stores in use.\<close>

definition create_protocol ::
  "run_graph registry option \<Rightarrow> 's option \<Rightarrow> 's \<Rightarrow> nat option \<Rightarrow> string option \<Rightarrow> 's protocol" where
  "create_protocol agents store memory replay_size heartbeat =
     \<lparr>f_server =
        \<lparr>v_store = (case store of Some st \<Rightarrow> st | None \<Rightarrow> memory),
         v_manager = new_manager (new_registry agents)
           (case replay_size of Some n \<Rightarrow> n | None \<Rightarrow> DEFAULT_REPLAY_SIZE)\<rparr>,
      f_heartbeat = (case heartbeat of Some h \<Rightarrow> h | None \<Rightarrow> DEFAULT_HEARTBEAT_S)\<rparr>"

definition protocol_register :: "string \<Rightarrow> run_graph graph_factory \<Rightarrow> 's protocol \<Rightarrow> 's protocol" where
  "protocol_register aid f p =
     (let m = v_manager (f_server p)
      in p\<lparr>f_server := (f_server p)\<lparr>v_manager := m\<lparr>m_registry := register aid f (m_registry m)\<rparr>\<rparr>\<rparr>)"

text \<open>\<open>lifespan\<close> publishes the runtime handles under these names of \<open>app.state\<close>.\<close>

datatype 's handle =
    StoreHandle 's
  | RegistryHandle "run_graph registry"
  | HubsHandle hub_registry
  | ManagerHandle manager
  | HeartbeatHandle string

definition lifespan :: "'s protocol \<Rightarrow> (string, 's handle) pydict \<Rightarrow> (string, 's handle) pydict" where
  "lifespan p app_state =
     (let sv = f_server p; m = v_manager sv
      in foldl (\<lambda>d (k, h). dset k h d) app_state
           [(''thread_store'', StoreHandle (v_store sv)),
            (''agent_registry'', RegistryHandle (m_registry m)),
            (''graph_registry'', RegistryHandle (m_registry m)),
            (''hubs'', HubsHandle (m_hubs m)),
            (''run_manager'', ManagerHandle m),
            (''heartbeat_seconds'', HeartbeatHandle (f_heartbeat p))])"

lemma busy_run_register: "busy_run (m\<lparr>m_registry := reg\<rparr>) tid = busy_run m tid"
  by (simp add: busy_run_def task_done_def cong: option.case_cong owner.case_cong)

section \<open>Properties\<close>

text \<open>Late registration needs no restart: a graph registered after the server was built is listed
  by \<open>/info\<close> exactly once and in order, a start of it gets it, and runs, interrupts, hubs and the
  thread store are as before.\<close>

theorem late_registration:
  assumes "dict_wf (m_registry (v_manager (f_server p)))" and "f (config_value cfg) = Inr (Graph g)"
    and "busy_run (v_manager (f_server p)) tid = None"
  shows "\<exists>i m' st.
     start_reserve tid (PStr aid) inp cfg metadata rid (v_manager (f_server (protocol_register aid f p))) = Inr (i, m') \<and>
     m_starts m' i = Some st \<and> p_outcome st = Inr g \<and>
     sorted_wrt (<) (assistant_ids (m_registry m')) \<and>
     set (assistant_ids (m_registry m')) = insert aid (set (assistant_ids (m_registry (v_manager (f_server p))))) \<and>
     v_store (f_server (protocol_register aid f p)) = v_store (f_server p) \<and>
     m_tasks (v_manager (f_server (protocol_register aid f p))) = m_tasks (v_manager (f_server p)) \<and>
     m_hubs (v_manager (f_server (protocol_register aid f p))) = m_hubs (v_manager (f_server p))"
proof -
  let ?m = "v_manager (f_server p)"
  let ?m1 = "v_manager (f_server (protocol_register aid f p))"
  have m1: "?m1 = ?m\<lparr>m_registry := register aid f (m_registry ?m)\<rparr>"
    "v_store (f_server (protocol_register aid f p)) = v_store (f_server p)"
    by (simp_all add: protocol_register_def Let_def)
  have "busy_run ?m1 tid = None"
    using assms(3) by (simp add: m1(1) busy_run_register)
  moreover have "resolve (register aid f (m_registry ?m)) (PStr aid) (config_value cfg) = Inr g"
    using assms(2) by (simp add: resolve_str registry.find_put)
  moreover have "sorted_wrt (<) (assistant_ids (register aid f (m_registry ?m)))"
    using registry.names_sorted [OF registry.put_inv [OF assms(1)]] .
  moreover have "set (assistant_ids (register aid f (m_registry ?m))) = insert aid (set (assistant_ids (m_registry ?m)))"
    using registry.names_put [OF assms(1)] .
  ultimately show ?thesis by (simp add: start_reserve_def Let_def m1)
qed

theorem late_registration_witness:
  "\<exists>i m' st. start_reserve ''t'' (PStr ''late'') (Input PNone) None PNone ''r1''
       (v_manager (f_server (protocol_register ''late'' (\<lambda>config. Inr (Graph demo_graph))
          (create_protocol (Some demo_registry) None no_threads None None)))) = Inr (i, m') \<and>
     m_starts m' i = Some st \<and> p_outcome st = Inr demo_graph"
proof -
  let ?p = "create_protocol (Some demo_registry) None no_threads None None"
  have wf: "dict_wf (m_registry (v_manager (f_server ?p)))"
    by (simp add: create_protocol_def new_manager_def new_registry_def demo_registry_def dict_wf_def dkeys_def)
  have free: "busy_run (v_manager (f_server ?p)) ''t'' = None"
    by (simp add: create_protocol_def new_manager_def busy_run_def)
  from late_registration [where f = "\<lambda>config. Inr (Graph demo_graph)" and cfg = None and aid = "''late''"
      and inp = "Input PNone" and metadata = PNone and rid = "''r1''", OF wf refl free]
  obtain i m' st where "start_reserve ''t'' (PStr ''late'') (Input PNone) None PNone ''r1''
       (v_manager (f_server (protocol_register ''late'' (\<lambda>config. Inr (Graph demo_graph)) ?p))) = Inr (i, m')"
     "m_starts m' i = Some st" "p_outcome st = Inr demo_graph"
    by (elim exE conjE) (rule that)
  then show ?thesis by (intro exI conjI)
qed

end
