(* ===== verification/Streams.thy ===== *)
theory Streams
  imports Hub PyJson
begin

text \<open>
  The SSE consumer of a hub: the generator \<open>gen\<close> of \<open>_stream\<close> in \<open>router.py\<close>, run
  concurrently with publications. Control leaves the generator only where it yields or
  awaits, so its state between two resumptions is the point where it stopped. A system is
  one thread's hub with any number of connections; an event is a publication, a
  connection being opened, a resumption of one generator, its heartbeat timeout, or its
  closing by the server. Who moves next is not determined: theorems hold for every
  sequence of events.
\<close>

section \<open>The generator\<close>

datatype sse_out = Connected | Heartbeat | Event envelope

text \<open>
  Where the generator stands: not started; after the initial comment; inside the replay
  loop with the envelopes still to yield; in the live loop waiting on its queue; closed.
\<close>

datatype gen_phase = GStart | GConnected | GReplay "envelope list" | GLive | GClosed

text \<open>
  One pass of the live loop until it yields or blocks: take from the queue, skip what the
  subscription does not match (already delivered), move the cursor.
\<close>

fun live_take :: "envelope list \<Rightarrow> subscription \<Rightarrow> envelope option \<times> subscription" where
  "live_take [] s = (None, s\<lparr>s_queue := []\<rparr>)"
| "live_take (e # q) s =
     (if \<not> matches s e then live_take q s
      else (Some e, s\<lparr>s_queue := q, s_last_seq := e_seq e\<rparr>))"

text \<open>
  \<open>yield sse_block(envelope)\<close>: \<open>sse_block\<close> renders the envelope with \<open>json.dumps\<close>, which
  raises on data that is not JSON serialisable. The exception ends the generator, whose
  \<open>finally\<close> block unsubscribes.
\<close>

definition yield_event :: "envelope \<Rightarrow> gen_phase \<Rightarrow> nat \<Rightarrow> hub \<Rightarrow> sse_out list \<times> gen_phase \<times> hub" where
  "yield_event e ph i h =
     (if serialisable (e_data e) then ([Event e], ph, h) else ([], GClosed, unsubscribe i h))"

definition live_loop :: "nat \<Rightarrow> hub \<Rightarrow> sse_out list \<times> gen_phase \<times> hub" where
  "live_loop i h =
     (case h_subs h i of
        None \<Rightarrow> ([], GLive, h)
      | Some s \<Rightarrow>
          (case live_take (s_queue s) s of
             (None, s') \<Rightarrow> ([], GLive, h\<lparr>h_subs := (h_subs h)(i \<mapsto> s')\<rparr>)
           | (Some e, s') \<Rightarrow> yield_event e GLive i (h\<lparr>h_subs := (h_subs h)(i \<mapsto> s')\<rparr>)))"

definition replay_loop :: "envelope list \<Rightarrow> nat \<Rightarrow> hub \<Rightarrow> sse_out list \<times> gen_phase \<times> hub" where
  "replay_loop es i h =
     (case es of
        [] \<Rightarrow> live_loop i h
      | e # rest \<Rightarrow> yield_event e (GReplay rest) i h)"

text \<open>Resuming the generator: what it yields (nothing when it blocks on its queue).\<close>

fun resume :: "gen_phase \<Rightarrow> nat \<Rightarrow> hub \<Rightarrow> sse_out list \<times> gen_phase \<times> hub" where
  "resume GStart i h = ([Connected], GConnected, h)"
| "resume GConnected i h = (case replay i h of (es, h') \<Rightarrow> replay_loop es i h')"
| "resume (GReplay es) i h = replay_loop es i h"
| "resume GLive i h = live_loop i h"
| "resume GClosed i h = ([], GClosed, h)"

text \<open>
  \<open>wait_for\<close> times out only while the generator is blocked on an empty queue.
\<close>

definition timeout :: "gen_phase \<Rightarrow> nat \<Rightarrow> hub \<Rightarrow> sse_out list" where
  "timeout ph i h =
     (case h_subs h i of
        None \<Rightarrow> []
      | Some s \<Rightarrow> if ph = GLive \<and> s_queue s = [] then [Heartbeat] else [])"

text \<open>
  Closing the generator runs its \<open>finally\<close> block, which unsubscribes; a generator that was
  never started has no block to run.
\<close>

definition close_gen :: "gen_phase \<Rightarrow> nat \<Rightarrow> hub \<Rightarrow> gen_phase \<times> hub" where
  "close_gen ph i h = (GClosed, if ph = GStart \<or> ph = GClosed then h else unsubscribe i h)"

section \<open>The system\<close>

text \<open>
  A connection is known by its subscription's address; \<open>c_since\<close> is the \<open>since\<close> of its
  request, \<open>c_out\<close> what it has yielded. \<open>y_log\<close> is the history of all publications.
\<close>

record conn =
  c_phase :: gen_phase
  c_since :: "int option"
  c_out :: "sse_out list"

record stream_sys =
  y_hub :: hub
  y_conns :: "nat \<Rightarrow> conn option"
  y_log :: "envelope list"

datatype stream_event =
    Publish int string pyval
  | Open "pyval list option" "pyval list list option" "int option"
  | Resume nat
  | Timeout nat
  | Close nat

definition new_sys :: "nat \<Rightarrow> stream_sys" where
  "new_sys n = \<lparr>y_hub = new_hub n, y_conns = (\<lambda>_. None), y_log = []\<rparr>"

fun stream_step :: "stream_sys \<Rightarrow> stream_event \<Rightarrow> stream_sys" where
  "stream_step y (Publish now m d) =
     (case publish now m d None None None (y_hub y) of
        (e, h) \<Rightarrow> y\<lparr>y_hub := h, y_log := y_log y @ [e]\<rparr>)"
| "stream_step y (Open chans nss since) =
     (case subscribe chans nss since (y_hub y) of
        Inl _ \<Rightarrow> y
      | Inr (i, h) \<Rightarrow>
          y\<lparr>y_hub := h,
            y_conns := (y_conns y)(i \<mapsto> \<lparr>c_phase = GStart, c_since = since, c_out = []\<rparr>)\<rparr>)"
| "stream_step y (Resume i) =
     (case y_conns y i of
        None \<Rightarrow> y
      | Some c \<Rightarrow>
          (case resume (c_phase c) i (y_hub y) of
             (out, ph, h) \<Rightarrow>
               y\<lparr>y_hub := h,
                 y_conns := (y_conns y)(i \<mapsto> c\<lparr>c_phase := ph, c_out := c_out c @ out\<rparr>)\<rparr>))"
| "stream_step y (Timeout i) =
     (case y_conns y i of
        None \<Rightarrow> y
      | Some c \<Rightarrow>
          y\<lparr>y_conns := (y_conns y)(i \<mapsto> c\<lparr>c_out := c_out c @ timeout (c_phase c) i (y_hub y)\<rparr>)\<rparr>)"
| "stream_step y (Close i) =
     (case y_conns y i of
        None \<Rightarrow> y
      | Some c \<Rightarrow>
          (case close_gen (c_phase c) i (y_hub y) of
             (ph, h) \<Rightarrow> y\<lparr>y_hub := h, y_conns := (y_conns y)(i \<mapsto> c\<lparr>c_phase := ph\<rparr>)\<rparr>))"

abbreviation stream_run :: "stream_sys \<Rightarrow> stream_event list \<Rightarrow> stream_sys" where
  "stream_run \<equiv> foldl stream_step"

section \<open>What a connection should receive\<close>

fun events_of :: "sse_out list \<Rightarrow> envelope list" where
  "events_of [] = []"
| "events_of (Event e # out) = e # events_of out"
| "events_of (Connected # out) = events_of out"
| "events_of (Heartbeat # out) = events_of out"

definition since_cursor :: "int option \<Rightarrow> int" where
  "since_cursor since = max (case since of Some i \<Rightarrow> i | None \<Rightarrow> 0) 0"

text \<open>The events newer than \<open>since\<close> that pass the subscription's filter, in order.\<close>

definition in_filter :: "int option \<Rightarrow> subscription \<Rightarrow> envelope \<Rightarrow> bool" where
  "in_filter since s e =
     (since_cursor since < e_seq e \<and> channel_ok (s_channels s) e \<and> namespace_ok (s_namespaces s) e)"

definition wanted :: "int option \<Rightarrow> subscription \<Rightarrow> envelope list \<Rightarrow> envelope list" where
  "wanted since s log = filter (in_filter since s) log"

fun to_replay :: "gen_phase \<Rightarrow> envelope list" where
  "to_replay (GReplay es) = es"
| "to_replay _ = []"

text \<open>What the connection has yielded or is committed to yield.\<close>

definition delivered :: "conn \<Rightarrow> envelope list" where
  "delivered c = events_of (c_out c) @ to_replay (c_phase c)"

lemma events_of_append [simp]: "events_of (xs @ ys) = events_of xs @ events_of ys"
  by (induction xs rule: events_of.induct) auto


section \<open>The invariant of a connection\<close>

text \<open>The events of the queue that the live loop will not skip.\<close>

definition pending :: "subscription \<Rightarrow> envelope list" where
  "pending s = filter (\<lambda>e. s_last_seq s < e_seq e) (s_queue s)"

definition sub_inv :: "int option \<Rightarrow> envelope list \<Rightarrow> subscription \<Rightarrow> bool" where
  "sub_inv since log s =
     (since_cursor since \<le> s_last_seq s \<and>
      s_last_seq s \<le> max (since_cursor since) (int (length log)) \<and>
      incr e_seq (s_queue s) \<and> set (s_queue s) \<subseteq> set (wanted since s log))"

fun phase_inv :: "gen_phase \<Rightarrow> int option \<Rightarrow> subscription \<Rightarrow> envelope list \<Rightarrow> bool" where
  "phase_inv GStart since s del = (del = [] \<and> s_last_seq s = since_cursor since)"
| "phase_inv GConnected since s del = (del = [] \<and> s_last_seq s = since_cursor since)"
| "phase_inv (GReplay es) since s del = (\<forall>e \<in> set del. e_seq e \<le> s_last_seq s)"
| "phase_inv GLive since s del = (\<forall>e \<in> set del. e_seq e \<le> s_last_seq s)"
| "phase_inv GClosed since s del = True"

definition conn_inv :: "envelope list \<Rightarrow> subscription \<Rightarrow> conn \<Rightarrow> bool" where
  "conn_inv log s c =
     (sub_inv (c_since c) log s \<and>
      incr e_seq (delivered c) \<and> set (delivered c) \<subseteq> set (wanted (c_since c) s log) \<and>
      phase_inv (c_phase c) (c_since c) s (delivered c))"

definition sys_inv :: "stream_sys \<Rightarrow> bool" where
  "sys_inv y =
     (hub_log (y_log y) (y_hub y) \<and>
      (\<forall>i c. y_conns y i = Some c \<longrightarrow>
         (\<exists>s. h_subs (y_hub y) i = Some s \<and> conn_inv (y_log y) s c) \<and>
         (c_phase c \<noteq> GClosed \<longrightarrow> i \<in> set (h_subscribers (y_hub y)))))"

text \<open>Filters do not change: only the queue and the cursor of a subscription do.\<close>

definition same_filter :: "subscription \<Rightarrow> subscription \<Rightarrow> bool" where
  "same_filter s s' = (s_channels s' = s_channels s \<and> s_namespaces s' = s_namespaces s)"

lemma same_filter_refl [simp]: "same_filter s s"
  by (simp add: same_filter_def)

lemma wanted_same_filter: "same_filter s s' \<Longrightarrow> wanted since s' log = wanted since s log"
  by (simp add: wanted_def in_filter_def [abs_def] same_filter_def)

lemma wanted_append: "wanted since s (log @ log') = wanted since s log @ wanted since s log'"
  by (simp add: wanted_def)

lemma wanted_subset: "set (wanted since s log) \<subseteq> set log"
  by (auto simp: wanted_def)

lemma incr_wanted: "numbered log \<Longrightarrow> incr e_seq (wanted since s log)"
  by (simp add: wanted_def incr_filter numbered_incr)

lemma matches_in_filter:
  "since_cursor since \<le> s_last_seq s \<Longrightarrow>
   matches s e \<longleftrightarrow> in_filter since s e \<and> s_last_seq s < e_seq e"
  by (auto simp: matches_iff in_filter_def)

text \<open>A publication reaches a subscription.\<close>

lemma deliver_same_filter: "same_filter s (deliver e s)"
  by (simp add: same_filter_def deliver_def put_nowait_def)

lemma in_filter_same_filter: "same_filter s s' \<Longrightarrow> in_filter since s' e = in_filter since s e"
  by (simp add: in_filter_def same_filter_def)

lemma in_filter_deliver [simp]: "in_filter since (deliver e s) x = in_filter since s x"
  by (rule in_filter_same_filter [OF deliver_same_filter])

lemma wanted_deliver [simp]: "wanted since (deliver e s) log = wanted since s log"
  by (rule wanted_same_filter [OF deliver_same_filter])

lemma deliver_cursor [simp]: "s_last_seq (deliver e s) = s_last_seq s"
  by (simp add: deliver_def put_nowait_def)

lemma deliver_queue:
  "s_queue (deliver e s) =
     (if matches s e \<and> length (s_queue s) < MAX_QUEUE then s_queue s @ [e] else s_queue s)"
  by (simp add: deliver_def put_nowait_def)

lemma sub_inv_deliver:
  assumes s: "sub_inv since log s" and log: "numbered log" and e: "e_seq e = int (length log) + 1"
  shows "sub_inv since (log @ [e]) (deliver e s)"
proof -
  have old: "\<forall>x \<in> set (s_queue s). e_seq x < e_seq e"
    using s log e wanted_subset [of since s log]
    by (auto simp: sub_inv_def dest!: subsetD numbered_bounds)
  moreover have "matches s e \<Longrightarrow> in_filter since s e"
    using s matches_in_filter [of since s e] by (simp add: sub_inv_def)
  ultimately show ?thesis
    using s e
    by (auto simp: sub_inv_def deliver_queue incr_append incr_Cons wanted_append wanted_def)
qed

text \<open>A subscription that is not reached sees the log grow.\<close>

lemma sub_inv_log: "sub_inv since log s \<Longrightarrow> sub_inv since (log @ [e]) s"
  by (auto simp: sub_inv_def wanted_append)

lemma phase_inv_cursor:
  "phase_inv ph since s del \<Longrightarrow> s_last_seq s' = s_last_seq s \<Longrightarrow> phase_inv ph since s' del"
  by (cases ph) simp_all

lemma conn_inv_deliver:
  assumes "conn_inv log s c" and "numbered log" and "e_seq e = int (length log) + 1"
  shows "conn_inv (log @ [e]) (deliver e s) c"
  using assms
  by (auto simp: conn_inv_def sub_inv_deliver wanted_append intro: phase_inv_cursor)

lemma conn_inv_log: "conn_inv log s c \<Longrightarrow> conn_inv (log @ [e]) s c"
  by (auto simp: conn_inv_def sub_inv_log wanted_append)

text \<open>The live loop.\<close>

lemma live_take_spec:
  assumes "live_take q s = (r, s')" and "incr e_seq q"
    and "\<forall>e \<in> set q. in_filter since s e" and "since_cursor since \<le> s_last_seq s"
  shows "same_filter s s' \<and>
     (case r of
        None \<Rightarrow> s_queue s' = [] \<and> s_last_seq s' = s_last_seq s
                \<and> filter (\<lambda>e. s_last_seq s < e_seq e) q = []
      | Some e \<Rightarrow> s_last_seq s' = e_seq e \<and> s_last_seq s < e_seq e
                \<and> (\<exists>skipped. q = skipped @ e # s_queue s'
                      \<and> (\<forall>x \<in> set skipped. e_seq x \<le> s_last_seq s)))"
  using assms
proof (induction q arbitrary: r s')
  case Nil
  then show ?case by (auto simp: same_filter_def)
next
  case (Cons x q)
  show ?case
  proof (cases "matches s x")
    case True
    with Cons.prems show ?thesis by (auto simp: same_filter_def matches_iff)
  next
    case False
    with Cons.prems have le: "e_seq x \<le> s_last_seq s" by (auto simp: matches_in_filter)
    have "live_take q s = (r, s')" using False Cons.prems(1) by simp
    with Cons have "same_filter s s' \<and>
     (case r of
        None \<Rightarrow> s_queue s' = [] \<and> s_last_seq s' = s_last_seq s
                \<and> filter (\<lambda>e. s_last_seq s < e_seq e) q = []
      | Some e \<Rightarrow> s_last_seq s' = e_seq e \<and> s_last_seq s < e_seq e
                \<and> (\<exists>skipped. q = skipped @ e # s_queue s'
                      \<and> (\<forall>x \<in> set skipped. e_seq x \<le> s_last_seq s)))"
      by (simp add: incr_Cons)
    with le show ?thesis
      by (cases r) (auto intro: exI [of _ "x # _"])
  qed
qed


lemma live_take_inv:
  assumes inv: "conn_inv log s c" and ph: "c_phase c \<in> {GLive, GReplay []}"
    and t: "live_take (s_queue s) s = (r, s')" and log: "numbered log"
    and c': "c' = c\<lparr>c_phase := GLive,
                    c_out := c_out c @ (case r of None \<Rightarrow> [] | Some e \<Rightarrow> [Event e])\<rparr>"
  shows "same_filter s s' \<and> conn_inv log s' c' \<and>
         delivered c' @ pending s' = delivered c @ pending s"
proof -
  have q: "sub_inv (c_since c) log s" and del: "incr e_seq (delivered c)"
    "set (delivered c) \<subseteq> set (wanted (c_since c) s log)"
    and cur: "\<forall>e \<in> set (delivered c). e_seq e \<le> s_last_seq s"
    using inv ph by (auto simp: conn_inv_def)
  have inflt: "\<forall>e \<in> set (s_queue s). in_filter (c_since c) s e"
    using q by (auto simp: sub_inv_def wanted_def)
  have dc: "delivered c = events_of (c_out c)" using ph by (auto simp: delivered_def)
  note spec = live_take_spec [OF t _ inflt]
  have sf: "same_filter s s'" using spec q by (auto simp: sub_inv_def)
  note same = wanted_same_filter [OF sf] in_filter_same_filter [OF sf]
  show ?thesis
  proof (cases r)
    case None
    with spec q have "s_queue s' = []" "s_last_seq s' = s_last_seq s" "pending s = []"
      by (auto simp: sub_inv_def pending_def)
    moreover have "delivered c' = delivered c" using None c' dc by (simp add: delivered_def)
    ultimately show ?thesis
      using sf q del cur c' by (simp add: conn_inv_def sub_inv_def same pending_def)
  next
    case (Some e)
    with spec q obtain skipped where r1: "s_last_seq s' = e_seq e" "s_last_seq s < e_seq e"
      and sq: "s_queue s = skipped @ e # s_queue s'"
      and sk: "\<forall>x \<in> set skipped. e_seq x \<le> s_last_seq s"
      by (auto simp: sub_inv_def)
    have ew: "e \<in> set (wanted (c_since c) s log)" using q sq by (auto simp: sub_inv_def)
    have later: "\<forall>x \<in> set (s_queue s'). e_seq e < e_seq x" and qi: "incr e_seq (s_queue s')"
      using q sq by (auto simp: sub_inv_def incr_append incr_Cons)
    have dc': "delivered c' = delivered c @ [e]" using Some c' dc by (simp add: delivered_def)
    have "filter (\<lambda>e. s_last_seq s < e_seq e) skipped = []"
      using sk by (simp add: filter_empty_conv not_less)
    moreover have "filter (\<lambda>x. s_last_seq s < e_seq x) (s_queue s') = s_queue s'"
      using later r1 by (intro filter_True) fastforce
    ultimately have p: "pending s = e # s_queue s'" "pending s' = s_queue s'"
      using later r1 by (simp_all add: pending_def sq)
    have "sub_inv (c_since c) log s'"
      using q sq r1 qi ew log numbered_bounds [OF log, of e] wanted_subset [of "c_since c" s log]
      by (auto simp: sub_inv_def same)
    moreover have "incr e_seq (delivered c')"
      using del cur r1 by (fastforce simp: dc' incr_append incr_Cons)
    moreover have "\<forall>x \<in> set (delivered c'). e_seq x \<le> s_last_seq s'"
      using cur r1 by (auto simp: dc')
    ultimately show ?thesis using sf del ew dc' p c' by (simp add: conn_inv_def same)
  qed
qed


text \<open>
  The replay: under the cursor of a fresh connection it yields the wanted events of the
  buffer; they are all the wanted events when the buffer still holds them all, and then
  nothing of the queue is left to deliver.
\<close>

lemma replay_sub_inv:
  assumes inv: "conn_inv log s c" and ph: "c_phase c \<in> {GStart, GConnected}"
    and buf: "buf = last_n n log" and log: "numbered log"
    and r: "replay_sub buf s = (es, s')"
    and c': "c' = c\<lparr>c_phase := GReplay es\<rparr>"
  shows "same_filter s s' \<and> conn_inv log s' c' \<and>
         delivered c' = wanted (c_since c) s buf \<and>
         (wanted (c_since c) s buf = wanted (c_since c) s log \<longrightarrow> pending s' = [])"
proof -
  let ?w = "wanted (c_since c) s"
  have q: "sub_inv (c_since c) log s" and none: "events_of (c_out c) = []"
    and cur: "s_last_seq s = since_cursor (c_since c)"
    using inv ph by (auto simp: conn_inv_def delivered_def)
  have "matches s = in_filter (c_since c) s"
    using cur by (auto simp: matches_iff in_filter_def fun_eq_iff)
  then have es: "es = ?w buf" and s': "s' = (if ?w buf \<noteq> [] then s\<lparr>s_last_seq := e_seq (last (?w buf))\<rparr> else s)"
    using r by (auto simp: replay_sub_def wanted_def Let_def)
  have sf: "same_filter s s'" by (simp add: s' same_filter_def)
  note same = wanted_same_filter [OF sf]
  have dc: "delivered c' = ?w buf" using none es c' by (simp add: delivered_def)
  have sub: "set (?w buf) \<subseteq> set (?w log)"
    using set_last_n [of n log] by (auto simp: wanted_def buf)
  have inc: "incr e_seq (?w buf)"
    using log by (simp add: wanted_def buf incr_filter incr_last_n numbered_incr)
  have le: "\<forall>e \<in> set (?w buf). e_seq e \<le> s_last_seq s'"
    using incr_le_last [OF inc] by (auto simp: s')
  have sub': "sub_inv (c_since c) log s'"
  proof (cases "?w buf = []")
    case True
    then show ?thesis using q by (simp add: s')
  next
    case False
    then have "last (?w buf) \<in> set (?w log)" using sub last_in_set by blast
    then have "since_cursor (c_since c) < e_seq (last (?w buf))"
      and "e_seq (last (?w buf)) \<le> int (length log)"
      using numbered_bounds [OF log] by (auto simp: wanted_def in_filter_def)
    then show ?thesis using q False same by (simp add: sub_inv_def s')
  qed
  have "?w buf = ?w log \<longrightarrow> pending s' = []"
  proof
    assume eq: "?w buf = ?w log"
    have "\<forall>e \<in> set (s_queue s'). e_seq e \<le> s_last_seq s'"
      using sub' le eq by (auto simp: sub_inv_def same)
    then show "pending s' = []" by (simp add: pending_def filter_empty_conv not_less)
  qed
  then show ?thesis using sf sub' dc sub inc le c' by (simp add: conn_inv_def same)
qed


text \<open>
  \<open>exact log s c\<close>: what the connection has yielded, followed by what it will still take
  from its queue, is everything it wants.
\<close>

fun after_replay :: "gen_phase \<Rightarrow> bool" where
  "after_replay (GReplay es) = True"
| "after_replay GLive = True"
| "after_replay _ = False"

definition exact :: "envelope list \<Rightarrow> subscription \<Rightarrow> conn \<Rightarrow> bool" where
  "exact log s c =
     (after_replay (c_phase c) \<longrightarrow> delivered c @ pending s = wanted (c_since c) s log)"

text \<open>
  One resumption of the generator of a connection: only its subscription changes, and it is
  unregistered exactly when the generator ends.
\<close>

definition resumed ::
  "envelope list \<Rightarrow> nat \<Rightarrow> subscription \<Rightarrow> conn \<Rightarrow> hub \<Rightarrow> conn \<Rightarrow> hub \<Rightarrow> bool \<Rightarrow> bool" where
  "resumed log i s c h c' h' kept =
     (\<exists>s'. h_subs h' = (h_subs h)(i \<mapsto> s') \<and> h_seq h' = h_seq h \<and> h_buffer h' = h_buffer h \<and>
           h_replay_size h' = h_replay_size h \<and> h_next h' = h_next h \<and>
           h_subscribers h' = (if c_phase c' = GClosed \<and> c_phase c \<noteq> GClosed
                               then removeAll i (h_subscribers h) else h_subscribers h) \<and>
           same_filter s s' \<and> conn_inv log s' c' \<and> (kept \<longrightarrow> exact log s c \<longrightarrow> exact log s' c'))"

lemma hub_log_resumed:
  assumes "resumed log i s c h c' h' kept" and "hub_log log h" and "h_subs h i = Some s"
  shows "hub_log log h'"
proof -
  obtain s' where s': "h_subs h' = (h_subs h)(i \<mapsto> s')" "h_seq h' = h_seq h"
    "h_buffer h' = h_buffer h" "h_replay_size h' = h_replay_size h" "h_next h' = h_next h"
    and sub: "h_subscribers h' = h_subscribers h \<or> h_subscribers h' = removeAll i (h_subscribers h)"
    using assms(1) by (auto simp: resumed_def)
  have "i < h_next h" using assms(2,3) by (auto simp: hub_log_def)
  moreover have "distinct (h_subscribers h')" "set (h_subscribers h') \<subseteq> set (h_subscribers h)"
    using sub assms(2) by (auto simp: hub_log_def distinct_removeAll)
  ultimately show ?thesis using assms(2) s' by (auto simp: hub_log_def)
qed

lemma conn_inv_closed:
  assumes "conn_inv log s c" and "c_phase c' = GClosed" and "c_since c' = c_since c"
    and "\<exists>rest. delivered c = delivered c' @ rest"
  shows "conn_inv log s c'"
  using assms by (auto simp: conn_inv_def incr_append)

lemma live_loop_inv:
  assumes inv: "conn_inv log s c" and ph: "c_phase c \<in> {GLive, GReplay []}" and log: "numbered log"
    and s: "h_subs h i = Some s" and l: "live_loop i h = (out, ph, h')"
    and c': "c' = c\<lparr>c_phase := ph, c_out := c_out c @ out\<rparr>"
  shows "resumed log i s c h c' h' True"
proof -
  obtain r s' where t: "live_take (s_queue s) s = (r, s')" by fastforce
  let ?c1 = "c\<lparr>c_phase := GLive, c_out := c_out c @ (case r of None \<Rightarrow> [] | Some e \<Rightarrow> [Event e])\<rparr>"
  note one = live_take_inv [OF inv ph t log refl]
  then have ex: "exact log s c \<longrightarrow> exact log s' ?c1"
    using ph by (auto simp: exact_def wanted_same_filter)
  show ?thesis
  proof (cases "\<exists>e. r = Some e \<and> \<not> serialisable (e_data e)")
    case False
    then have "c' = ?c1" "h' = h\<lparr>h_subs := (h_subs h)(i \<mapsto> s')\<rparr>"
      using l c' s t by (auto simp: live_loop_def yield_event_def split: option.splits if_splits)
    then show ?thesis unfolding resumed_def using one ex ph by (intro exI [of _ s']) auto
  next
    case True
    then obtain e where e: "r = Some e" and c2: "c_phase c' = GClosed" "c_out c' = c_out c" "c_since c' = c_since c"
      and h': "h' = unsubscribe i (h\<lparr>h_subs := (h_subs h)(i \<mapsto> s')\<rparr>)"
      using l c' s t by (auto simp: live_loop_def yield_event_def)
    have "conn_inv log s' ?c1" using one by blast
    then have "conn_inv log s' c'"
      by (rule conn_inv_closed) (simp_all add: delivered_def c2 e)
    moreover have "same_filter s s'" "c_phase c \<noteq> GClosed" using one ph by auto
    ultimately show ?thesis unfolding resumed_def using c2 h'
      by (intro exI [of _ s']) (simp add: unsubscribe_def exact_def)
  qed
qed

lemma replay_loop_inv:
  assumes inv: "conn_inv log s c" and ph: "c_phase c = GReplay es" and log: "numbered log"
    and s: "h_subs h i = Some s" and r: "replay_loop es i h = (out, ph', h')"
    and c': "c' = c\<lparr>c_phase := ph', c_out := c_out c @ out\<rparr>"
  shows "resumed log i s c h c' h' True"
proof (cases es)
  case Nil
  with r have "live_loop i h = (out, ph', h')" by (simp add: replay_loop_def)
  with Nil assms show ?thesis by (intro live_loop_inv [OF inv _ log s]) simp_all
next
  case (Cons e rest)
  have triv: "(h_subs h)(i \<mapsto> s) = h_subs h" using s by (simp add: map_upd_triv)
  show ?thesis
  proof (cases "serialisable (e_data e)")
    case True
    with r c' Cons have c1: "h' = h" "delivered c' = delivered c" "c_since c' = c_since c"
      "c_phase c' = GReplay rest"
      by (auto simp: replay_loop_def yield_event_def delivered_def ph)
    with inv ph have "conn_inv log s c'" by (simp add: conn_inv_def)
    with c1 show ?thesis unfolding resumed_def using ph triv
      by (intro exI [of _ s]) (simp add: exact_def)
  next
    case False
    with r c' Cons have c2: "c_phase c' = GClosed" "c_out c' = c_out c" "c_since c' = c_since c"
      and h': "h' = unsubscribe i h"
      by (auto simp: replay_loop_def yield_event_def)
    have "conn_inv log s c'"
      using c2 by (intro conn_inv_closed [OF inv]) (simp_all add: delivered_def)
    then show ?thesis unfolding resumed_def using c2 h' ph triv
      by (intro exI [of _ s]) (auto simp: unsubscribe_def exact_def)
  qed
qed

definition retained :: "envelope list \<Rightarrow> subscription \<Rightarrow> hub \<Rightarrow> conn \<Rightarrow> bool" where
  "retained log s h c =
     (c_phase c = GConnected \<longrightarrow> wanted (c_since c) s (h_buffer h) = wanted (c_since c) s log)"

lemma resume_inv:
  assumes inv: "conn_inv log s c" and hub: "hub_log log h"
    and s: "h_subs h i = Some s" and r: "resume (c_phase c) i h = (out, ph, h')"
    and c': "c' = c\<lparr>c_phase := ph, c_out := c_out c @ out\<rparr>"
  shows "resumed log i s c h c' h' (retained log s h c)"
proof -
  have log: "numbered log" and buf: "h_buffer h = last_n (h_replay_size h) log"
    using hub by (simp_all add: hub_log_def)
  have triv: "(h_subs h)(i \<mapsto> s) = h_subs h" using s by (simp add: map_upd_triv)
  have weaken: "resumed log i s c h c' h' True \<Longrightarrow> ?thesis" by (auto simp: resumed_def)
  show ?thesis
  proof (cases "c_phase c")
    case GStart
    with r c' inv have "h' = h" "conn_inv log s c'" "exact log s c'" "c_phase c' = GConnected"
      by (auto simp: conn_inv_def delivered_def exact_def)
    with triv show ?thesis unfolding resumed_def by (intro exI [of _ s]) simp
  next
    case GClosed
    with r c' inv have "h' = h" "c' = c" by auto
    with triv inv show ?thesis unfolding resumed_def by (intro exI [of _ s]) simp
  next
    case GLive
    with r have "live_loop i h = (out, ph, h')" by simp
    with GLive show ?thesis using live_loop_inv [OF inv _ log s _ c'] weaken by auto
  next
    case (GReplay es)
    with r have "replay_loop es i h = (out, ph, h')" by simp
    then show ?thesis using replay_loop_inv [OF inv GReplay log s _ c'] weaken by auto
  next
    case GConnected
    obtain es s1 where rs: "replay_sub (h_buffer h) s = (es, s1)" by fastforce
    let ?h1 = "h\<lparr>h_subs := (h_subs h)(i \<mapsto> s1)\<rparr>" and ?c1 = "c\<lparr>c_phase := GReplay es\<rparr>"
    have r1: "replay_loop es i ?h1 = (out, ph, h')"
      using r GConnected s rs by (simp add: replay_def)
    note one = replay_sub_inv [OF inv _ buf log rs refl]
    then have sf1: "same_filter s s1" and inv1: "conn_inv log s1 ?c1"
      and ex1: "retained log s h c \<longrightarrow> exact log s1 ?c1"
      using GConnected by (auto simp: exact_def retained_def wanted_same_filter)
    have c'1: "c' = ?c1\<lparr>c_phase := ph, c_out := c_out ?c1 @ out\<rparr>" using c' by simp
    have "resumed log i s1 ?c1 ?h1 c' h' True"
      by (rule replay_loop_inv [OF inv1 _ log _ r1 c'1]) simp_all
    then show ?thesis using sf1 ex1 GConnected by (auto simp: resumed_def same_filter_def)
  qed
qed

section \<open>The invariant of the system\<close>

text \<open>
  Nothing is lost for connection \<open>i\<close> in a step: a publication finds room on its queue, and
  when the connection replays, the buffer still holds every event it wants.
\<close>

definition lossless_step :: "nat \<Rightarrow> stream_sys \<Rightarrow> stream_event \<Rightarrow> bool" where
  "lossless_step i y ev =
     (case (y_conns y i, h_subs (y_hub y) i) of
        (Some c, Some s) \<Rightarrow>
          (case ev of
             Publish now m d \<Rightarrow> length (s_queue s) < MAX_QUEUE
           | Resume j \<Rightarrow> j = i \<longrightarrow> retained (y_log y) s (y_hub y) c
           | _ \<Rightarrow> True)
      | _ \<Rightarrow> True)"

fun lossless :: "nat \<Rightarrow> stream_sys \<Rightarrow> stream_event list \<Rightarrow> bool" where
  "lossless i y [] = True"
| "lossless i y (ev # evs) = (lossless_step i y ev \<and> lossless i (stream_step y ev) evs)"

definition conn_advances :: "nat \<Rightarrow> stream_sys \<Rightarrow> stream_event \<Rightarrow> subscription \<Rightarrow> conn \<Rightarrow> bool" where
  "conn_advances i y ev s c =
     (\<exists>s' c'. h_subs (y_hub (stream_step y ev)) i = Some s' \<and>
        y_conns (stream_step y ev) i = Some c' \<and> same_filter s s' \<and> c_since c' = c_since c \<and>
        conn_inv (y_log (stream_step y ev)) s' c' \<and>
        (c_phase c' \<noteq> GClosed \<longrightarrow> i \<in> set (h_subscribers (y_hub (stream_step y ev)))) \<and>
        (lossless_step i y ev \<longrightarrow> exact (y_log y) s c \<longrightarrow>
           exact (y_log (stream_step y ev)) s' c'))"

lemma exact_deliver:
  assumes "conn_inv log s c" and "exact log s c" and "numbered log"
    and "e_seq e = int (length log) + 1" and "length (s_queue s) < MAX_QUEUE"
  shows "exact (log @ [e]) (deliver e s) c"
proof -
  have "since_cursor (c_since c) \<le> s_last_seq s"
    and "s_last_seq s \<le> max (since_cursor (c_since c)) (int (length log))"
    using assms(1) by (auto simp: conn_inv_def sub_inv_def)
  then have m: "matches s e \<longleftrightarrow> in_filter (c_since c) s e"
    and gt: "in_filter (c_since c) s e \<longrightarrow> s_last_seq s < e_seq e"
    using assms(4) by (auto simp: matches_in_filter in_filter_def)
  have p: "pending (deliver e s) = pending s @ (if in_filter (c_since c) s e then [e] else [])"
    using m gt assms(5) by (simp add: pending_def deliver_queue)
  have w: "wanted (c_since c) s (log @ [e]) =
      wanted (c_since c) s log @ (if in_filter (c_since c) s e then [e] else [])"
    by (simp add: wanted_def)
  show ?thesis
  proof (cases "after_replay (c_phase c)")
    case True
    with assms(2) have "delivered c @ pending s = wanted (c_since c) s log" by (simp add: exact_def)
    then show ?thesis by (simp add: exact_def p w flip: append_assoc)
  qed (simp add: exact_def)
qed

lemma sys_invD:
  assumes "sys_inv y" and "y_conns y i = Some c" and "h_subs (y_hub y) i = Some s"
  shows "conn_inv (y_log y) s c" and "c_phase c \<noteq> GClosed \<longrightarrow> i \<in> set (h_subscribers (y_hub y))"
proof -
  obtain s' where "h_subs (y_hub y) i = Some s'" "conn_inv (y_log y) s' c"
    using assms(1,2) by (auto simp: sys_inv_def)
  with assms(3) show "conn_inv (y_log y) s c" by simp
qed (use assms(1,2) in \<open>auto simp: sys_inv_def\<close>)

lemma publish_advances:
  assumes y: "sys_inv y" and c: "y_conns y i = Some c" and s: "h_subs (y_hub y) i = Some s"
  shows "conn_advances i y (Publish now m d) s c"
proof -
  let ?p = "publish now m d None None None (y_hub y)"
  let ?e = "fst ?p" and ?y' = "stream_step y (Publish now m d)"
  have hub: "hub_log (y_log y) (y_hub y)" and inv: "conn_inv (y_log y) s c"
    and opn: "c_phase c \<noteq> GClosed \<longrightarrow> i \<in> set (h_subscribers (y_hub y))"
    using y sys_invD [OF y c s] by (simp_all add: sys_inv_def)
  then have log: "numbered (y_log y)" and sq: "e_seq ?e = int (length (y_log y)) + 1"
    and dist: "distinct (h_subscribers (y_hub y))"
    by (simp_all add: hub_log_def)
  have y': "y_hub ?y' = snd ?p" "y_log ?y' = y_log y @ [?e]" "y_conns ?y' = y_conns y"
    by (simp_all add: case_prod_beta)
  show ?thesis
  proof (cases "i \<in> set (h_subscribers (y_hub y))")
    case True
    have "h_subs (y_hub ?y') i = Some (deliver ?e s)"
      using True s dist by (simp add: y' publish_subs del: stream_step.simps)
    moreover have "conn_inv (y_log ?y') (deliver ?e s) c"
      using conn_inv_deliver [OF inv log sq] by (simp add: y' del: stream_step.simps)
    moreover have "lossless_step i y (Publish now m d) \<longrightarrow> exact (y_log y) s c \<longrightarrow>
        exact (y_log ?y') (deliver ?e s) c"
      using exact_deliver [OF inv _ log sq] c s by (simp add: y' lossless_step_def del: stream_step.simps)
    ultimately show ?thesis
      unfolding conn_advances_def using c True deliver_same_filter
      by (intro exI [of _ "deliver ?e s"] exI [of _ c]) (simp add: y' del: stream_step.simps)
  next
    case False
    have "h_subs (y_hub ?y') i = Some s" using False s dist by (simp add: y' publish_subs del: stream_step.simps)
    moreover have "conn_inv (y_log ?y') s c" using conn_inv_log [OF inv] by (simp add: y' del: stream_step.simps)
    moreover have "c_phase c = GClosed" using opn False by blast
    ultimately show ?thesis
      unfolding conn_advances_def using c
      by (intro exI [of _ s] exI [of _ c]) (simp add: y' exact_def del: stream_step.simps)
  qed
qed


lemma subscribe_spec:
  "subscribe chans nss since h = Inr (i, h') \<Longrightarrow>
   \<exists>s. i = h_next h \<and> h_subs h' = (h_subs h)(i \<mapsto> s) \<and> h_subscribers h' = i # h_subscribers h \<and>
       h_buffer h' = h_buffer h \<and> s_queue s = [] \<and> s_last_seq s = since_cursor since"
  by (auto simp: subscribe_def new_subscription_def since_cursor_def Let_def
      split: sum.splits option.splits if_splits)

lemma open_advances:
  assumes y: "sys_inv y" and c: "y_conns y i = Some c" and s: "h_subs (y_hub y) i = Some s"
  shows "conn_advances i y (Open chans nss since) s c"
proof (cases "subscribe chans nss since (y_hub y)")
  case (Inl e)
  with c s sys_invD [OF assms] show ?thesis by (auto simp: conn_advances_def)
next
  case (Inr p)
  obtain j h where p: "p = (j, h)" by (cases p)
  with Inr obtain s0 where sub: "j = h_next (y_hub y)" "h_subs h = (h_subs (y_hub y))(j \<mapsto> s0)"
    "h_subscribers h = j # h_subscribers (y_hub y)"
    using subscribe_spec by blast
  have "i < h_next (y_hub y)" using y s by (auto simp: sys_inv_def hub_log_def)
  with sub have "i \<noteq> j" by simp
  with c s Inr p sub sys_invD [OF assms] show ?thesis by (auto simp: conn_advances_def)
qed

lemma resume_advances:
  assumes y: "sys_inv y" and c: "y_conns y i = Some c" and s: "h_subs (y_hub y) i = Some s"
  shows "conn_advances i y (Resume j) s c"
proof (cases "y_conns y j")
  case None
  with c s sys_invD [OF assms] show ?thesis by (auto simp: conn_advances_def)
next
  case (Some cj)
  obtain out ph h where r: "resume (c_phase cj) j (y_hub y) = (out, ph, h)" by (metis prod_cases3)
  obtain sj where sj: "h_subs (y_hub y) j = Some sj" and inv: "conn_inv (y_log y) sj cj"
    and hub: "hub_log (y_log y) (y_hub y)"
    using y Some by (auto simp: sys_inv_def)
  let ?c' = "cj\<lparr>c_phase := ph, c_out := c_out cj @ out\<rparr>"
  have ph: "ph \<noteq> GClosed \<longrightarrow> c_phase cj \<noteq> GClosed" using r by (cases "c_phase cj") auto
  from resume_inv [OF inv hub sj r refl]
  have st: "resumed (y_log y) j sj cj (y_hub y) ?c' h (retained (y_log y) sj (y_hub y) cj)" .
  show ?thesis
  proof (cases "j = i")
    case True
    then have "cj = c" "sj = s" using Some sj c s by auto
    with st True obtain s' where s': "h_subs h i = Some s'" "same_filter s s'"
      "conn_inv (y_log y) s' ?c'"
      "retained (y_log y) s (y_hub y) c \<longrightarrow> exact (y_log y) s c \<longrightarrow> exact (y_log y) s' ?c'"
      "h_subscribers h = (if ph = GClosed \<and> c_phase c \<noteq> GClosed
         then removeAll i (h_subscribers (y_hub y)) else h_subscribers (y_hub y))"
      by (auto simp: resumed_def)
    have st: "y_hub (stream_step y (Resume j)) = h" "y_log (stream_step y (Resume j)) = y_log y"
      "y_conns (stream_step y (Resume j)) i = Some ?c'"
      using True c r \<open>cj = c\<close> by simp_all
    have "lossless_step i y (Resume j) \<longrightarrow> retained (y_log y) s (y_hub y) c"
      using True c s by (simp add: lossless_step_def)
    moreover have "ph \<noteq> GClosed \<longrightarrow> i \<in> set (h_subscribers h)"
      using s'(5) ph sys_invD(2) [OF assms] \<open>cj = c\<close> by auto
    ultimately show ?thesis unfolding conn_advances_def st using s' \<open>cj = c\<close>
      by (intro exI [of _ s'] exI [of _ ?c']) simp
  next
    case False
    then show ?thesis using c s Some r st sys_invD [OF assms]
      by (auto simp: conn_advances_def resumed_def)
  qed
qed

lemma events_timeout [simp]: "events_of (timeout ph i h) = []"
  by (simp add: timeout_def split: option.split)

lemma delivered_more_out:
  "events_of out = [] \<Longrightarrow> delivered (c\<lparr>c_out := c_out c @ out\<rparr>) = delivered c"
  by (simp add: delivered_def)

lemma timeout_advances:
  assumes y: "sys_inv y" and c: "y_conns y i = Some c" and s: "h_subs (y_hub y) i = Some s"
  shows "conn_advances i y (Timeout j) s c"
proof (cases "j = i")
  case True
  let ?c' = "c\<lparr>c_out := c_out c @ timeout (c_phase c) i (y_hub y)\<rparr>"
  have "delivered ?c' = delivered c" by (simp add: delivered_def)
  then show ?thesis using True c s sys_invD [OF assms]
    by (simp add: conn_advances_def conn_inv_def exact_def)
next
  case False
  with c s sys_invD [OF assms] show ?thesis by (auto simp: conn_advances_def split: option.splits)
qed

lemma close_advances:
  assumes y: "sys_inv y" and c: "y_conns y i = Some c" and s: "h_subs (y_hub y) i = Some s"
  shows "conn_advances i y (Close j) s c"
proof -
  have f: "h_subs (snd (close_gen ph k h)) = h_subs h" for ph k h
    by (simp add: close_gen_def unsubscribe_def)
  show ?thesis
  proof (cases "j = i")
    case True
    have "set (delivered (c\<lparr>c_phase := GClosed\<rparr>)) \<subseteq> set (delivered c)"
      and "incr e_seq (delivered c) \<longrightarrow> incr e_seq (delivered (c\<lparr>c_phase := GClosed\<rparr>))"
      by (auto simp: delivered_def incr_append)
    then have "conn_inv (y_log y) s (c\<lparr>c_phase := GClosed\<rparr>)"
      using sys_invD [OF assms] by (auto simp: conn_inv_def)
    then show ?thesis using True c s f
      by (auto simp: conn_advances_def exact_def case_prod_beta close_gen_def)
  next
    case False
    with c s f sys_invD [OF assms] show ?thesis
      by (auto simp: conn_advances_def case_prod_beta close_gen_def unsubscribe_def
          split: option.splits)
  qed
qed

lemma step_advances:
  assumes "sys_inv y" and "y_conns y i = Some c" and "h_subs (y_hub y) i = Some s"
  shows "conn_advances i y ev s c"
  using assms
  by (cases ev) (auto intro: publish_advances open_advances resume_advances timeout_advances
      close_advances)


lemma sys_hub_log: "sys_inv y \<Longrightarrow> hub_log (y_log (stream_step y ev)) (y_hub (stream_step y ev))"
proof (cases ev)
  case (Publish now m d)
  assume "sys_inv y"
  with Publish show ?thesis by (simp add: sys_inv_def case_prod_beta hub_log_publish)
next
  case (Open chans nss since)
  assume "sys_inv y"
  with Open show ?thesis
    by (auto simp: sys_inv_def dest: hub_log_subscribe split: sum.splits)
next
  case (Resume j)
  assume y: "sys_inv y"
  show ?thesis
  proof (cases "y_conns y j")
    case None
    with y Resume show ?thesis by (simp add: sys_inv_def)
  next
    case (Some c)
    then obtain s where s: "h_subs (y_hub y) j = Some s" and inv: "conn_inv (y_log y) s c"
      and hub: "hub_log (y_log y) (y_hub y)"
      using y by (auto simp: sys_inv_def)
    obtain out ph h where r: "resume (c_phase c) j (y_hub y) = (out, ph, h)" by (metis prod_cases3)
    from resume_inv [OF inv hub s r refl] show ?thesis
      using Resume Some r hub_log_resumed [OF _ hub s] by simp
  qed
next
  case (Timeout j)
  assume "sys_inv y"
  with Timeout show ?thesis by (auto simp: sys_inv_def split: option.splits)
next
  case (Close j)
  assume "sys_inv y"
  with Close show ?thesis
    by (auto simp: sys_inv_def case_prod_beta close_gen_def hub_log_unsubscribe split: option.splits)
qed

text \<open>A connection that appears in a step has just been opened.\<close>

lemma new_conn:
  assumes "y_conns y i = None" and "y_conns (stream_step y ev) i = Some c" and "sys_inv y"
  shows "\<exists>s. h_subs (y_hub (stream_step y ev)) i = Some s \<and> conn_inv (y_log (stream_step y ev)) s c \<and>
         i \<in> set (h_subscribers (y_hub (stream_step y ev))) \<and> c_phase c = GStart"
proof (cases ev)
  case (Open chans nss since)
  with assms obtain h where sub: "subscribe chans nss since (y_hub y) = Inr (i, h)"
    and c: "c = \<lparr>c_phase = GStart, c_since = since, c_out = []\<rparr>"
    by (auto split: sum.splits if_splits)
  from subscribe_spec [OF sub] obtain s where
    "h_subs h i = Some s" "h_subscribers h = i # h_subscribers (y_hub y)"
    "s_queue s = []" "s_last_seq s = since_cursor since"
    by auto
  then show ?thesis using Open sub c
    by (auto simp: conn_inv_def sub_inv_def delivered_def)
qed (use assms in \<open>auto simp: case_prod_beta split: option.splits if_splits\<close>)

lemma sys_inv_step: "sys_inv y \<Longrightarrow> sys_inv (stream_step y ev)"
proof -
  assume y: "sys_inv y"
  show ?thesis unfolding sys_inv_def
  proof (intro conjI allI impI)
    show "hub_log (y_log (stream_step y ev)) (y_hub (stream_step y ev))"
      using y by (rule sys_hub_log)
  next
    fix i c' assume c': "y_conns (stream_step y ev) i = Some c'"
    have "(\<exists>s. h_subs (y_hub (stream_step y ev)) i = Some s \<and> conn_inv (y_log (stream_step y ev)) s c')
        \<and> (c_phase c' \<noteq> GClosed \<longrightarrow> i \<in> set (h_subscribers (y_hub (stream_step y ev))))"
    proof (cases "y_conns y i")
      case None
      with new_conn [OF None c' y] show ?thesis by auto
    next
      case (Some c)
      then obtain s where "h_subs (y_hub y) i = Some s" using y by (auto simp: sys_inv_def)
      from step_advances [OF y Some this, of ev] c' show ?thesis by (auto simp: conn_advances_def)
    qed
    then show "\<exists>s. h_subs (y_hub (stream_step y ev)) i = Some s \<and> conn_inv (y_log (stream_step y ev)) s c'"
      and "c_phase c' \<noteq> GClosed \<Longrightarrow> i \<in> set (h_subscribers (y_hub (stream_step y ev)))"
      by blast+
  qed
qed

lemma sys_inv_new: "sys_inv (new_sys n)"
  by (simp add: sys_inv_def new_sys_def hub_log_new)

interpretation streams: event_system stream_step sys_inv
  by unfold_locales (rule sys_inv_step)

text \<open>
  The abstract hub is its history: a publication appends the next numbered envelope,
  and nothing a consumer does changes it.
\<close>

fun log_step :: "envelope list \<Rightarrow> stream_event \<Rightarrow> envelope list" where
  "log_step log (Publish now m d) =
     log @ [make_envelope now (int (length log) + 1) m d None None None]"
| "log_step log ev = log"

lemma log_step_simulates: "sys_inv y \<Longrightarrow> y_log (stream_step y ev) = log_step (y_log y) ev"
  by (cases ev)
     (auto simp: sys_inv_def hub_log_def publish_def Let_def split: option.split sum.split prod.split)

interpretation history: event_refinement stream_step sys_inv log_step y_log
  by unfold_locales (rule log_step_simulates)


section \<open>Facts about runs\<close>

abbreviation stream_reached :: "nat \<Rightarrow> stream_event list \<Rightarrow> stream_sys" where
  "stream_reached n evs \<equiv> stream_run (new_sys n) evs"

lemma stream_reached_inv: "sys_inv (stream_reached n evs)"
  by (rule streams.inv_run [OF sys_inv_new])

definition exact_for :: "nat \<Rightarrow> stream_sys \<Rightarrow> bool" where
  "exact_for i y =
     (\<forall>c s. y_conns y i = Some c \<longrightarrow> h_subs (y_hub y) i = Some s \<longrightarrow> exact (y_log y) s c)"

lemma exact_for_step:
  assumes y: "sys_inv y" and ex: "exact_for i y" and ll: "lossless_step i y ev"
  shows "exact_for i (stream_step y ev)"
proof (cases "y_conns y i")
  case None
  then show ?thesis using new_conn [OF None _ y, of ev] by (auto simp: exact_for_def exact_def)
next
  case (Some c)
  then obtain s where "h_subs (y_hub y) i = Some s" using y by (auto simp: sys_inv_def)
  with step_advances [OF y Some this, of ev] ll ex Some show ?thesis
    by (auto simp: conn_advances_def exact_for_def)
qed

lemma exact_for_run: "sys_inv y \<Longrightarrow> exact_for i y \<Longrightarrow> lossless i y evs \<Longrightarrow> exact_for i (stream_run y evs)"
  by (induction evs arbitrary: y) (auto simp: sys_inv_step exact_for_step)

lemma reached_exact:
  assumes "lossless i (new_sys n) evs" and "y_conns (stream_reached n evs) i = Some c"
    and "h_subs (y_hub (stream_reached n evs)) i = Some s" and "after_replay (c_phase c)"
  shows "delivered c @ pending s = wanted (c_since c) s (y_log (stream_reached n evs))"
proof -
  have "exact_for i (new_sys n)" by (simp add: exact_for_def new_sys_def)
  with exact_for_run [OF sys_inv_new _ assms(1)] assms(2-4) show ?thesis
    by (simp add: exact_for_def exact_def)
qed

text \<open>What never changes, and how long the log is.\<close>

lemma resume_frame [simp]: "h_replay_size (snd (snd (resume ph i h))) = h_replay_size h"
  by (cases ph)
     (auto simp: replay_loop_def live_loop_def replay_def yield_event_def unsubscribe_def
       split: list.splits option.splits prod.splits)

lemma step_replay_size [simp]:
  "h_replay_size (y_hub (stream_step y ev)) = h_replay_size (y_hub y)"
  by (cases ev)
     (auto simp: case_prod_beta subscribe_def close_gen_def unsubscribe_def
       split: sum.splits option.splits)

lemma run_replay_size [simp]:
  "h_replay_size (y_hub (stream_run y evs)) = h_replay_size (y_hub y)"
  by (induction evs arbitrary: y) auto

fun publications :: "stream_event list \<Rightarrow> nat" where
  "publications [] = 0"
| "publications (Publish now m d # evs) = Suc (publications evs)"
| "publications (Open cs nss since # evs) = publications evs"
| "publications (Resume i # evs) = publications evs"
| "publications (Timeout i # evs) = publications evs"
| "publications (Close i # evs) = publications evs"

lemma step_log: "length (y_log (stream_step y ev)) = length (y_log y) + publications [ev]"
  by (cases ev) (auto simp: case_prod_beta split: sum.splits option.splits)

lemma publications_Cons: "publications (ev # evs) = publications [ev] + publications evs"
  by (cases ev) auto

text \<open>While no more is published than the buffer and a queue can hold, nothing is lost.\<close>

lemma queue_le_log: "sub_inv since log s \<Longrightarrow> length (s_queue s) \<le> length log"
proof -
  assume a: "sub_inv since log s"
  then have "card (set (s_queue s)) \<le> card (set log)"
    using wanted_subset [of since s log] by (intro card_mono) (auto simp: sub_inv_def)
  moreover have "distinct (s_queue s)" using a by (auto simp: sub_inv_def incr_distinct)
  ultimately show ?thesis using card_length [of log] by (simp add: distinct_card)
qed

lemma bounded_lossless:
  assumes "sys_inv y" and "length (y_log y) + publications evs \<le> h_replay_size (y_hub y)"
    and "length (y_log y) + publications evs \<le> MAX_QUEUE"
  shows "lossless i y evs"
  using assms
proof (induction evs arbitrary: y)
  case Nil
  then show ?case by simp
next
  case (Cons ev evs)
  have sizes: "length (y_log y) + publications [ev] + publications evs \<le> h_replay_size (y_hub y)"
    "length (y_log y) + publications [ev] + publications evs \<le> MAX_QUEUE"
    using Cons.prems by (simp_all add: publications_Cons [of ev evs])
  have hub: "h_buffer (y_hub y) = y_log y"
    using Cons.prems(1) sizes by (auto simp: sys_inv_def hub_log_def last_n_all)
  have "lossless_step i y ev"
  proof (cases "y_conns y i")
    case (Some c)
    then obtain s where s: "h_subs (y_hub y) i = Some s" using Cons.prems(1) by (auto simp: sys_inv_def)
    then have "length (s_queue s) \<le> length (y_log y)"
      using sys_invD [OF Cons.prems(1) Some] queue_le_log by (auto simp: conn_inv_def)
    with Some s sizes hub show ?thesis
      by (auto simp: lossless_step_def retained_def split: stream_event.splits)
  qed (simp add: lossless_step_def)
  moreover have "lossless i (stream_step y ev) evs"
    using Cons.IH [OF sys_inv_step [OF Cons.prems(1)]] sizes by (simp add: step_log)
  ultimately show ?case by simp
qed


text \<open>The history only grows, and what a connection has read tells where it stands in it.\<close>

lemma log_grows: "\<exists>more. y_log (stream_run y evs) = y_log y @ more"
proof (induction evs arbitrary: y)
  case (Cons ev evs)
  have "\<exists>more. y_log (stream_step y ev) = y_log y @ more"
    by (cases ev) (auto simp: case_prod_beta split: sum.split option.split)
  then obtain more where "y_log (stream_step y ev) = y_log y @ more" by (elim exE)
  with Cons.IH [of "stream_step y ev"] show ?case by auto
qed simp

definition last_seen :: "conn \<Rightarrow> int" where
  "last_seen c =
     (if events_of (c_out c) = [] then since_cursor (c_since c) else e_seq (last (events_of (c_out c))))"

lemma since_last_seen:
  assumes log: "numbered log" and seen: "events_of (c_out c) @ rest = wanted (c_since c) s log"
    and filter_eq: "same_filter s s'"
  shows "wanted (Some (last_seen c)) s' log = rest"
proof -
  let ?seen = "events_of (c_out c)"
  have mono: "incr e_seq (?seen @ rest)" unfolding seen by (rule incr_wanted [OF log])
  have above: "since_cursor (c_since c) < e_seq e" if "e \<in> set (?seen @ rest)" for e
    using that unfolding seen by (simp add: wanted_def in_filter_def)
  have zero: "0 \<le> since_cursor (c_since c)" by (simp add: since_cursor_def)
  have le: "since_cursor (c_since c) \<le> last_seen c"
    using above [of "last ?seen"] by (auto simp: last_seen_def)
  then have cursor: "since_cursor (Some (last_seen c)) = last_seen c"
    using zero by (simp add: since_cursor_def)
  have "\<not> last_seen c < e_seq e" if "e \<in> set ?seen" for e
    using incr_le_last [of e_seq ?seen e] mono that by (auto simp: last_seen_def incr_append)
  moreover have "last_seen c < e_seq e" if "e \<in> set rest" for e
    using mono that above [of e] by (auto simp: last_seen_def incr_append)
  ultimately have "filter (\<lambda>e. last_seen c < e_seq e) (?seen @ rest) = rest"
    by (simp add: filter_empty_conv filter_id_conv)
  moreover have "wanted (Some (last_seen c)) s log = filter (\<lambda>e. last_seen c < e_seq e) (wanted (c_since c) s log)"
    using le by (auto simp: wanted_def in_filter_def cursor intro: filter_cong)
  ultimately show ?thesis using wanted_same_filter [OF filter_eq] by (simp add: seen)
qed


section \<open>Properties\<close>

text \<open>C1: exact-once handoff. However publications, other connections and the resumptions of
  a connection interleave, as long as nothing is lost for it (its queue never overflows and
  the buffer still holds what it wants when it replays), the events it has yielded, then
  those it is about to replay, then those its live loop will still take from its queue, are
  exactly the published events newer than its \<open>since\<close> that pass its filter: each once, in
  order of publication.\<close>

theorem stream_exact_once:
  assumes "lossless i (new_sys n) evs"
    and "y_conns (stream_run (new_sys n) evs) i = Some c"
    and "h_subs (y_hub (stream_run (new_sys n) evs)) i = Some s"
    and "after_replay (c_phase c)"
  shows "events_of (c_out c) @ to_replay (c_phase c) @ pending s
           = wanted (c_since c) s (y_log (stream_run (new_sys n) evs))"
  using reached_exact [OF assms] by (simp add: delivered_def)

definition demo_stream :: "stream_event list" where
  "demo_stream =
     [Publish 5 ''lifecycle'' PNone, Publish 6 ''messages'' (PInt 1),
      Open (Some [PStr ''messages'']) None (Some 1), Publish 7 ''messages'' (PInt 2),
      Resume 0, Resume 0, Publish 8 ''values'' PNone, Publish 9 ''messages'' (PInt 3),
      Resume 0, Resume 0]"

lemmas stream_eval = demo_stream_def new_sys_def new_hub_def publish_def make_envelope_def Let_def
  subscribe_def new_subscription_def push_bounded_def last_n_def deliver_def put_nowait_def
  matches_def channel_ok_def namespace_ok_def channel_for_method_def METHOD_CHANNELS_def
  MAX_QUEUE_def replay_def replay_sub_def replay_loop_def live_loop_def yield_event_def lossless_step_def
  retained_def wanted_def in_filter_def since_cursor_def pending_def

theorem stream_exact_once_witness:
  "\<exists>c s. y_conns (stream_run (new_sys 4) demo_stream) 0 = Some c \<and>
     h_subs (y_hub (stream_run (new_sys 4) demo_stream)) 0 = Some s \<and>
     map e_seq (events_of (c_out c) @ to_replay (c_phase c) @ pending s) = [2, 3, 5] \<and>
     events_of (c_out c) @ to_replay (c_phase c) @ pending s
       = wanted (c_since c) s (y_log (stream_run (new_sys 4) demo_stream))"
proof -
  let ?y = "stream_run (new_sys 4) demo_stream"
  obtain c s where cs: "y_conns ?y 0 = Some c" "h_subs (y_hub ?y) 0 = Some s"
    "after_replay (c_phase c)" "lossless 0 (new_sys 4) demo_stream"
    "map e_seq (events_of (c_out c) @ to_replay (c_phase c) @ pending s) = [2, 3, 5]"
    by (simp add: stream_eval)
  show ?thesis
    by (rule exI [of _ c], rule exI [of _ s], intro conjI cs)
       (rule stream_exact_once [OF cs(4,1,2,3)])
qed



definition dropped_client :: "stream_event list" where
  "dropped_client =
     [Open None None None, Resume 0, Publish 5 ''messages'' (PInt 1), Publish 6 ''messages'' (PInt 2),
      Resume 0]"

definition returning_client :: "stream_event list" where
  "returning_client =
     [Close 0, Publish 7 ''messages'' (PInt 3), Open None None (Some 1), Resume 1, Resume 1, Resume 1,
      Publish 8 ''values'' PNone]"


text \<open>At most once and in order, without any assumption on losses: in every run, what a
  connection has yielded has strictly increasing sequence numbers and consists of published
  events newer than its \<open>since\<close> that pass its filter.\<close>

theorem stream_at_most_once:
  assumes "y_conns (stream_run (new_sys n) evs) i = Some c"
    and "h_subs (y_hub (stream_run (new_sys n) evs)) i = Some s"
  shows "incr e_seq (events_of (c_out c)) \<and>
         set (events_of (c_out c)) \<subseteq> set (wanted (c_since c) s (y_log (stream_run (new_sys n) evs)))"
  using sys_invD(1) [OF stream_reached_inv assms] by (auto simp: conn_inv_def delivered_def incr_append)

theorem stream_at_most_once_witness:
  "\<exists>c s. y_conns (stream_run (new_sys 1) demo_stream) 0 = Some c \<and>
     h_subs (y_hub (stream_run (new_sys 1) demo_stream)) 0 = Some s \<and>
     map e_seq (events_of (c_out c)) = [3, 5] \<and> incr e_seq (events_of (c_out c))"
proof -
  let ?y = "stream_run (new_sys 1) demo_stream"
  obtain c s where cs: "y_conns ?y 0 = Some c" "h_subs (y_hub ?y) 0 = Some s"
    "map e_seq (events_of (c_out c)) = [3, 5]"
    by (simp add: stream_eval)
  show ?thesis
    by (rule exI [of _ c], rule exI [of _ s], intro conjI cs)
       (use stream_at_most_once [OF cs(1,2)] in simp)
qed

text \<open>With the buffer size \<open>n\<close>, a run of at most \<open>n\<close> publications (and at most
  \<open>MAX_QUEUE\<close>) loses nothing: a connection waiting on an empty queue has yielded exactly the
  events it wants.\<close>

theorem stream_complete_when_bounded:
  assumes "publications evs \<le> n" and "publications evs \<le> MAX_QUEUE"
    and "y_conns (stream_run (new_sys n) evs) i = Some c"
    and "h_subs (y_hub (stream_run (new_sys n) evs)) i = Some s"
    and "c_phase c = GLive" and "s_queue s = []"
  shows "events_of (c_out c) = wanted (c_since c) s (y_log (stream_run (new_sys n) evs))"
proof -
  have "lossless i (new_sys n) evs"
    using assms(1,2) by (intro bounded_lossless sys_inv_new) (simp_all add: new_sys_def new_hub_def)
  from reached_exact [OF this assms(3,4)] assms(5,6) show ?thesis
    by (simp add: delivered_def pending_def)
qed

theorem stream_complete_when_bounded_witness:
  "\<exists>c s. y_conns (stream_run (new_sys 500) demo_stream) 0 = Some c \<and>
     h_subs (y_hub (stream_run (new_sys 500) demo_stream)) 0 = Some s \<and>
     events_of (c_out c) = wanted (c_since c) s (y_log (stream_run (new_sys 500) demo_stream))"
proof -
  let ?y = "stream_run (new_sys 500) demo_stream"
  obtain c s where cs: "y_conns ?y 0 = Some c" "h_subs (y_hub ?y) 0 = Some s"
    "c_phase c = GLive" "s_queue s = []"
    by (simp add: stream_eval)
  have "publications demo_stream \<le> 500" "publications demo_stream \<le> MAX_QUEUE"
    by (simp_all add: demo_stream_def MAX_QUEUE_def)
  from stream_complete_when_bounded [OF this cs] cs show ?thesis by auto
qed

definition gap_run :: "stream_event list" where
  "gap_run =
     [Open None None None, Publish 5 ''messages'' (PInt 1), Publish 6 ''messages'' (PInt 2),
      Resume 0, Resume 0, Resume 0]"

text \<open>Outside that bound events are lost. A connection opened before two publications
  and first resumed after them, on a hub that retains one event, yields only the second: the
  first is on its queue, but the replay has moved the cursor past it.\<close>

theorem stream_replay_gap:
  "\<exists>c s. y_conns (stream_run (new_sys 1) gap_run) 0 = Some c \<and>
     h_subs (y_hub (stream_run (new_sys 1) gap_run)) 0 = Some s \<and>
     c_phase c = GLive \<and> s_queue s = [] \<and>
     map e_seq (events_of (c_out c)) = [2] \<and>
     map e_seq (wanted (c_since c) s (y_log (stream_run (new_sys 1) gap_run))) = [1, 2]"
  by (simp add: gap_run_def stream_eval)

text \<open>The hub after any run: its events are numbered 1, 2, ... without a gap, its counter
  is their number, and its buffer is the last \<open>n\<close> of them.\<close>

theorem hub_retains_last:
  "numbered (y_log (stream_run (new_sys n) evs)) \<and>
   h_seq (y_hub (stream_run (new_sys n) evs)) = int (length (y_log (stream_run (new_sys n) evs))) \<and>
   h_buffer (y_hub (stream_run (new_sys n) evs)) = last_n n (y_log (stream_run (new_sys n) evs))"
  using stream_reached_inv [of n evs] by (simp add: sys_inv_def hub_log_def new_sys_def new_hub_def)


text \<open>Closing a connection unregisters its subscription, except when its generator was
  never started: then the subscription stays registered with the hub for good.\<close>

theorem close_unregisters_iff_started:
  assumes "y_conns (stream_run (new_sys n) evs) i = Some c" and "c_phase c \<noteq> GClosed"
  shows "i \<in> set (h_subscribers (y_hub (stream_step (stream_run (new_sys n) evs) (Close i))))
           \<longleftrightarrow> c_phase c = GStart"
proof -
  have "i \<in> set (h_subscribers (y_hub (stream_run (new_sys n) evs)))"
    using stream_reached_inv [of n evs] assms by (auto simp: sys_inv_def)
  with assms show ?thesis by (simp add: case_prod_beta close_gen_def unsubscribe_def)
qed

theorem close_unregisters_iff_started_witness:
  "0 \<in> set (h_subscribers (y_hub (stream_step (stream_run (new_sys 3) [Open None None None]) (Close 0))))"
proof -
  let ?y = "stream_run (new_sys 3) [Open None None None]"
  obtain c where "y_conns ?y 0 = Some c" "c_phase c \<noteq> GClosed" "c_phase c = GStart"
    by (simp add: stream_eval)
  with close_unregisters_iff_started [OF this(1,2)] show ?thesis by blast
qed

end
