(* ===== verification/Sse.thy ===== *)
theory Sse
  imports Streams
begin

text \<open>
  The wire format of the event stream: \<open>sse_block\<close> of \<open>router.py\<close>, the comment blocks of
  the generator, and the text a connection has received. What a block means is given by the
  line structure of the event stream format: fields \<open>event\<close>, \<open>data\<close>, \<open>id\<close> on one line each,
  ended by an empty line.
\<close>

section \<open>Rendering\<close>

text \<open>The envelope as the dict that \<open>publish\<close> builds, in its key order.\<close>

definition envelope_dict :: "envelope \<Rightarrow> pyval" where
  "envelope_dict e =
     PDict [(''type'', PStr ''event''),
            (''event_id'', PStr (e_id e)),
            (''seq'', PInt (e_seq e)),
            (''method'', PStr (e_method e)),
            (''params'', PDict [(''namespace'', PList (map PStr (e_namespace e))),
                                (''timestamp'', PInt (e_timestamp e)),
                                (''data'', e_data e)])]"

abbreviation LF :: char where "LF \<equiv> CHR 0x0A"
abbreviation CR :: char where "CR \<equiv> CHR 0x0D"

definition sse_block :: "envelope \<Rightarrow> exn + string" where
  "sse_block e =
     (case json_dumps '','' '':'' (envelope_dict e) of
        Inl x \<Rightarrow> Inl x
      | Inr d \<Rightarrow> Inr (''event: '' @ e_method e @ [LF] @ ''data: '' @ d @ [LF]
                        @ ''id: '' @ show_int (e_seq e) @ [LF, LF]))"

text \<open>What the generator yields, as text; only serialisable events are ever yielded.\<close>

fun render :: "sse_out \<Rightarrow> string" where
  "render Connected = '': connected'' @ [LF, LF]"
| "render Heartbeat = '': heartbeat'' @ [LF, LF]"
| "render (Event e) = (case sse_block e of Inl x \<Rightarrow> [] | Inr b \<Rightarrow> b)"

lemma serialisable_list_strings [simp]: "serialisable_list (map PStr ss)"
  by (induction ss) simp_all

lemma serialisable_envelope: "serialisable (envelope_dict e) = serialisable (e_data e)"
  by (simp add: envelope_dict_def)

lemma sse_block_iff: "(\<exists>b. sse_block e = Inr b) \<longleftrightarrow> serialisable (e_data e)"
  by (simp add: sse_block_def json_dumps_def serialisable_envelope)

section \<open>Lines\<close>

definition is_eol :: "char \<Rightarrow> bool" where
  "is_eol c = (c = LF \<or> c = CR)"

fun sse_lines :: "string \<Rightarrow> string list" where
  "sse_lines [] = [[]]"
| "sse_lines (c # cs) =
     (if is_eol c then [] # sse_lines cs
      else (case sse_lines cs of [] \<Rightarrow> [[c]] | l # ls \<Rightarrow> (c # l) # ls))"

lemma sse_lines_nonempty: "sse_lines s \<noteq> []"
  by (cases s) (auto split: list.splits)

lemma sse_lines_line: "list_all (\<lambda>c. \<not> is_eol c) x \<Longrightarrow> sse_lines (x @ LF # y) = x # sse_lines y"
  by (induction x) (auto simp: is_eol_def)

text \<open>Printable text: no control characters, hence no line ends.\<close>

definition plain :: "string \<Rightarrow> bool" where
  "plain s = list_all (\<lambda>c. 32 \<le> (of_char c :: nat)) s"

lemma plain_simps [simp]:
  "plain []" "plain (c # s) \<longleftrightarrow> 32 \<le> (of_char c :: nat) \<and> plain s" "plain (s @ t) \<longleftrightarrow> plain s \<and> plain t"
  by (simp_all add: plain_def)

lemma plain_no_eol: "plain s \<Longrightarrow> list_all (\<lambda>c. \<not> is_eol c) s"
  by (auto simp: plain_def is_eol_def list_all_iff)

lemma digit_plain: "is_digit c \<Longrightarrow> 32 \<le> (of_char c :: nat)"
  by (auto simp: is_digit_def)

lemma plain_digits: "list_all is_digit s \<Longrightarrow> plain s"
  by (auto simp: plain_def list_all_iff digit_plain)

lemma plain_takeWhile: "plain (takeWhile is_digit s)"
  by (rule plain_digits) (auto simp: list_all_iff dest: set_takeWhileD)

lemma plain_show_int: "plain (show_int i)"
  using plain_digits [OF show_nat_digits] by (simp add: show_int_def)

lemma hex2_plain: "plain (hex2 n)"
proof -
  have "\<forall>k \<in> set [0..<16]. 32 \<le> (of_char (hex_digit k) :: nat)"
    by (simp add: upt_rec hex_digit_def)
  then show ?thesis by (simp add: hex2_def)
qed

lemma esc_char_plain: "plain (esc_char c)"
  by (simp add: esc_char_def hex2_plain)

lemma json_str_plain: "plain (json_str s)"
  by (induction s) (simp_all add: json_str_def esc_char_plain)

lemma parse_number_text_plain:
  assumes "parse_number s = Inr (PFloat t, r)"
  shows "plain t"
proof -
  have ip: "plain (int_part x)" for x by (simp add: int_part_def Let_def plain_takeWhile)
  have fp: "plain (fst (frac_part x))" for x by (simp add: frac_part_def Let_def plain_takeWhile)
  have ep: "plain (fst (exp_part x))" for x
    by (auto simp: exp_part_def Let_def case_prod_beta plain_takeWhile split_sign_def starts_def)
  show ?thesis using assms ip fp ep
    by (auto simp: parse_number_def Let_def case_prod_beta split_minus_def split: if_splits)
qed

lemma float_ok_plain: "float_ok s \<Longrightarrow> plain s"
  using parse_number_text_plain by (auto simp: float_ok_def)

lemma enc_plain:
  "plain isep \<Longrightarrow> plain ksep \<Longrightarrow> json_ok v \<Longrightarrow> plain (enc isep ksep v)"
  "plain isep \<Longrightarrow> plain ksep \<Longrightarrow> json_ok_list xs \<Longrightarrow> plain (enc_list isep ksep xs)"
  "plain isep \<Longrightarrow> plain ksep \<Longrightarrow> json_ok_items d \<Longrightarrow> plain (enc_items isep ksep d)"
  by (induction isep ksep v and isep ksep xs and isep ksep d rule: enc_enc_list_enc_items.induct)
     (auto simp: plain_show_int json_str_plain float_ok_plain)

section \<open>Properties\<close>

text \<open>C32: a block is read back. For an envelope of JSON data and a method without line ends,
  the block is exactly one \<open>event\<close> line, one \<open>data\<close> line, one \<open>id\<close> line and an empty line, so
  no payload can break the framing, and the data line parses to the envelope.\<close>

theorem sse_block_roundtrip:
  assumes "json_ok (envelope_dict e)" and "list_all (\<lambda>c. \<not> is_eol c) (e_method e)"
  shows "\<exists>b d. sse_block e = Inr b \<and>
     sse_lines b = [''event: '' @ e_method e, ''data: '' @ d, ''id: '' @ show_int (e_seq e), [], []] \<and>
     json_loads d = Inr (envelope_dict e)"
proof -
  let ?d = "enc '','' '':'' (envelope_dict e)"
  have sep: "separators '','' '':''" by (simp add: separators_def)
  note rt = json_roundtrip_law [OF sep assms(1)]
  have d: "list_all (\<lambda>c. \<not> is_eol c) ?d" and i: "list_all (\<lambda>c. \<not> is_eol c) (show_int (e_seq e))"
    using enc_plain(1) [of "'',''" "'':''"] assms(1) by (simp_all add: plain_no_eol plain_show_int)
  have l: "sse_lines (''event: '' @ e_method e @ [LF] @ ''data: '' @ ?d @ [LF]
                        @ ''id: '' @ show_int (e_seq e) @ [LF, LF])
      = [''event: '' @ e_method e, ''data: '' @ ?d, ''id: '' @ show_int (e_seq e), [], []]"
    using sse_lines_line [of "''event: '' @ e_method e"] sse_lines_line [of "''data: '' @ ?d"]
      sse_lines_line [of "''id: '' @ show_int (e_seq e)"] assms(2) d i
    by (simp add: is_eol_def)
  show ?thesis
    by (rule exI, rule exI [of _ ?d]) (use rt l in \<open>simp add: sse_block_def del: sse_lines.simps\<close>)
qed

theorem sse_block_roundtrip_witness:
  "\<exists>b d. sse_block (make_envelope 17 3 ''messages'' (PDict [(''text'', PStr [LF, CHR 0xE9])]) None None None) = Inr b \<and>
     sse_lines b = [''event: messages'', ''data: '' @ d, ''id: 3'', [], []]"
proof -
  let ?e = "make_envelope 17 3 ''messages'' (PDict [(''text'', PStr [LF, CHR 0xE9])]) None None None"
  have "json_ok (envelope_dict ?e)" by code_simp
  moreover have "list_all (\<lambda>c. \<not> is_eol c) (e_method ?e)" by code_simp
  ultimately have "\<exists>b d. sse_block ?e = Inr b \<and>
     sse_lines b = [''event: '' @ e_method ?e, ''data: '' @ d, ''id: '' @ show_int (e_seq ?e), [], []] \<and>
     json_loads d = Inr (envelope_dict ?e)"
    by (rule sse_block_roundtrip)
  moreover have "e_method ?e = ''messages''" "show_int (e_seq ?e) = ''3''"
    by (simp add: make_envelope_def Let_def, code_simp)
  ultimately show ?thesis by auto
qed

text \<open>An event that is not JSON serialisable ends every stream it reaches. A published
  payload that holds an object leaves the waiting connection closed, unsubscribed and without
  the event, and the event published after it is not delivered either.\<close>

theorem unserialisable_event_ends_stream:
  "\<exists>c. y_conns (stream_run (new_sys 500)
          [Open None None None, Resume 0, Resume 0,
           Publish 5 ''input.requested'' (PDict [(''payload'', PObj None [] ''x'' ''x'')]),
           Resume 0, Publish 6 ''lifecycle'' PNone, Resume 0]) 0 = Some c \<and>
       c_phase c = GClosed \<and> c_out c = [Connected]"
  by (simp add: stream_eval unsubscribe_def)

end
