(* ===== verification/RunTrace.thy ===== *)
theory RunTrace
  imports Runner
begin

text \<open>
  What the runs of a thread publish over time. The run system is extended by a trace of all
  publications per thread; the invariant says that the lifecycles of the runs of a thread follow
  each other and never mix. A second part follows an interrupt from the run that requests input to
  the run that answers it.
\<close>

section \<open>The traced system\<close>

type_synonym run_trace = "string \<Rightarrow> emission list"

text \<open>What an event of the run system publishes on a thread.\<close>

definition emits :: "(pyval \<Rightarrow> exn + pyval) \<Rightarrow> manager \<Rightarrow> run_event \<Rightarrow> run_trace" where
  "emits mtd m ev tid =
     (case ev of
        TaskStep j ts \<Rightarrow>
          (case m_tasks m j of
             None \<Rightarrow> []
           | Some t \<Rightarrow> if t_thread t = tid then fst (exec_step mtd t) else [])
      | _ \<Rightarrow> [])"

definition traced_run_step ::
  "(pyval \<Rightarrow> exn + pyval) \<Rightarrow> manager \<times> run_trace \<Rightarrow> run_event \<Rightarrow> manager \<times> run_trace" where
  "traced_run_step mtd x ev = (run_step mtd (fst x) ev, \<lambda>tid. snd x tid @ emits mtd (fst x) ev tid)"

lemma traced_run_fst: "fst (foldl (traced_run_step mtd) x evs) = runs_from mtd (fst x) evs"
  by (induction evs arbitrary: x) (simp_all add: traced_run_step_def)

section \<open>Runs of a thread follow each other\<close>

definition announcements :: "string list set" where
  "announcements =
     {[''started'', ''running''], [''started'', ''running'', ''completed''],
      [''started'', ''running'', ''failed''], [''started'', ''running'', ''interrupted'']}"

text \<open>The statuses of runs, one run after the other.\<close>

definition serial :: "string list \<Rightarrow> bool" where
  "serial ss = (\<exists>runs. ss = concat runs \<and> set runs \<subseteq> announcements)"

lemma serial_Nil [simp]: "serial []"
  unfolding serial_def by (intro exI [of _ "[]"]) simp

lemma serial_snoc: "serial ss \<Longrightarrow> r \<in> announcements \<Longrightarrow> serial (ss @ r)"
  unfolding serial_def
proof (elim exE conjE)
  fix runs
  assume "ss = concat runs" "set runs \<subseteq> announcements" "r \<in> announcements"
  then show "\<exists>runs. ss @ r = concat runs \<and> set runs \<subseteq> announcements"
    by (intro exI [of _ "runs @ [r]"]) simp
qed

text \<open>A run of the thread has announced that it runs and is not over.\<close>

definition live_task :: "(nat \<Rightarrow> task option) \<Rightarrow> string \<Rightarrow> nat \<Rightarrow> bool" where
  "live_task h tid j = (case h j of None \<Rightarrow> False | Some t \<Rightarrow> t_thread t = tid \<and> abs_life t = Active)"

definition live :: "manager \<Rightarrow> string \<Rightarrow> bool" where
  "live m tid = (\<exists>j. live_task (m_tasks m) tid j)"

definition serial_thread :: "bool \<Rightarrow> string list \<Rightarrow> bool" where
  "serial_thread running ss =
     (if running then \<exists>before. serial before \<and> ss = before @ [''started'', ''running''] else serial ss)"

definition serial_inv :: "manager \<times> run_trace \<Rightarrow> bool" where
  "serial_inv x = (run_inv (fst x) \<and> (\<forall>tid. serial_thread (live (fst x) tid) (statuses (snd x tid))))"

lemma abs_life_stage:
  "abs_life t = NotBegun \<longleftrightarrow> t_stage t = Queued"
  "abs_life t = Active \<longleftrightarrow> t_stage t = Streaming \<or> t_stage t = Snapshotting"
  by (simp_all add: abs_life_def split: stage.split)

lemma live_task_alone:
  assumes "run_inv m" and "m_tasks m j = Some t" and "t_stage t \<noteq> Settled" and "live_task (m_tasks m) (t_thread t) k"
  shows "k = j"
proof -
  from assms(4) obtain u where u: "m_tasks m k = Some u" "t_thread u = t_thread t" "t_stage u \<noteq> Settled"
    by (auto simp: live_task_def abs_life_stage split: option.splits)
  from occupant_unique [OF assms(1), of "Running k" "t_thread t" "Running j"]
    task_occupies [OF u(1,3)] task_occupies [OF assms(2,3)] u(2) show ?thesis by simp
qed

lemma live_step:
  assumes t: "m_tasks m j = Some t" and e: "exec_step mtd t = (out, pd, t')"
  shows "live_task (m_tasks (task_step mtd j ts m)) tid k \<longleftrightarrow>
     (if k = j then t_thread t = tid \<and> abs_life t' = Active else live_task (m_tasks m) tid k)"
  using t exec_step_ids [OF e] by (auto simp: task_step_def e live_task_def)

text \<open>A step of a run on its own thread.\<close>

lemma serial_task_step:
  assumes inv: "run_inv m" and t: "m_tasks m j = Some t" and e: "exec_step mtd t = (out, pd, t')"
    and s: "serial_thread (live m (t_thread t)) ss"
  shows "serial_thread (live (task_step mtd j ts m) (t_thread t)) (ss @ statuses out)"
proof -
  let ?live = "live m (t_thread t)" and ?live' = "live (task_step mtd j ts m) (t_thread t)"
  note step = exec_step_life [OF e]
  show ?thesis
  proof (cases "abs_life t")
    case (Over oc)
    with step have "statuses out = []" "abs_life t \<noteq> Active" "abs_life t' \<noteq> Active" by auto
    moreover have "live_task (m_tasks m) (t_thread t) j \<longleftrightarrow> abs_life t = Active" using t by (simp add: live_task_def)
    ultimately have "live_task (m_tasks (task_step mtd j ts m)) (t_thread t) k \<longleftrightarrow> live_task (m_tasks m) (t_thread t) k" for k
      using live_step [OF t e, of ts "t_thread t" k] by (cases "k = j") simp_all
    then have "?live' = ?live" by (simp add: live_def)
    with s \<open>statuses out = []\<close> show ?thesis by simp
  next
    case NotBegun
    then have alone: "\<not> live_task (m_tasks m) (t_thread t) k" for k
      using live_task_alone [OF inv t, of k] t by (auto simp: live_task_def abs_life_stage)
    then have "?live' \<longleftrightarrow> abs_life t' = Active" using live_step [OF t e] by (auto simp: live_def)
    moreover have "\<not> ?live" using alone by (simp add: live_def)
    ultimately show ?thesis using s step NotBegun
      by (auto simp: serial_thread_def elim!: life_step_NotBegun)
  next
    case Active
    then have live: "?live" using t unfolding live_def by (intro exI [of _ j]) (simp add: live_task_def)
    have "?live' \<longleftrightarrow> abs_life t' = Active"
      using live_step [OF t e] live_task_alone [OF inv t] Active by (auto simp: live_def abs_life_stage)
    moreover from live s obtain before where
      b: "serial before" "ss = before @ [''started'', ''running'']" by (auto simp: serial_thread_def)
    moreover consider (work) "statuses out = []" "abs_life t' = Active"
      | (over) "statuses out = []" "abs_life t' \<noteq> Active"
      | (ended) st where "statuses out = [st]" "st \<in> {''completed'', ''failed'', ''interrupted''}" "abs_life t' \<noteq> Active"
      using step Active by (auto elim!: life_step_Active)
    then have "abs_life t' = Active \<and> statuses out = [] \<or>
      abs_life t' \<noteq> Active \<and> [''started'', ''running''] @ statuses out \<in> announcements"
      by cases (auto simp: announcements_def)
    moreover have "serial (before @ [''started'', ''running''] @ statuses out)"
      if "[''started'', ''running''] @ statuses out \<in> announcements"
      using b(1) that by (rule serial_snoc)
    ultimately show ?thesis by (auto simp: serial_thread_def)
  qed
qed

text \<open>Events that are no steps of a run.\<close>

lemma live_other:
  assumes inv: "run_inv m" and ev: "\<And>j ts. ev \<noteq> TaskStep j ts"
  shows "live (run_step mtd m ev) tid = live m tid"
proof -
  have start: "live (snd (start_finish i p m)) tid = live m tid" for i p
  proof -
    have "live_task ((m_tasks m)(m_next m \<mapsto> new_task k rid aid script getter)) tid = live_task (m_tasks m) tid"
      for k rid aid script getter
      using next_is_new [OF inv] by (intro ext) (simp add: live_task_def abs_life_def new_task_def)
    then show ?thesis
      by (cases "p_outcome p"; cases "run_config (p_thread p) (p_config p) (p_metadata p)")
         (simp_all add: start_finish_def Let_def live_def)
  qed
  have reserve: "live m' tid = live m tid" if "start_reserve k aid inp config metadata rid m = Inr (i, m')"
    for k aid inp config metadata rid i m'
    using that by (auto simp: start_reserve_def Let_def live_def split: option.splits)
  have cancelled: "live (snd (cancel k rid m)) tid = live m tid" for k rid
  proof -
    have "live_task ((m_tasks m)(j := map_option request_cancel (m_tasks m j))) tid = live_task (m_tasks m) tid" for j
      by (rule ext) (auto simp: live_task_def split: option.split)
    then show ?thesis by (simp add: cancel_def live_def split: option.split owner.split)
  qed
  show ?thesis
  proof (cases ev)
    case (StartCall k aid inp config metadata rid)
    then show ?thesis by (auto simp: reserve split: sum.split)
  next
    case (RespondCall k iid response aid rid)
    then show ?thesis by (auto simp: reserve respond_reserve_def split: sum.split)
  next
    case (StartDone i)
    then show ?thesis by (auto simp: start split: option.split)
  next
    case (TaskStep j ts)
    with ev [of j ts] show ?thesis by simp
  next
    case (CancelCall k rid)
    then show ?thesis by (simp add: cancelled)
  qed (simp_all add: start_cancelled_def task_callback_def live_def split: option.split)
qed

lemma serial_inv_step: "serial_inv x \<Longrightarrow> serial_inv (traced_run_step mtd x ev)"
proof -
  assume "serial_inv x"
  then have inv: "run_inv (fst x)" and s: "\<And>tid. serial_thread (live (fst x) tid) (statuses (snd x tid))"
    by (simp_all add: serial_inv_def)
  have "serial_thread (live (run_step mtd (fst x) ev) tid) (statuses (snd x tid @ emits mtd (fst x) ev tid))" for tid
  proof (cases "\<exists>j ts. ev = TaskStep j ts")
    case False
    then have "emits mtd (fst x) ev tid = []" by (auto simp: emits_def split: run_event.split)
    moreover have "live (run_step mtd (fst x) ev) tid = live (fst x) tid"
      using False by (intro live_other inv) auto
    ultimately show ?thesis using s by simp
  next
    case True
    then obtain j ts where ev: "ev = TaskStep j ts" by blast
    show ?thesis
    proof (cases "m_tasks (fst x) j")
      case None
      with s show ?thesis by (simp add: ev emits_def task_step_def)
    next
      case (Some t)
      obtain out pd t' where e: "exec_step mtd t = (out, pd, t')" by (metis prod_cases3)
      show ?thesis
      proof (cases "t_thread t = tid")
        case True
        with serial_task_step [OF inv Some e s [of "t_thread t"]] Some e show ?thesis by (simp add: ev emits_def)
      next
        case False
        have "live_task (m_tasks (task_step mtd j ts (fst x))) tid k = live_task (m_tasks (fst x)) tid k" for k
          using live_step [OF Some e, of ts tid k] False Some by (auto simp: live_task_def)
        with s Some False show ?thesis by (simp add: ev emits_def live_def)
      qed
    qed
  qed
  with run_inv_step [OF inv] show ?thesis by (simp add: serial_inv_def traced_run_step_def)
qed

interpretation traced_runs: event_system "traced_run_step mtd" serial_inv for mtd
  by unfold_locales (rule serial_inv_step)

lemma m_tasks_new: "m_tasks (new_manager reg n) = (\<lambda>_. None)"
  by (simp add: new_manager_def)

lemma serial_inv_new: "serial_inv (new_manager reg n, \<lambda>_. [])"
  by (simp add: serial_inv_def run_inv_new serial_thread_def live_def live_task_def m_tasks_new)

text \<open>The statuses of a thread: runs one after the other, the last one possibly still running.\<close>

lemma serial_thread_serial: "serial_thread r ss \<Longrightarrow> serial ss"
  by (auto simp: serial_thread_def announcements_def intro: serial_snoc split: if_splits)

section \<open>From a requested input to the run that answers it\<close>

definition requests_input :: "emission list \<Rightarrow> bool" where
  "requests_input out = (\<exists>e \<in> set out. fst e = ''input.requested'')"

lemma requests_input_simps [simp]:
  "requests_input (xs @ ys) \<longleftrightarrow> requests_input xs \<or> requests_input ys"
  "requests_input (e # xs) \<longleftrightarrow> fst e = ''input.requested'' \<or> requests_input xs"
  "\<not> requests_input []" "\<not> requests_input (message_events fs)" "fst (lifecycle g st extra) = ''lifecycle''"
  by (auto simp: requests_input_def message_events_def lifecycle_def)

lemma fail_task_requests: "fail_task e t = (out, t') \<Longrightarrow> \<not> requests_input out"
  by (auto simp: fail_task_def split: prod.splits option.splits)

lemma cancel_task_requests: "cancel_task t = (out, t') \<Longrightarrow> \<not> requests_input out"
  by (auto simp: cancel_task_def split: prod.splits option.splits)

lemma take_item_requests: "take_item mtd it t = (out, t') \<Longrightarrow> \<not> requests_input out"
  by (auto simp: take_item_def fail_task_requests split: item.splits prod.splits option.splits sum.splits)

text \<open>The only step that requests input is the conclusion of an interrupted run.\<close>

lemma conclude_requests:
  assumes "conclude vs t = (out, pd, t')" and "requests_input out"
  shows "\<exists>interrupts. out = lifecycle (t_assistant t) ''interrupted'' [] # map input_requested interrupts \<and>
     pd = Some (pending_map (t_assistant t) interrupts) \<and> t_stage t' = Settled"
  using assms
  by (auto simp: conclude_def fail_task_requests split: sum.splits prod.splits option.splits if_splits)

lemma exec_step_requests:
  assumes "exec_step mtd t = (out, pd, t')" and "requests_input out"
  shows "\<exists>interrupts. out = lifecycle (t_assistant t) ''interrupted'' [] # map input_requested interrupts \<and>
     pd = Some (pending_map (t_assistant t) interrupts) \<and> t_stage t' = Settled \<and> t_stage t \<noteq> Settled"
proof (cases "t_stage t")
  case Streaming
  with assms show ?thesis
    by (auto simp: exec_step_def fail_task_requests cancel_task_requests take_item_requests
        dest: conclude_requests split: if_splits list.splits option.splits prod.splits)
next
  case Snapshotting
  with assms show ?thesis
    by (auto simp: exec_step_def fail_task_requests cancel_task_requests
        dest: conclude_requests split: if_splits sum.splits prod.splits)
qed (use assms in \<open>auto simp: exec_step_def split: if_splits\<close>)

lemma pending_map_known: "iid \<in> fst ` set interrupts \<Longrightarrow> dget (pending_map aid interrupts) iid \<noteq> None"
proof -
  have "dget (foldl (\<lambda>d (i, payload). dset i payload d) d interrupts) iid \<noteq> None"
    if "iid \<in> fst ` set interrupts \<or> dget d iid \<noteq> None" for d
    using that by (induction interrupts arbitrary: d) auto
  then show "iid \<in> fst ` set interrupts \<Longrightarrow> ?thesis" by (simp add: pending_map_def)
qed

lemma input_requested_inj: "input_requested p = input_requested q \<longleftrightarrow> p = q"
  by (auto simp: input_requested_def prod_eq_iff)

text \<open>C21: every input a run requests can be answered: right after the step that publishes the request,
  \<open>respond\<close> with its interrupt id is accepted, whatever else happened before, and starts a resuming
  run of the assistant; the pending interrupts stay until that run has its graph.\<close>

theorem requested_input_answerable:
  assumes "m_tasks (reached mtd reg n evs) j = Some t" and "exec_step mtd t = (out, pd, t')"
    and "input_requested (iid, payload) \<in> set out" and "truthy aid"
  shows "\<exists>i m' p. respond_reserve (t_thread t) iid response aid rid (task_step mtd j ts (reached mtd reg n evs))
       = Inr (i, m') \<and> m_starts m' i = Some p \<and> p_input p = CommandResume response \<and> p_assistant p = aid \<and>
     m_pending m' (t_thread t) = pd \<and> pd \<noteq> None"
proof -
  let ?m = "task_step mtd j ts (reached mtd reg n evs)" and ?tid = "t_thread t"
  have "requests_input out" using assms(3) by (force simp: requests_input_def input_requested_def)
  from exec_step_requests [OF assms(2) this] obtain interrupts where
    out: "out = lifecycle (t_assistant t) ''interrupted'' [] # map input_requested interrupts"
    and pd: "pd = Some (pending_map (t_assistant t) interrupts)"
    and stage: "t_stage t' = Settled" "t_stage t \<noteq> Settled" by blast
  have "(iid, payload) \<in> set interrupts"
    using assms(3) by (auto simp: out input_requested_inj) (auto simp: lifecycle_def input_requested_def)
  then have "iid \<in> fst ` set interrupts" by force
  then have known: "dget (pending_map (t_assistant t) interrupts) iid \<noteq> None" by (rule pending_map_known)
  have m: "m_pending ?m ?tid = pd" "m_tasks ?m j = Some t'" "m_active ?m = m_active (reached mtd reg n evs)"
    using assms(1,2) pd by (simp_all add: task_step_def)
  have "owned_by ?m ?tid (Running j)"
    using task_slot [OF reached_inv assms(1) stage(2)] m(3) by (simp add: owned_by_def)
  then have free: "busy_run ?m ?tid = None"
    using m(2) stage(1) by (auto simp: busy_run_def owned_by_iff task_done_def)
  have "respond_assistant ?tid iid aid ?m = Inr aid"
    using m(1) pd known assms(4) by (simp add: respond_assistant_def py_or_def)
  with free m(1) pd show ?thesis by (simp add: respond_reserve_def start_reserve_def Let_def)
qed

definition asking_graph :: run_graph where
  "asking_graph =
     \<lparr>rg_reads = idle_graph,
      rg_stream = (\<lambda>inp config.
        ([ValuesItem (PDict [(''__interrupt__'', PList [PDict [(''id'', PStr ''i''), (''value'', PStr ''ok?'')]])])], None)),
      rg_getter = None\<rparr>"

definition asking_registry :: "run_graph registry" where
  "asking_registry = [(''a'', \<lambda>config. Inr (Graph asking_graph))]"

definition asking_run :: "run_event list" where
  "asking_run = demo_run @ [TaskStep 1 int, TaskStep 1 int]"

lemma asking_step:
  "\<exists>t out pd t'. m_tasks (reached plain_message asking_registry 5 asking_run) 1 = Some t \<and> t_thread t = ''t'' \<and>
     exec_step plain_message t = (out, pd, t') \<and> input_requested (''i'', PStr ''ok?'') \<in> set out"
proof -
  have "case m_tasks (reached plain_message asking_registry 5 asking_run) 1 of
      None \<Rightarrow> False
    | Some t \<Rightarrow> t_thread t = ''t'' \<and> input_requested (''i'', PStr ''ok?'') \<in> set (fst (exec_step plain_message t))"
    by code_simp
  then show ?thesis by (auto split: option.splits) (metis prod.collapse)
qed

theorem requested_input_answerable_witness:
  "\<exists>i m'. respond_reserve ''t'' ''i'' (PBool True) (PStr ''a'') ''r2''
     (task_step plain_message 1 int (reached plain_message asking_registry 5 asking_run)) = Inr (i, m')"
proof -
  obtain t out pd t' where t: "m_tasks (reached plain_message asking_registry 5 asking_run) 1 = Some t" "t_thread t = ''t''"
    "exec_step plain_message t = (out, pd, t')" "input_requested (''i'', PStr ''ok?'') \<in> set out"
    using asking_step by blast
  from requested_input_answerable [OF t(1,3,4), of "PStr ''a''" "PBool True" "''r2''" int] t(2)
  show ?thesis by auto
qed

end
