(* ===== verification/RunText.thy ===== *)
theory RunText
  imports RunTask
begin

text \<open>
  What a client reads of the messages of a run. The translator keeps emitters, blocks and indices;
  all that matters for the text is which messages are closed and which one is open. The lemmas
  show that the text deltas a run publishes are those of this small machine on the chunks the
  graph streamed.
\<close>

section \<open>Who is heard\<close>

text \<open>The closed messages, and the open one.\<close>

type_synonym hearing = "string list \<times> string option"

definition close_message :: "hearing \<Rightarrow> hearing" where
  "close_message s = (case snd s of None \<Rightarrow> s | Some mid \<Rightarrow> (mid # fst s, None))"

text \<open>A chunk of an unknown type or of a closed message is not heard.\<close>

definition heard :: "chunk \<Rightarrow> hearing \<Rightarrow> bool" where
  "heard c s = (role_of c \<noteq> None \<and> message_id c \<notin> set (fst s))"

definition opens :: "chunk \<Rightarrow> hearing \<Rightarrow> hearing" where
  "opens c s =
     (if \<not> heard c s \<or> snd s = Some (message_id c) then s
      else (fst (close_message s), Some (message_id c)))"

text \<open>A chunk with usage ends its message.\<close>

definition ends :: "chunk \<Rightarrow> hearing \<Rightarrow> hearing" where
  "ends c s =
     (case k_usage c of
        None \<Rightarrow> s
      | Some u \<Rightarrow> if u \<noteq> [] \<and> k_id c \<noteq> Some [] \<and> k_id c = snd s then close_message s else s)"

definition said :: "chunk \<Rightarrow> hearing \<Rightarrow> string" where
  "said c s = (if heard c s then text_content (k_content c) else [])"

fun hear :: "chunk list \<Rightarrow> hearing \<Rightarrow> string" where
  "hear [] s = []"
| "hear (c # cs) s = said c s @ hear cs (ends c (opens c s))"

fun after_hearing :: "chunk list \<Rightarrow> hearing \<Rightarrow> hearing" where
  "after_hearing [] s = s"
| "after_hearing (c # cs) s = after_hearing cs (ends c (opens c s))"

lemma hear_append [simp]: "hear (cs @ ds) s = hear cs s @ hear ds (after_hearing cs s)"
  by (induction cs arbitrary: s) simp_all

lemma after_hearing_append [simp]: "after_hearing (cs @ ds) s = after_hearing ds (after_hearing cs s)"
  by (induction cs arbitrary: s) simp_all

section \<open>The translator hears the same\<close>

definition hears :: "translator \<Rightarrow> hearing \<Rightarrow> bool" where
  "hears tr s =
     (dict_wf tr \<and>
      (\<forall>mid. mid \<in> set (fst s) \<longleftrightarrow> (\<exists>m. dget tr mid = Some m \<and> m_finished m)) \<and>
      (\<forall>mid. snd s = Some mid \<longleftrightarrow> (\<exists>m. dget tr mid = Some m \<and> \<not> m_finished m)))"

lemma hearsI:
  "dict_wf tr \<Longrightarrow> (\<And>mid. mid \<in> set cl \<longleftrightarrow> (\<exists>m. dget tr mid = Some m \<and> m_finished m)) \<Longrightarrow>
   (\<And>mid. cur = Some mid \<longleftrightarrow> (\<exists>m. dget tr mid = Some m \<and> \<not> m_finished m)) \<Longrightarrow> hears tr (cl, cur)"
  by (simp add: hears_def)

lemma hearsD:
  "hears tr s \<Longrightarrow> dict_wf tr"
  "hears tr s \<Longrightarrow> mid \<in> set (fst s) \<longleftrightarrow> (\<exists>m. dget tr mid = Some m \<and> m_finished m)"
  "hears tr s \<Longrightarrow> snd s = Some mid \<longleftrightarrow> (\<exists>m. dget tr mid = Some m \<and> \<not> m_finished m)"
  unfolding hears_def by blast+

lemma finalize_blocks_text: "frame_text (fst (finalize_blocks js m)) = []"
  by (induction js m rule: finalize_blocks.induct)
     (auto simp: case_prod_beta Let_def split: option.split sum.split)

lemma finish_emitter_text: "frame_text (fst (finish_emitter u m)) = []"
proof -
  have "frame_text fs = []" if "finalize_blocks js m1 = (fs, x)" for js m1 fs x
    using finalize_blocks_text [of js m1] that by simp
  then show ?thesis by (auto simp: finish_emitter_def Let_def split: option.split prod.split)
qed

lemma finish_targets_text: "finish_targets u mids tr = (fs, x, tr') \<Longrightarrow> frame_text fs = []"
proof (induction u mids tr arbitrary: fs x tr' rule: finish_targets.induct)
  case (2 usage k mids tr)
  show ?case
  proof (cases "dget tr k")
    case None
    with 2 show ?thesis by simp
  next
    case (Some m)
    obtain gs y m' where e: "finish_emitter usage m = (gs, y, m')" by (metis prod_cases3)
    have gs: "frame_text gs = []" using finish_emitter_text [of usage m] e by simp
    show ?thesis
    proof (cases y)
      case None
      obtain hs z tr2 where r: "finish_targets usage mids (dset k m' tr) = (hs, z, tr2)"
        by (metis prod_cases3)
      from 2(2) [OF Some e [symmetric] refl [of "(y, m')"] None r] 2(3) Some e None r gs
      show ?thesis by auto
    qed (use 2(3) Some e gs in \<open>auto split: if_splits\<close>)
  qed
qed simp

lemma finish_chunk_text: "finish_chunk oc tr = (fs, x, tr') \<Longrightarrow> frame_text fs = []"
  by (cases oc) (auto simp: finish_chunk_def dest: finish_targets_text)

lemma finish_emitter_closes: "finish_emitter u m = (fs, None, m') \<Longrightarrow> m_finished m'"
  by (auto simp: finish_emitter_def Let_def split: prod.splits option.splits)

text \<open>Finishing the open message closes it.\<close>

lemma hears_finish_open:
  assumes h: "hears tr s" and s: "snd s = Some mid" and f: "finish_targets u [mid] tr = (fs, None, tr')"
  shows "hears tr' (close_message s)"
proof -
  obtain m where m: "dget tr mid = Some m" "\<not> m_finished m" using hearsD(3) [OF h, of mid] s by blast
  obtain gs y m' where e: "finish_emitter u m = (gs, y, m')" by (metis prod_cases3)
  with f m(1) have y: "y = None" by (cases y) simp_all
  with f m(1) e have tr': "tr' = dset mid m' tr" by simp
  have fin: "m_finished m'" using finish_emitter_closes e y by blast
  have other: "m_finished n" if "dget tr k = Some n" "k \<noteq> mid" for k n
  proof (rule ccontr)
    assume "\<not> m_finished n"
    with that(1) h have "snd s = Some k" by (auto simp: hears_def)
    with s that(2) show False by simp
  qed
  have wf: "dict_wf tr'" using h by (simp add: hears_def tr')
  have "hears tr' (mid # fst s, None)"
  proof (rule hearsI [OF wf])
    fix k
    show "k \<in> set (mid # fst s) \<longleftrightarrow> (\<exists>n. dget tr' k = Some n \<and> m_finished n)"
      using h fin m by (cases "k = mid") (auto simp: hears_def tr')
    show "(None = Some k) \<longleftrightarrow> (\<exists>n. dget tr' k = Some n \<and> \<not> m_finished n)"
      using fin other by (cases "k = mid") (auto simp: tr')
  qed
  then show ?thesis by (simp add: close_message_def s)
qed

lemma hears_unfinished:
  assumes "hears tr s"
  shows "unfinished tr = (case snd s of None \<Rightarrow> [] | Some mid \<Rightarrow> [mid])"
proof (cases "snd s")
  case None
  then have "set (unfinished tr) = {}" using assms by (auto simp: unfinished_set hears_def)
  with None show ?thesis by simp
next
  case (Some mid)
  then have "set (unfinished tr) = {mid}" using assms by (auto simp: unfinished_set hears_def)
  with unfinished_distinct [of tr] assms Some show ?thesis by (simp add: distinct_set_single hears_def)
qed

lemma hears_finish_all:
  assumes "hears tr s" and "finish_chunk None tr = (fs, None, tr')"
  shows "hears tr' (close_message s)"
proof (cases "snd s")
  case None
  with assms hears_unfinished [OF assms(1)] show ?thesis by (simp add: finish_chunk_def close_message_def)
next
  case (Some mid)
  with assms(2) hears_unfinished [OF assms(1)] have "finish_targets None [mid] tr = (fs, None, tr')"
    by (simp add: finish_chunk_def del: finish_targets.simps)
  with hears_finish_open [OF assms(1) Some] show ?thesis by blast
qed

lemma hears_finish_chunk:
  assumes h: "hears tr s" and u: "k_usage c = Some u" "u \<noteq> []" and f: "finish_chunk (Some c) tr = (fs, None, tr')"
  shows "hears tr' (ends c s)"
proof (cases "k_id c \<noteq> Some [] \<and> k_id c \<noteq> None \<and> k_id c = snd s")
  case True
  then obtain mid where mid: "k_id c = Some mid" "mid \<noteq> []" "snd s = Some mid" by (cases "k_id c") auto
  then obtain m where "dget tr mid = Some m" "\<not> m_finished m" using hearsD(3) [OF h, of mid] by blast
  with f mid u have "finish_targets (Some u) [mid] tr = (fs, None, tr')"
    by (simp add: finish_chunk_def del: finish_targets.simps)
  from hears_finish_open [OF h mid(3) this] u mid show ?thesis by (simp add: ends_def)
next
  case False
  have "tr' = tr"
  proof (cases "k_id c")
    case (Some mid)
    show ?thesis
    proof (cases "dget tr mid")
      case (Some m)
      have "m_finished m" if "mid \<noteq> []"
      proof (rule ccontr)
        assume "\<not> m_finished m"
        with Some hearsD(3) [OF h, of mid] have "snd s = Some mid" by blast
        with False \<open>k_id c = Some mid\<close> that show False by simp
      qed
      with f Some \<open>k_id c = Some mid\<close> show ?thesis by (auto simp: finish_chunk_def split: if_splits)
    qed (use f Some in \<open>auto simp: finish_chunk_def split: if_splits\<close>)
  qed (use f in \<open>simp add: finish_chunk_def\<close>)
  moreover have "ends c s = s" using False u by (auto simp: ends_def close_message_def split: option.split)
  ultimately show ?thesis using h by simp
qed

text \<open>Feeding a chunk says what is heard of it.\<close>

lemma hears_set:
  assumes h: "hears tr s" and m: "\<not> m_finished m'" and s: "snd s = Some mid \<or> snd s = None \<and> mid \<notin> set (fst s)"
  shows "hears (dset mid m' tr) (fst s, Some mid)"
proof (rule hearsI)
  show "dict_wf (dset mid m' tr)" using hearsD(1) [OF h] by simp
  fix k
  have other: "snd s \<noteq> Some k" if "k \<noteq> mid" using s that by auto
  have closed: "mid \<notin> set (fst s)" using s hearsD(2,3) [OF h, of mid] by auto
  show "k \<in> set (fst s) \<longleftrightarrow> (\<exists>n. dget (dset mid m' tr) k = Some n \<and> m_finished n)"
    using m closed hearsD(2) [OF h, of k] by (cases "k = mid") auto
  show "(Some mid = Some k) \<longleftrightarrow> (\<exists>n. dget (dset mid m' tr) k = Some n \<and> \<not> m_finished n)"
    using m other hearsD(3) [OF h, of k] by (cases "k = mid") auto
qed

lemma close_message_simps [simp]: "snd (close_message s) = None"
  "set (fst (close_message s)) = set (fst s) \<union> set_option (snd s)"
  by (auto simp: close_message_def split: option.split)

lemma hears_feed:
  assumes h: "hears tr s" and f: "feed c tr = (fs, None, tr')"
  shows "frame_text fs = said c s \<and> hears tr' (opens c s)"
proof (cases "role_of c")
  case None
  with f h show ?thesis by (simp add: feed_def said_def opens_def heard_def)
next
  case role: (Some role)
  let ?mid = "message_id c"
  show ?thesis
  proof (cases "dget tr ?mid")
    case (Some m)
    obtain gs m' where g: "feed_emitter m c = (gs, m')" by fastforce
    have fs: "fs = gs" "tr' = dset ?mid m' tr" using f role Some g by (simp_all add: feed_def Let_def)
    show ?thesis
    proof (cases "m_finished m")
      case True
      then have "\<not> heard c s" using hearsD(2) [OF h, of ?mid] Some by (auto simp: heard_def)
      moreover have "fs = []" "tr' = tr" using feed_finished [OF Some True] f by simp_all
      ultimately show ?thesis using h by (simp add: said_def opens_def)
    next
      case False
      then have s: "snd s = Some ?mid" using hearsD(3) [OF h, of ?mid] Some by blast
      moreover have "?mid \<notin> set (fst s)" using hearsD(2) [OF h, of ?mid] Some False by auto
      ultimately have "heard c s" "opens c s = (fst s, Some ?mid)"
        using role by (simp_all add: heard_def opens_def prod_eq_iff)
      moreover have "frame_text gs = text_content (k_content c)" "\<not> m_finished m'"
        using frame_text_feed [OF False, of c] feed_emitter_unfinished [OF False, of c] g by simp_all
      ultimately show ?thesis using hears_set [OF h, of m' ?mid] s fs by (simp add: said_def)
    qed
  next
    case None
    obtain gs y tr1 where g: "finish_chunk None tr = (gs, y, tr1)" by (metis prod_cases3)
    with f role None have y: "y = None" by (cases y) (simp_all add: feed_def Let_def)
    obtain hs m' where e: "feed_emitter (new_emitter ?mid role) c = (hs, m')" by fastforce
    have fs: "fs = gs @ hs" "tr' = dset ?mid m' tr1"
      using f role None g y e by (simp_all add: feed_def Let_def)
    have "\<not> m_finished (new_emitter ?mid role)" by (simp add: new_emitter_def)
    then have m': "frame_text hs = text_content (k_content c)" "\<not> m_finished m'"
      using frame_text_feed [of "new_emitter ?mid role" c] feed_emitter_unfinished [of "new_emitter ?mid role" c] e
      by simp_all
    have new: "?mid \<notin> set (fst s)" "snd s \<noteq> Some ?mid"
      using hearsD(2,3) [OF h, of ?mid] None by auto
    then have "hears tr' (fst (close_message s), Some ?mid)"
      using hears_set [OF hears_finish_all [OF h] m'(2), of gs tr1 ?mid] g y fs
      by (cases "snd s") (auto simp: close_message_def)
    with new role m'(1) finish_chunk_text [OF g] fs show ?thesis by (simp add: said_def opens_def heard_def)
  qed
qed

lemma feed_raise_silent: "feed c tr = (fs, Some e, tr') \<Longrightarrow> frame_text fs = []"
  by (auto simp: feed_def Let_def split: option.splits prod.splits dest: finish_chunk_text)

lemma hears_feed_item:
  assumes h: "hears tr s" and f: "feed_item c tr = (fs, x, tr')"
  shows "(x = None \<longrightarrow> frame_text fs = hear [c] s \<and> hears tr' (after_hearing [c] s)) \<and>
     (x \<noteq> None \<longrightarrow> frame_text fs \<in> {[], hear [c] s})"
proof -
  obtain gs y tr1 where g: "feed c tr = (gs, y, tr1)" by (metis prod_cases3)
  show ?thesis
  proof (cases y)
    case (Some e)
    with f g feed_raise_silent [of c tr gs e tr1] show ?thesis by (auto simp: feed_item_def)
  next
    case None
    with hears_feed [OF h, of c gs tr1] g have gs: "frame_text gs = said c s" and h1: "hears tr1 (opens c s)" by simp_all
    show ?thesis
    proof (cases "k_usage c = None \<or> k_usage c = Some []")
      case True
      then have "x = None" "fs = gs" "tr' = tr1" using f g None by (auto simp: feed_item_def)
      moreover have "ends c (opens c s) = opens c s" using True by (auto simp: ends_def)
      ultimately show ?thesis using gs h1 by simp
    next
      case False
      then obtain u where u: "k_usage c = Some u" "u \<noteq> []" by auto
      obtain hs z tr2 where k: "finish_chunk (Some c) tr1 = (hs, z, tr2)" by (metis prod_cases3)
      have x: "x = z" "fs = gs @ hs" "tr' = tr2" using f g None u k by (simp_all add: feed_item_def)
      have "frame_text hs = []" by (rule finish_chunk_text [OF k])
      with gs x hears_finish_chunk [OF h1 u, of hs tr2] k show ?thesis by auto
    qed
  qed
qed

section \<open>The text of a run\<close>

text \<open>What a client reads in a \<open>messages\<close> event, and in a trace.\<close>

definition delta_text :: "pyval \<Rightarrow> string" where
  "delta_text v =
     (case v of
        PDict d \<Rightarrow>
          (if dget d ''event'' = Some (PStr ''content-block-delta'')
           then (case dget d ''delta'' of
                   Some (PDict b) \<Rightarrow>
                     (if dget b ''type'' = Some (PStr ''text-delta'')
                      then (case dget b ''text'' of Some (PStr s) \<Rightarrow> s | _ \<Rightarrow> []) else [])
                 | _ \<Rightarrow> [])
           else [])
      | _ \<Rightarrow> [])"

definition trace_text :: "emission list \<Rightarrow> string" where
  "trace_text out = concat (map delta_text (messages_of out))"

lemma delta_text_frame: "delta_text (frame_data f) = frame_text [f]"
  by (cases f) (simp_all add: delta_text_def)

lemma trace_text_messages: "trace_text (message_events fs) = frame_text fs"
proof (induction fs)
  case (Cons f fs)
  have "frame_text (f # fs) = frame_text [f] @ frame_text fs" by (cases f) simp_all
  with Cons show ?case by (simp add: trace_text_def delta_text_frame)
qed (simp add: trace_text_def message_events_def)

lemma trace_text_simps [simp]:
  "trace_text [] = []"
  "trace_text (out @ out') = trace_text out @ trace_text out'"
  "trace_text (lifecycle g s extra # out) = trace_text out"
  "trace_text ((''values'', v) # out) = trace_text out"
  "trace_text (map input_requested ps) = []"
  by (simp_all add: trace_text_def)

lemma fail_task_text: "fail_task e t = (out, t') \<Longrightarrow> trace_text out = []"
  by (auto simp: fail_task_def trace_text_messages dest: finish_chunk_text split: prod.splits option.splits)

lemma cancel_task_text: "cancel_task t = (out, t') \<Longrightarrow> trace_text out = []"
  by (auto simp: cancel_task_def trace_text_messages dest: finish_chunk_text split: prod.splits option.splits)

lemma conclude_text: "conclude vs t = (out, p, t') \<Longrightarrow> trace_text out = []"
  by (auto simp: conclude_def trace_text_messages dest: finish_chunk_text fail_task_text
      split: sum.splits if_splits prod.splits option.splits)

fun chunks_of :: "item list \<Rightarrow> chunk list" where
  "chunks_of [] = []"
| "chunks_of (MessageItem c # its) = c # chunks_of its"
| "chunks_of (ValuesItem v # its) = chunks_of its"

lemma chunks_of_append [simp]: "chunks_of (its @ its') = chunks_of its @ chunks_of its'"
  by (induction its rule: chunks_of.induct) simp_all

text \<open>
  A step of a task that has heard its stream as \<open>s\<close>: the items it took, and what it said of them.
  A task that goes on has heard these; one that completes has taken all.
\<close>

definition spoken :: "hearing \<Rightarrow> task \<Rightarrow> emission list \<Rightarrow> task \<Rightarrow> bool" where
  "spoken s t out t' =
     (\<exists>taken rest. t_items t = taken @ rest \<and> trace_text out = hear (chunks_of taken) s \<and>
        (t_stage t' \<noteq> Settled \<longrightarrow> rest = t_items t' \<and>
           hears (t_translator t') (after_hearing (chunks_of taken) s) \<and> (t_stage t' = Snapshotting \<longrightarrow> rest = [])) \<and>
        (''completed'' \<in> set (statuses out) \<longrightarrow> rest = []))"

text \<open>A step that takes nothing and says nothing.\<close>

lemma spoken_silent:
  assumes "trace_text out = []"
    and "t_stage t' \<noteq> Settled \<Longrightarrow> t_items t' = t_items t \<and> hears (t_translator t') s \<and> (t_stage t' = Snapshotting \<longrightarrow> t_items t = [])"
    and "''completed'' \<in> set (statuses out) \<Longrightarrow> t_items t = []"
  shows "spoken s t out t'"
  unfolding spoken_def using assms by (intro exI [of _ "[]"] exI [of _ "t_items t"]) auto

lemma fail_task_statuses: "fail_task e t = (out, t') \<Longrightarrow> ''completed'' \<notin> set (statuses out)"
  by (auto simp: fail_task_def split: prod.splits option.splits)

lemma fail_task_spoken: "fail_task e u = (out, t') \<Longrightarrow> spoken s t out t'"
  by (rule spoken_silent) (auto simp: fail_task_text fail_task_statuses fail_task_settles)

lemma cancel_task_spoken: "cancel_task u = (out, t') \<Longrightarrow> spoken s t out t'"
proof (rule spoken_silent)
  assume c: "cancel_task u = (out, t')"
  show "trace_text out = []" by (rule cancel_task_text [OF c])
  have "''completed'' \<notin> set (statuses out)" using c by (auto simp: cancel_task_def split: prod.splits option.splits)
  then show "''completed'' \<in> set (statuses out) \<Longrightarrow> t_items t = []" by simp
qed (simp add: cancel_task_settles)

lemma conclude_spoken: "conclude vs u = (out, p, t') \<Longrightarrow> t_items t = [] \<Longrightarrow> spoken s t out t'"
  by (rule spoken_silent) (auto simp: conclude_text conclude_settles)

lemma take_item_spoken:
  assumes h: "hears (t_translator t) s" and stage: "t_stage t = Streaming" and its: "t_items t = it # its"
    and t: "take_item mtd it (t\<lparr>t_items := its\<rparr>) = (out, t')"
  shows "spoken s t out t'"
proof (cases it)
  case (MessageItem c)
  obtain fs x tr where f: "feed_item c (t_translator t) = (fs, x, tr)" by (metis prod_cases3)
  note hc = hears_feed_item [OF h f]
  show ?thesis
  proof (cases x)
    case None
    with t f MessageItem have "out = message_events fs" "t' = t\<lparr>t_items := its, t_translator := tr\<rparr>"
      by (simp_all add: take_item_def)
    with hc None stage its MessageItem show ?thesis unfolding spoken_def
      by (intro exI [of _ "[it]"] exI [of _ its]) (simp add: trace_text_messages)
  next
    case (Some e)
    obtain out2 t2 where g: "fail_task e (t\<lparr>t_items := its, t_translator := tr\<rparr>) = (out2, t2)" by fastforce
    have o: "out = message_events fs @ out2" "t' = t2" using t f MessageItem Some g by (simp_all add: take_item_def)
    have st: "t_stage t' = Settled" "trace_text out2 = []" "''completed'' \<notin> set (statuses out2)"
      using fail_task_settles [OF g] fail_task_text [OF g] fail_task_statuses [OF g] by (simp_all add: o)
    from hc Some consider "frame_text fs = []" | "frame_text fs = hear [c] s" by blast
    then show ?thesis
    proof cases
      case 1
      with st o show ?thesis by (intro spoken_silent) (simp_all add: trace_text_messages)
    next
      case 2
      with st o its MessageItem show ?thesis unfolding spoken_def
        by (intro exI [of _ "[it]"] exI [of _ its]) (simp add: trace_text_messages)
    qed
  qed
next
  case (ValuesItem v)
  show ?thesis
  proof (cases "serialize_values mtd v")
    case (Inl e)
    with t ValuesItem fail_task_spoken show ?thesis by (simp add: take_item_def)
  next
    case (Inr d)
    with t ValuesItem have "out = [(''values'', PDict d)]" "t' = t\<lparr>t_items := its, t_last := v\<rparr>"
      by (simp_all add: take_item_def)
    with h stage its ValuesItem show ?thesis unfolding spoken_def
      by (intro exI [of _ "[it]"] exI [of _ its]) simp
  qed
qed

lemma exec_step_spoken:
  assumes h: "hears (t_translator t) s" and snap: "t_stage t = Snapshotting \<longrightarrow> t_items t = []"
    and e: "exec_step mtd t = (out, p, t')" and "t_stage t \<noteq> Settled"
  shows "spoken s t out t'"
proof (cases "t_stage t")
  case Queued
  with e h show ?thesis
    by (auto simp: exec_step_def settle_def intro!: spoken_silent split: if_splits)
next
  case Streaming
  show ?thesis
  proof (cases "t_cancel t")
    case True
    with e Streaming show ?thesis
      by (auto simp: exec_step_def intro: cancel_task_spoken split: prod.splits)
  next
    case go: False
    show ?thesis
    proof (cases "t_items t")
      case Nil
      have "spoken s t [] (t\<lparr>t_stage := Snapshotting\<rparr>)" using h Nil by (intro spoken_silent) simp_all
      with e Streaming go Nil show ?thesis
        by (auto simp: exec_step_def intro: fail_task_spoken conclude_spoken split: if_splits option.splits prod.splits)
    next
      case (Cons it its)
      with e Streaming go take_item_spoken [OF h Streaming Cons] show ?thesis
        by (auto simp: exec_step_def split: prod.splits)
    qed
  qed
next
  case Snapshotting
  with e snap show ?thesis
    by (auto simp: exec_step_def intro: cancel_task_spoken fail_task_spoken conclude_spoken
        split: if_splits sum.splits prod.splits)
qed (use assms(4) in simp)

text \<open>The whole run.\<close>

definition said_so_far :: "item list \<Rightarrow> traced \<Rightarrow> bool" where
  "said_so_far its x =
     (\<exists>taken rest. its = taken @ rest \<and> trace_text (x_trace x) = hear (chunks_of taken) ([], None) \<and>
        (t_stage (x_task x) \<noteq> Settled \<longrightarrow> rest = t_items (x_task x) \<and>
           hears (t_translator (x_task x)) (after_hearing (chunks_of taken) ([], None)) \<and>
           (t_stage (x_task x) = Snapshotting \<longrightarrow> rest = [])) \<and>
        (''completed'' \<in> set (statuses (x_trace x)) \<longrightarrow> rest = []))"

definition text_inv :: "item list \<Rightarrow> traced \<Rightarrow> bool" where
  "text_inv its x = (traced_inv x \<and> said_so_far its x)"

lemma not_settled_not_completed:
  assumes "traced_inv x" and "t_stage (x_task x) \<noteq> Settled"
  shows "''completed'' \<notin> set (statuses (x_trace x))"
proof -
  have "announced (abs_life (x_task x)) (statuses (x_trace x))"
    using assms(1) by (simp add: traced_inv_def life_run_announced)
  with assms(2) show ?thesis by (cases "t_stage (x_task x)") (simp_all add: abs_life_def)
qed

lemma said_so_far_step:
  assumes inv: "traced_inv x" and said: "said_so_far its x"
  shows "said_so_far its (traced_step mtd x ev)"
proof (cases ev)
  case RequestCancel
  with said show ?thesis by (simp add: said_so_far_def traced_step_def)
next
  case Advance
  obtain out p t' where e: "exec_step mtd (x_task x) = (out, p, t')" by (metis prod_cases3)
  show ?thesis
  proof (cases "t_stage (x_task x) = Settled")
    case True
    with e have "out = []" "t' = x_task x" by (simp_all add: exec_step_def)
    with said e Advance show ?thesis by (simp add: said_so_far_def traced_step_def)
  next
    case False
    from said False obtain taken where its: "its = taken @ t_items (x_task x)"
      and spoke: "trace_text (x_trace x) = hear (chunks_of taken) ([], None)"
      and h: "hears (t_translator (x_task x)) (after_hearing (chunks_of taken) ([], None))"
      and snap: "t_stage (x_task x) = Snapshotting \<longrightarrow> t_items (x_task x) = []"
      by (auto simp: said_so_far_def)
    from exec_step_spoken [OF h snap e False] obtain more rest where m:
      "t_items (x_task x) = more @ rest" "trace_text out = hear (chunks_of more) (after_hearing (chunks_of taken) ([], None))"
      "t_stage t' \<noteq> Settled \<longrightarrow> rest = t_items t' \<and>
         hears (t_translator t') (after_hearing (chunks_of more) (after_hearing (chunks_of taken) ([], None))) \<and>
         (t_stage t' = Snapshotting \<longrightarrow> rest = [])"
      "''completed'' \<in> set (statuses out) \<longrightarrow> rest = []"
      unfolding spoken_def by blast
    show ?thesis unfolding said_so_far_def
      by (rule exI [of _ "taken @ more"], rule exI [of _ rest])
         (use its spoke m not_settled_not_completed [OF inv False] Advance e in \<open>auto simp: traced_step_def\<close>)
  qed
qed

interpretation spoken_run: event_system "traced_step mtd" "text_inv its" for mtd its
  by unfold_locales (simp add: text_inv_def traced_inv_step said_so_far_step)

lemma said_so_far_run: "said_so_far (fst script) (task_run mtd (new_task tid rid aid script getter) evs)"
proof -
  have "hears [] ([], None)" by (simp add: hears_def)
  then have "text_inv (fst script) \<lparr>x_task = new_task tid rid aid script getter, x_trace = []\<rparr>"
    using traced_inv_new by (simp add: text_inv_def said_so_far_def new_task_def)
  from spoken_run.inv_run [OF this, of mtd evs] show ?thesis by (simp add: text_inv_def)
qed

section \<open>Properties\<close>

text \<open>C25: the text of a run. Whatever the graph streams and whenever the run is cancelled or fails, the
  text deltas it has published, joined, are what the small machine hears of the items the run has
  taken: every chunk of the open message and the first of a new one, and nothing of unknown types
  and closed messages. A run that announces \<open>completed\<close> has taken them all.\<close>

theorem run_text:
  "\<exists>taken rest. fst script = taken @ rest \<and>
     trace_text (x_trace (task_run mtd (new_task tid rid aid script getter) evs)) = hear (chunks_of taken) ([], None) \<and>
     (''completed'' \<in> set (statuses (x_trace (task_run mtd (new_task tid rid aid script getter) evs))) \<longrightarrow> rest = [])"
  using said_so_far_run [of script mtd tid rid aid getter evs] unfolding said_so_far_def by blast

text \<open>A graph that goes back to a message after the next one has begun: its last chunk is not heard.\<close>

definition two_messages :: "item list" where
  "two_messages =
     [MessageItem (text_chunk ''AIMessageChunk'' ''m'' ''one''), MessageItem (text_chunk ''AIMessageChunk'' ''n'' ''two''),
      MessageItem (text_chunk ''AIMessageChunk'' ''m'' ''lost'')]"

theorem run_text_witness:
  "hear (chunks_of two_messages) ([], None) = ''onetwo'' \<and>
   trace_text (x_trace (task_run plain_message (new_task ''t'' ''r'' (PStr ''a'') (two_messages, None) None)
     (replicate 6 Advance))) = hear (chunks_of two_messages) ([], None)"
proof
  let ?x = "task_run plain_message (new_task ''t'' ''r'' (PStr ''a'') (two_messages, None) None) (replicate 6 Advance)"
  show "hear (chunks_of two_messages) ([], None) = ''onetwo''" by code_simp
  have "''completed'' \<in> set (statuses (x_trace ?x))" by code_simp
  with run_text [of "(two_messages, None)" plain_message "''t''" "''r''" "PStr ''a''" None "replicate 6 Advance"]
  show "trace_text (x_trace ?x) = hear (chunks_of two_messages) ([], None)" by auto
qed

text \<open>So a client that reads a completed run of one message reads all of it.\<close>

lemma hear_one_message:
  assumes "same_message mid cs" and "\<forall>c \<in> set cs. k_usage c = None"
    and "snd s = Some mid \<or> s = ([], None)" and "mid \<notin> set (fst s)"
  shows "hear cs s = concat (map (\<lambda>c. text_content (k_content c)) cs)"
  using assms
proof (induction cs arbitrary: s)
  case (Cons c cs)
  then have "heard c s" by (auto simp: heard_def same_message_def)
  moreover have "ends c (opens c s) = (fst s, Some mid)"
    using Cons.prems calculation by (auto simp: ends_def opens_def same_message_def close_message_def prod_eq_iff)
  moreover have "same_message mid cs" using Cons.prems by (simp add: same_message_def)
  ultimately show ?case using Cons.IH [of "(fst s, Some mid)"] Cons.prems by (simp add: said_def)
qed simp

text \<open>A completed run of one streamed message delivers its text: what a client reads in the
  \<open>messages\<close> events is the text of the chunks the graph streamed, joined, all of it and in order.\<close>

theorem completed_run_delivers_text:
  assumes "same_message mid (chunks_of (fst script))" and "\<forall>c \<in> set (chunks_of (fst script)). k_usage c = None"
    and "''completed'' \<in> set (statuses (x_trace (task_run mtd (new_task tid rid aid script getter) evs)))"
  shows "trace_text (x_trace (task_run mtd (new_task tid rid aid script getter) evs))
       = concat (map (\<lambda>c. text_content (k_content c)) (chunks_of (fst script)))"
proof -
  have "trace_text (x_trace (task_run mtd (new_task tid rid aid script getter) evs)) = hear (chunks_of (fst script)) ([], None)"
    using said_so_far_run [of script mtd tid rid aid getter evs] assms(3) by (auto simp: said_so_far_def)
  with hear_one_message [OF assms(1,2), of "([], None)"] show ?thesis by simp
qed

definition greeting :: "item list" where
  "greeting =
     [MessageItem (text_chunk ''AIMessageChunk'' ''m'' ''Hel''), MessageItem (text_chunk ''AIMessageChunk'' ''m'' ''lo''),
      ValuesItem (PDict [(''n'', PInt 1)])]"

theorem completed_run_delivers_text_witness:
  "trace_text (x_trace (task_run plain_message (new_task ''t'' ''r'' (PStr ''a'') (greeting, None) None)
     (replicate 5 Advance))) = ''Hello''"
proof -
  have c: "chunks_of greeting
      = [text_chunk ''AIMessageChunk'' ''m'' ''Hel'', text_chunk ''AIMessageChunk'' ''m'' ''lo'']"
    by (simp add: greeting_def)
  have m: "same_message ''m'' (chunks_of (fst (greeting, None :: exn option)))"
    by (simp add: c same_message_def role_of_def lower_ai ROLE_BY_TYPE_def message_id_def text_chunk_def)
  have u: "\<forall>k \<in> set (chunks_of (fst (greeting, None :: exn option))). k_usage k = None"
    by (simp add: c text_chunk_def)
  have "''completed'' \<in> set (statuses (x_trace (task_run plain_message
      (new_task ''t'' ''r'' (PStr ''a'') (greeting, None) None) (replicate 5 Advance))))"
    by code_simp
  from completed_run_delivers_text [OF m u this] show ?thesis by (simp add: c text_chunk_def)
qed

end
