(* ===== verification/ThreadRuns.thy ===== *)
theory ThreadRuns
  imports RunTrace RunText
begin

text \<open>
  A thread as the runs it has had. Abstractly a thread is a list of runs of \<open>RunTask\<close>, in which only
  the last one moves and a new one begins only when all are settled. The lemmas show that the run
  manager, with its slots, reservations and callbacks, does nothing else, so that what is known of
  a single run holds for every stretch of a thread's history.
\<close>

section \<open>The abstract thread\<close>

definition settled :: "traced \<Rightarrow> bool" where
  "settled x = (t_stage (x_task x) = Settled)"

inductive thread_history :: "(pyval \<Rightarrow> exn + pyval) \<Rightarrow> string \<Rightarrow> traced list \<Rightarrow> bool"
  for mtd :: "pyval \<Rightarrow> exn + pyval" and tid :: string
where
  no_runs: "thread_history mtd tid []"
| new_run: "thread_history mtd tid xs \<Longrightarrow> list_all settled xs \<Longrightarrow>
    thread_history mtd tid (xs @ [\<lparr>x_task = new_task tid rid aid script getter, x_trace = []\<rparr>])"
| run_moves: "thread_history mtd tid (xs @ [x]) \<Longrightarrow> thread_history mtd tid (xs @ [traced_step mtd x ev])"

text \<open>A run over the items that its graph streams.\<close>

definition is_run :: "(pyval \<Rightarrow> exn + pyval) \<Rightarrow> string \<Rightarrow> item list \<Rightarrow> traced \<Rightarrow> bool" where
  "is_run mtd tid its x = (\<exists>rid aid e getter evs. x = task_run mtd (new_task tid rid aid (its, e) getter) evs)"

lemma is_run_new: "is_run mtd tid (fst script) \<lparr>x_task = new_task tid rid aid script getter, x_trace = []\<rparr>"
  unfolding is_run_def
  by (rule exI [of _ rid], rule exI [of _ aid], rule exI [of _ "snd script"], rule exI [of _ getter],
      rule exI [of _ "[]"]) simp

lemma is_run_step: "is_run mtd tid its x \<Longrightarrow> is_run mtd tid its (traced_step mtd x ev)"
proof -
  assume "is_run mtd tid its x"
  then obtain rid aid e getter evs where x: "x = task_run mtd (new_task tid rid aid (its, e) getter) evs"
    by (auto simp: is_run_def)
  show ?thesis unfolding is_run_def
    by (rule exI [of _ rid], rule exI [of _ aid], rule exI [of _ e], rule exI [of _ getter],
        rule exI [of _ "evs @ [ev]"]) (simp add: x)
qed

lemma history_runs: "thread_history mtd tid xs \<Longrightarrow> x \<in> set xs \<Longrightarrow> \<exists>its. is_run mtd tid its x"
proof (induction arbitrary: x rule: thread_history.induct)
  case (new_run xs rid aid script getter)
  then show ?case using is_run_new by fastforce
next
  case (run_moves xs y ev)
  then show ?case using is_run_step by fastforce
qed simp

lemma traced_step_thread [simp]: "t_thread (x_task (traced_step mtd x ev)) = t_thread (x_task x)"
proof (cases ev)
  case Advance
  obtain out p t' where e: "exec_step mtd (x_task x) = (out, p, t')" by (metis prod_cases3)
  with Advance exec_step_ids [OF e] show ?thesis by (simp add: traced_step_def)
qed (simp add: traced_step_def)

lemma history_thread: "thread_history mtd tid xs \<Longrightarrow> x \<in> set xs \<Longrightarrow> t_thread (x_task x) = tid"
  by (induction arbitrary: x rule: thread_history.induct) (auto simp: new_task_def)

lemma history_butlast: "thread_history mtd tid xs \<Longrightarrow> list_all settled (butlast xs)"
  by (induction rule: thread_history.induct) (simp_all add: butlast_append)

lemma history_settled:
  "thread_history mtd tid xs \<Longrightarrow> (xs = [] \<or> settled (last xs)) \<Longrightarrow> list_all settled xs"
  using history_butlast [of mtd tid xs] by (cases xs rule: rev_cases) simp_all

section \<open>What the manager does to a thread\<close>

text \<open>The task that may act on the thread.\<close>

definition acting :: "manager \<Rightarrow> string \<Rightarrow> nat \<Rightarrow> task \<Rightarrow> bool" where
  "acting m tid j t = (m_tasks m j = Some t \<and> t_thread t = tid \<and> t_stage t \<noteq> Settled)"

lemma acting_unique: "run_inv m \<Longrightarrow> acting m tid j t \<Longrightarrow> acting m tid k u \<Longrightarrow> k = j \<and> u = t"
  using occupant_unique [of m "Running j" tid "Running k"] by (auto simp: acting_def occupants_def)

text \<open>The acting task is the last run, if that is not settled.\<close>

definition tracks :: "manager \<Rightarrow> string \<Rightarrow> traced list \<Rightarrow> bool" where
  "tracks m tid xs =
     ((\<forall>j t. acting m tid j t \<longrightarrow> xs \<noteq> [] \<and> t = x_task (last xs)) \<and>
      (xs \<noteq> [] \<longrightarrow> \<not> settled (last xs) \<longrightarrow> (\<exists>j. acting m tid j (x_task (last xs)))))"

lemma tracks_same: "acting m' tid = acting m tid \<Longrightarrow> tracks m' tid xs = tracks m tid xs"
  by (simp add: tracks_def)

lemma tracks_one:
  "(\<And>k u. acting m tid k u \<longleftrightarrow> k = j \<and> u = x_task x \<and> \<not> settled x) \<Longrightarrow> tracks m tid (xs @ [x])"
  by (simp add: tracks_def)

definition thread_ok :: "(pyval \<Rightarrow> exn + pyval) \<Rightarrow> manager \<Rightarrow> string \<Rightarrow> emission list \<Rightarrow> bool" where
  "thread_ok mtd m tid out =
     (\<exists>xs. thread_history mtd tid xs \<and> out = concat (map x_trace xs) \<and> tracks m tid xs)"

lemma thread_ok_same: "acting m' tid = acting m tid \<Longrightarrow> thread_ok mtd m' tid out = thread_ok mtd m tid out"
  using tracks_same [of m' tid m] by (simp add: thread_ok_def)

text \<open>The acting task moves.\<close>

lemma thread_ok_move:
  assumes inv: "run_inv m" and ok: "thread_ok mtd m tid out" and act: "acting m tid j t"
    and t': "x_task (traced_step mtd \<lparr>x_task = t, x_trace = []\<rparr> ev) = t'"
    and out': "x_trace (traced_step mtd \<lparr>x_task = t, x_trace = []\<rparr> ev) = new"
    and m': "m_tasks m' = (m_tasks m)(j \<mapsto> t')"
  shows "thread_ok mtd m' tid (out @ new)"
proof -
  obtain xs where xs: "thread_history mtd tid xs" "out = concat (map x_trace xs)" "tracks m tid xs"
    using ok by (auto simp: thread_ok_def)
  with act have "xs \<noteq> []" "x_task (last xs) = t" by (auto simp: tracks_def)
  then obtain ys x where x: "xs = ys @ [x]" "x_task x = t" by (cases xs rule: rev_cases) auto
  let ?x = "traced_step mtd x ev"
  have step: "x_task ?x = t'" "x_trace ?x = x_trace x @ new"
    using t' out' x(2) by (cases ev; simp add: traced_step_def case_prod_beta)+
  have thread: "t_thread t' = tid" using act traced_step_thread [of mtd x ev] step(1) x(2) by (simp add: acting_def)
  have "acting m' tid k u \<longleftrightarrow> k = j \<and> u = x_task ?x \<and> \<not> settled ?x" for k u
  proof (cases "k = j")
    case True
    then show ?thesis using thread step(1) by (auto simp: acting_def m' settled_def)
  next
    case False
    then have "acting m' tid k u \<longleftrightarrow> acting m tid k u" by (simp add: acting_def m')
    with acting_unique [OF inv act, of k u] False show ?thesis by blast
  qed
  then have "tracks m' tid (ys @ [?x])" by (rule tracks_one)
  moreover have "thread_history mtd tid (ys @ [?x])" using xs(1) x(1) by (auto intro: thread_history.run_moves)
  moreover have "out @ new = concat (map x_trace (ys @ [?x]))" using xs(2) x(1) step(2) by simp
  ultimately show ?thesis unfolding thread_ok_def by blast
qed

text \<open>A start on a thread that no task acts on.\<close>

lemma thread_ok_start:
  assumes inv: "run_inv m" and ok: "thread_ok mtd m tid out" and idle: "\<And>j t. \<not> acting m tid j t"
    and m': "m_tasks m' = (m_tasks m)(j \<mapsto> new_task tid rid aid script getter)"
  shows "thread_ok mtd m' tid out"
proof -
  obtain xs where xs: "thread_history mtd tid xs" "out = concat (map x_trace xs)" "tracks m tid xs"
    using ok by (auto simp: thread_ok_def)
  let ?x = "\<lparr>x_task = new_task tid rid aid script getter, x_trace = []\<rparr>"
  from xs(3) idle have "xs = [] \<or> settled (last xs)" by (auto simp: tracks_def)
  with xs(1) have "thread_history mtd tid (xs @ [?x])"
    by (intro thread_history.new_run history_settled)
  moreover have "acting m' tid k u \<longleftrightarrow> k = j \<and> u = x_task ?x \<and> \<not> settled ?x" for k u
    using idle [of k u] by (auto simp: acting_def m' settled_def new_task_def)
  then have "tracks m' tid (xs @ [?x])" by (rule tracks_one)
  ultimately show ?thesis using xs(2) unfolding thread_ok_def by (intro exI [of _ "xs @ [?x]"]) simp
qed

lemma acting_other:
  assumes "m_tasks m' = (m_tasks m)(j := v)"
    and "\<And>t. m_tasks m j = Some t \<Longrightarrow> t_thread t \<noteq> tid \<or> t_stage t = Settled"
    and "\<And>t. v = Some t \<Longrightarrow> t_thread t \<noteq> tid \<or> t_stage t = Settled"
  shows "acting m' tid = acting m tid"
proof (intro ext)
  fix k u
  show "acting m' tid k u = acting m tid k u"
    using assms(2,3) by (cases "k = j") (auto simp: acting_def assms(1))
qed

lemma acting_tasks: "m_tasks m' = m_tasks m \<Longrightarrow> acting m' tid = acting m tid"
  by (simp add: acting_def fun_eq_iff)

text \<open>The events, one by one.\<close>

lemma thread_ok_quiet:
  "thread_ok mtd m tid out \<Longrightarrow> acting (run_step mtd m ev) tid = acting m tid \<Longrightarrow> emits mtd m ev tid = [] \<Longrightarrow>
   thread_ok mtd (run_step mtd m ev) tid (out @ emits mtd m ev tid)"
  using thread_ok_same [of "run_step mtd m ev" tid m mtd out] by simp

lemma thread_ok_tasks: "thread_ok mtd m tid out \<Longrightarrow> m_tasks m' = m_tasks m \<Longrightarrow> thread_ok mtd m' tid out"
  using thread_ok_same [OF acting_tasks] by blast

lemma start_reserve_tasks:
  "start_reserve k aid inp config metadata rid m = Inr (i, m') \<Longrightarrow> m_tasks m' = m_tasks m"
  by (auto simp: start_reserve_def Let_def split: option.splits)

lemma start_finish_tasks:
  "m_tasks (snd (start_finish i p m)) = m_tasks m \<or>
   (\<exists>aid script getter. m_tasks (snd (start_finish i p m))
      = (m_tasks m)(m_next m \<mapsto> new_task (p_thread p) (p_run_id p) aid script getter))"
  by (cases "p_outcome p"; cases "run_config (p_thread p) (p_config p) (p_metadata p)")
     (auto simp: start_finish_def Let_def simp del: split_paired_Ex)

lemma thread_ok_resolve:
  assumes inv: "run_inv m" and ok: "thread_ok mtd m tid out" and p: "m_starts m i = Some p"
  shows "thread_ok mtd (snd (start_finish i p m)) tid out"
proof -
  let ?m' = "snd (start_finish i p m)"
  from start_finish_tasks [of i p m] show ?thesis
  proof (elim disjE exE)
    assume "m_tasks ?m' = m_tasks m"
    with ok show ?thesis by (rule thread_ok_tasks)
  next
    fix aid script getter
    assume t: "m_tasks ?m' = (m_tasks m)(m_next m \<mapsto> new_task (p_thread p) (p_run_id p) aid script getter)"
    show ?thesis
    proof (cases "p_thread p = tid")
      case True
      have "\<not> acting m tid j t" for j t
        using occupant_unique [OF inv, of "Reserved i" tid "Running j"] start_occupies [OF p] True
        by (auto simp: acting_def occupants_def)
      from thread_ok_start [OF inv ok this] t True show ?thesis by simp
    next
      case False
      have "m_tasks m (m_next m) = None" using next_is_new [OF inv] by simp
      with t False have "acting ?m' tid = acting m tid" by (intro acting_other) (auto simp: new_task_def)
      with ok thread_ok_same show ?thesis by blast
    qed
  qed
qed

lemma thread_ok_task:
  assumes inv: "run_inv m" and ok: "thread_ok mtd m tid out" and t: "m_tasks m j = Some t"
  shows "thread_ok mtd (task_step mtd j ts m) tid (out @ emits mtd m (TaskStep j ts) tid)"
proof -
  obtain o1 pd t' where e: "exec_step mtd t = (o1, pd, t')" by (metis prod_cases3)
  have m': "m_tasks (task_step mtd j ts m) = (m_tasks m)(j \<mapsto> t')" by (simp add: task_step_def t e)
  show ?thesis
  proof (cases "acting m tid j t")
    case True
    then have "emits mtd m (TaskStep j ts) tid = o1" by (simp add: emits_def t e acting_def)
    with thread_ok_move [OF inv ok True, of Advance t' o1 "task_step mtd j ts m"] m' e show ?thesis
      by (simp add: traced_step_def)
  next
    case False
    then have idle: "t_thread t \<noteq> tid \<or> t_stage t = Settled" using t by (auto simp: acting_def)
    have "t_stage t = Settled \<Longrightarrow> t' = t \<and> o1 = []" using e by (simp add: exec_step_def)
    moreover have "t_thread t' = t_thread t" using exec_step_ids [OF e] by simp
    ultimately show ?thesis using idle t thread_ok_quiet [OF ok, of "TaskStep j ts"] acting_other [OF m', of tid]
      by (auto simp: emits_def e)
  qed
qed

lemma cancel_tasks:
  assumes "run_inv m"
  shows "m_tasks (snd (cancel k rid m)) = m_tasks m \<or>
     (\<exists>j t. m_tasks m j = Some t \<and> m_tasks (snd (cancel k rid m)) = (m_tasks m)(j \<mapsto> request_cancel t))"
proof (cases "\<exists>a j. m_active m k = Some a \<and> a_owner a = Running j")
  case True
  then obtain a j where a: "m_active m k = Some a" "a_owner a = Running j" by blast
  with run_invD(3) [OF assms a(1)] obtain t where t: "m_tasks m j = Some t" by (auto simp: slot_inv_def)
  show ?thesis
  proof (cases "rid \<noteq> PNone \<and> PStr (a_run_id a) \<noteq> rid")
    case False
    with a t have "m_tasks (snd (cancel k rid m)) = (m_tasks m)(j \<mapsto> request_cancel t)" by (auto simp: cancel_def)
    with t show ?thesis by blast
  qed (use a in \<open>simp add: cancel_def\<close>)
next
  case False
  then show ?thesis by (auto simp: cancel_def split: option.split owner.split)
qed

lemma thread_ok_cancel:
  assumes inv: "run_inv m" and ok: "thread_ok mtd m tid out"
  shows "thread_ok mtd (snd (cancel k rid m)) tid out"
  using cancel_tasks [OF inv, of k rid]
proof (elim disjE exE conjE)
  assume "m_tasks (snd (cancel k rid m)) = m_tasks m"
  with ok show ?thesis by (rule thread_ok_tasks)
next
  fix j t
  assume t: "m_tasks m j = Some t" and m': "m_tasks (snd (cancel k rid m)) = (m_tasks m)(j \<mapsto> request_cancel t)"
  show ?thesis
  proof (cases "acting m tid j t")
    case True
    from thread_ok_move [OF inv ok True, of RequestCancel "request_cancel t" "[]" "snd (cancel k rid m)"] m'
    show ?thesis by (simp add: traced_step_def)
  next
    case False
    with t have "acting (snd (cancel k rid m)) tid = acting m tid"
      by (intro acting_other [OF m']) (auto simp: acting_def)
    with ok thread_ok_same show ?thesis by blast
  qed
qed

lemma thread_ok_step:
  assumes inv: "run_inv m" and ok: "thread_ok mtd m tid out"
  shows "thread_ok mtd (run_step mtd m ev) tid (out @ emits mtd m ev tid)"
proof (cases ev)
  case (StartDone i)
  with ok thread_ok_resolve [OF inv ok, of i] show ?thesis by (cases "m_starts m i") (simp_all add: emits_def)
next
  case (TaskStep j ts)
  with ok thread_ok_task [OF inv ok, of j] show ?thesis
    by (cases "m_tasks m j") (simp_all add: emits_def task_step_def)
next
  case (CancelCall k rid)
  with thread_ok_cancel [OF inv ok] show ?thesis by (simp add: emits_def)
qed (auto intro: ok thread_ok_tasks [OF ok]
     simp: emits_def start_reserve_tasks respond_reserve_def start_cancelled_def task_callback_def
     split: sum.split option.split)

definition history_inv :: "(pyval \<Rightarrow> exn + pyval) \<Rightarrow> manager \<times> run_trace \<Rightarrow> bool" where
  "history_inv mtd x = (run_inv (fst x) \<and> (\<forall>tid. thread_ok mtd (fst x) tid (snd x tid)))"

lemma history_inv_step: "history_inv mtd x \<Longrightarrow> history_inv mtd (traced_run_step mtd x ev)"
  by (simp add: history_inv_def traced_run_step_def thread_ok_step run_inv_step)

interpretation histories: event_system "traced_run_step mtd" "history_inv mtd" for mtd
  by unfold_locales (rule history_inv_step)

lemma history_inv_new: "history_inv mtd (new_manager reg n, \<lambda>_. [])"
proof -
  have "thread_ok mtd (new_manager reg n) tid []" for tid
    unfolding thread_ok_def
    by (intro exI [of _ "[]"]) (simp add: thread_history.no_runs tracks_def acting_def m_tasks_new)
  then show ?thesis by (simp add: history_inv_def run_inv_new)
qed

text \<open>What the runs of a history say.\<close>

definition run_says :: "item list \<Rightarrow> item list \<Rightarrow> traced \<Rightarrow> bool" where
  "run_says its taken x =
     (prefix taken its \<and> trace_text (x_trace x) = hear (chunks_of taken) ([], None) \<and>
      (''completed'' \<in> set (statuses (x_trace x)) \<longrightarrow> taken = its))"

lemma is_run_says: "is_run mtd tid its x \<Longrightarrow> \<exists>taken. run_says its taken x"
proof -
  assume "is_run mtd tid its x"
  then obtain rid aid e getter evs where "x = task_run mtd (new_task tid rid aid (its, e) getter) evs"
    by (auto simp: is_run_def)
  with said_so_far_run [of "(its, e)" mtd tid rid aid getter evs] show ?thesis
    unfolding said_so_far_def run_says_def by (auto simp: prefix_def)
qed

lemma history_says:
  assumes "thread_history mtd tid xs"
  shows "\<exists>runs. map (\<lambda>(its, taken, x). x) runs = xs \<and>
     (\<forall>(its, taken, x) \<in> set runs. is_run mtd tid its x \<and> run_says its taken x)"
proof -
  have "\<forall>x \<in> set xs. \<exists>y. is_run mtd tid (fst y) x \<and> run_says (fst y) (snd y) x"
  proof
    fix x
    assume "x \<in> set xs"
    then obtain its where its: "is_run mtd tid its x" using history_runs [OF assms] by blast
    then obtain taken where "run_says its taken x" using is_run_says by blast
    with its show "\<exists>y. is_run mtd tid (fst y) x \<and> run_says (fst y) (snd y) x"
      by (intro exI [of _ "(its, taken)"]) simp
  qed
  from bchoice [OF this] obtain f where
    f: "\<forall>x \<in> set xs. is_run mtd tid (fst (f x)) x \<and> run_says (fst (f x)) (snd (f x)) x" by blast
  show ?thesis
    by (rule exI [of _ "map (\<lambda>x. (fst (f x), snd (f x), x)) xs"]) (use f in \<open>auto simp: comp_def\<close>)
qed

end
