(* ===== verification/Handlers.thy ===== *)
theory Handlers
  imports Router
begin

text \<open>
  The command endpoint of \<open>router.py\<close>, cut at its awaits. \<open>dispatch_command\<close> of \<open>Router\<close> is a
  handler that is never interrupted; here a handler runs up to an await of host code (the
  resolution of a graph, or \<open>aget_state\<close>), then other handlers, runs and cancellations may come
  first, and it goes on or is abandoned when its client disconnects. Read-only commands and
  cancellation are one stretch: what they answer is what they find.
\<close>

section \<open>Stretches of a handler\<close>

text \<open>
  What a suspended handler waits for, with what it needs to go on: the start of its run, the graph
  of its thread, the state of its thread, or the start of its resuming run. What host code will
  answer is known when it is called.
\<close>

datatype waiting =
    AwaitStart string pyval pyval nat
  | AwaitGraph string pyval dict "exn + run_graph"
  | AwaitState string pyval dict "exn + dict"
  | AwaitRespond string pyval nat

datatype progress = Replied reply | Awaits waiting

definition interrupt_id :: "dict \<Rightarrow> string" where
  "interrupt_id params = py_str (py_or (or_none (dget params ''interrupt_id'')) (PStr []))"

definition begin_start ::
  "string \<Rightarrow> string \<Rightarrow> thread_record \<Rightarrow> pyval \<Rightarrow> dict \<Rightarrow> 's server \<Rightarrow> progress \<times> 's server" where
  "begin_start rid tid rec cid params sv =
     (let aid = or_none (dget params ''assistant_id'')
      in if \<not> truthy aid then (Replied (Inr (error_envelope cid ''invalid_argument'' ''missing assistant_id'')), sv)
         else (case stamped_config (tr_metadata rec) (or_none (dget params ''config'')) of
                 Inl e \<Rightarrow> (Replied (Inl e), sv)
               | Inr config \<Rightarrow>
                   (case start_reserve tid aid (Input (or_none (dget params ''input''))) (Some config)
                           (or_none (dget params ''metadata'')) rid (v_manager sv) of
                      Inl e \<Rightarrow> (Replied (start_error cid e), sv)
                    | Inr (i, m) \<Rightarrow> (Awaits (AwaitStart tid cid aid i), sv\<lparr>v_manager := m\<rparr>))))"

definition end_start ::
  "'s store_ops \<Rightarrow> string \<Rightarrow> string \<Rightarrow> pyval \<Rightarrow> pyval \<Rightarrow> nat \<Rightarrow> 's server \<Rightarrow> progress \<times> 's server" where
  "end_start ops now tid cid aid i sv =
     (case m_starts (v_manager sv) i of
        None \<Rightarrow> (Replied (start_error cid beyond_model), sv)
      | Some p \<Rightarrow>
          (case start_finish i p (v_manager sv) of
             (Inl e, m) \<Rightarrow> (Replied (start_error cid e), sv\<lparr>v_manager := m\<rparr>)
           | (Inr run_id, m) \<Rightarrow>
               (case so_set ops now tid (py_str aid) (v_store sv) of
                  Inl e \<Rightarrow> (Replied (Inl e), sv\<lparr>v_manager := m\<rparr>)
                | Inr st \<Rightarrow>
                    (Replied (Inr (success_envelope cid [(''run_id'', PStr run_id)])),
                     \<lparr>v_store = st, v_manager = m\<rparr>))))"

definition begin_respond ::
  "'s store_ops \<Rightarrow> string \<Rightarrow> pyval \<Rightarrow> dict \<Rightarrow> 's server \<Rightarrow> progress" where
  "begin_respond ops tid cid params sv =
     (if interrupt_id params = []
      then Replied (Inr (error_envelope cid ''invalid_argument'' ''missing interrupt_id''))
      else (case so_get ops tid (v_store sv) of
              Inl e \<Rightarrow> Replied (Inl e)
            | Inr rec \<Rightarrow>
                (case (case rec of None \<Rightarrow> None | Some r \<Rightarrow> tr_assistant_id r) of
                   None \<Rightarrow> Replied (Inr (no_such_interrupt cid (interrupt_id params)))
                 | Some aid \<Rightarrow>
                     Awaits (AwaitGraph tid cid params (resolve (m_registry (v_manager sv)) (PStr aid) PNone)))))"

text \<open>After the state was read: validate, look up the thread again, and reserve its slot.\<close>

definition validate_respond ::
  "'s store_ops \<Rightarrow> string \<Rightarrow> string \<Rightarrow> pyval \<Rightarrow> dict \<Rightarrow> dict \<Rightarrow> 's server \<Rightarrow> progress \<times> 's server" where
  "validate_respond ops rid tid cid params snap sv =
     (case pending_ids snap of
        Inl e \<Rightarrow> (Replied (Inl e), sv)
      | Inr ids \<Rightarrow>
          if PStr (interrupt_id params) \<notin> set ids
          then (Replied (Inr (no_such_interrupt cid (interrupt_id params))), sv)
          else (case so_get ops tid (v_store sv) of
                  Inl e \<Rightarrow> (Replied (Inl e), sv)
                | Inr stored \<Rightarrow>
                    (case respond_reserve tid (interrupt_id params) (or_none (dget params ''response''))
                            (case stored of None \<Rightarrow> PNone | Some r \<Rightarrow> opt_str (tr_assistant_id r)) rid (v_manager sv) of
                       Inl e \<Rightarrow> (Replied (respond_error cid e), sv)
                     | Inr (i, m) \<Rightarrow> (Awaits (AwaitRespond tid cid i), sv\<lparr>v_manager := m\<rparr>))))"

definition end_respond :: "pyval \<Rightarrow> nat \<Rightarrow> 's server \<Rightarrow> progress \<times> 's server" where
  "end_respond cid i sv =
     (case m_starts (v_manager sv) i of
        None \<Rightarrow> (Replied (respond_error cid beyond_model), sv)
      | Some p \<Rightarrow>
          (case start_finish i p (v_manager sv) of
             (Inl e, m) \<Rightarrow> (Replied (respond_error cid e), sv\<lparr>v_manager := m\<rparr>)
           | (Inr run_id, m) \<Rightarrow>
               (Replied (Inr (success_envelope cid [(''run_id'', PStr run_id)])), sv\<lparr>v_manager := m\<rparr>)))"

text \<open>One stretch of a suspended handler.\<close>

fun proceed ::
  "(pyval \<Rightarrow> exn + pyval) \<Rightarrow> 's store_ops \<Rightarrow> string \<Rightarrow> string \<Rightarrow> waiting \<Rightarrow> 's server \<Rightarrow> progress \<times> 's server" where
  "proceed mtd ops now rid (AwaitStart tid cid aid i) sv = end_start ops now tid cid aid i sv"
| "proceed mtd ops now rid (AwaitGraph tid cid params outcome) sv =
     (case outcome of
        Inl e \<Rightarrow> (Replied (Inl e), sv)
      | Inr g \<Rightarrow> (Awaits (AwaitState tid cid params (read_thread_state mtd (rg_reads g) tid)), sv))"
| "proceed mtd ops now rid (AwaitState tid cid params outcome) sv =
     (case outcome of
        Inl e \<Rightarrow> (Replied (Inl e), sv)
      | Inr snap \<Rightarrow> validate_respond ops rid tid cid params snap sv)"
| "proceed mtd ops now rid (AwaitRespond tid cid i) sv = end_respond cid i sv"

text \<open>The first stretch of a command.\<close>

definition with_object :: "pyval \<Rightarrow> 's server \<Rightarrow> (dict \<Rightarrow> progress \<times> 's server) \<Rightarrow> progress \<times> 's server" where
  "with_object params sv k =
     (case params of
        PDict d \<Rightarrow> k d
      | _ \<Rightarrow> (case py_get params ''assistant_id'' of
                Inl e \<Rightarrow> (Replied (Inl e), sv)
              | Inr v \<Rightarrow> (Replied (Inl beyond_model), sv)))"

definition begin_command ::
  "(pyval \<Rightarrow> exn + pyval) \<Rightarrow> 's store_ops \<Rightarrow> string \<Rightarrow> string \<Rightarrow> body \<Rightarrow> 's server \<Rightarrow> progress \<times> 's server" where
  "begin_command mtd ops rid tid b sv =
     (case so_get ops tid (v_store sv) of
        Inl e \<Rightarrow> (Replied (Inl e), sv)
      | Inr None \<Rightarrow> (Replied (Inr not_found), sv)
      | Inr (Some rec) \<Rightarrow>
          (case b of
             Inl e \<Rightarrow> (Replied (Inr (error_envelope PNone ''invalid_argument'' ''invalid JSON body'')), sv)
           | Inr (PDict body) \<Rightarrow>
               (let cid = or_none (dget body ''id'');
                    meth = or_none (dget body ''method'');
                    params = py_or (or_none (dget body ''params'')) (PDict [])
                in if meth = PStr ''run.start''
                   then with_object params sv (\<lambda>d. begin_start rid tid rec cid d sv)
                   else if meth = PStr ''input.respond''
                   then with_object params sv (\<lambda>d. (begin_respond ops tid cid d sv, sv))
                   else if meth = PStr ''run.cancel''
                   then with_object params sv
                          (\<lambda>d. (Replied (Inr (success_envelope cid [])),
                               sv\<lparr>v_manager := snd (cancel tid (or_none (dget d ''run_id'')) (v_manager sv))\<rparr>))
                   else if meth = PStr ''state.get''
                   then (Replied (command_state mtd ops tid cid sv), sv)
                   else (Replied (Inr (error_envelope cid ''unknown_command'' (''unsupported method: '' @ py_str meth))), sv))
           | Inr v \<Rightarrow> (Replied (Inr (error_envelope PNone ''invalid_argument'' ''invalid command body'')), sv)))"

section \<open>An uninterrupted handler\<close>

text \<open>A handler that is given its stretches one after the other; a command has at most four.\<close>

fun drive ::
  "(pyval \<Rightarrow> exn + pyval) \<Rightarrow> 's store_ops \<Rightarrow> string \<Rightarrow> string \<Rightarrow> nat \<Rightarrow> progress \<times> 's server \<Rightarrow> progress \<times> 's server" where
  "drive mtd ops now rid 0 x = x"
| "drive mtd ops now rid (Suc k) x =
     (case fst x of
        Replied r \<Rightarrow> x
      | Awaits w \<Rightarrow> drive mtd ops now rid k (proceed mtd ops now rid w (snd x)))"

lemma drive_replied [simp]: "drive mtd ops now rid k (Replied r, sv) = (Replied r, sv)"
  by (cases k) simp_all

text \<open>A finished handler as the reply and state of \<open>Router\<close>.\<close>

definition finished :: "reply \<times> 's server \<Rightarrow> progress \<times> 's server" where
  "finished x = (Replied (fst x), snd x)"

lemma finished_pair [simp]: "finished (r, sv) = (Replied r, sv)"
  by (simp add: finished_def)

lemma drive_start:
  "drive mtd ops now rid (Suc k) (begin_start rid tid rec cid params sv)
     = finished (command_start ops now rid tid rec cid params sv)"
proof -
  let ?aid = "or_none (dget params ''assistant_id'')"
  show ?thesis
  proof (cases "truthy ?aid")
    case False
    then show ?thesis by (simp add: begin_start_def command_start_def Let_def)
  next
    case aid: True
    show ?thesis
    proof (cases "stamped_config (tr_metadata rec) (or_none (dget params ''config''))")
      case (Inl e)
      with aid show ?thesis by (simp add: begin_start_def command_start_def Let_def)
    next
      case cfg: (Inr config)
      let ?r = "start_reserve tid ?aid (Input (or_none (dget params ''input''))) (Some config)
                  (or_none (dget params ''metadata'')) rid (v_manager sv)"
      show ?thesis
      proof (cases ?r)
        case (Inl e)
        with aid cfg show ?thesis
          by (simp add: begin_start_def command_start_def manager_start_def run_to_end_def Let_def)
      next
        case (Inr x)
        obtain i m where x: "x = (i, m)" by (cases x)
        with Inr obtain p where p: "m_starts m i = Some p" by (auto simp: start_reserve_def Let_def split: option.splits)
        obtain res m' where f: "start_finish i p m = (res, m')" by fastforce
        show ?thesis using aid cfg Inr x p f
          by (cases res) (simp_all add: begin_start_def command_start_def manager_start_def run_to_end_def
              end_start_def Let_def split: sum.split)
      qed
    qed
  qed
qed

lemma drive_end_respond:
  assumes "respond_reserve tid iid response aid rid (v_manager sv) = Inr (i, m)"
  shows "drive mtd ops now rid' (Suc k) (Awaits (AwaitRespond tid cid i), sv\<lparr>v_manager := m\<rparr>) =
     finished (case manager_respond tid iid response aid rid (v_manager sv) of
        (Inl e, m) \<Rightarrow> (respond_error cid e, sv\<lparr>v_manager := m\<rparr>)
      | (Inr run_id, m) \<Rightarrow> (Inr (success_envelope cid [(''run_id'', PStr run_id)]), sv\<lparr>v_manager := m\<rparr>))"
proof -
  obtain p where p: "m_starts m i = Some p"
    using assms by (auto simp: respond_reserve_def start_reserve_def Let_def split: sum.splits option.splits)
  obtain res m' where f: "start_finish i p m = (res, m')" by fastforce
  then show ?thesis using assms p
    by (cases res) (simp_all add: manager_respond_def run_to_end_def end_respond_def)
qed

lemma drive_validate:
  assumes "state_graph ops tid sv = Inr (Some g)" and "read_thread_state mtd (rg_reads g) tid = Inr snap"
    and "interrupt_id params \<noteq> []"
  shows "drive mtd ops now rid (Suc k) (validate_respond ops rid tid cid params snap sv)
     = finished (command_respond mtd ops rid tid cid params sv)"
proof (cases "pending_ids snap")
  case (Inl e)
  with assms show ?thesis by (simp add: validate_respond_def command_respond_def interrupt_id_def Let_def)
next
  case ids: (Inr ids)
  show ?thesis
  proof (cases "PStr (interrupt_id params) \<in> set ids")
    case False
    with assms ids show ?thesis by (simp add: validate_respond_def command_respond_def interrupt_id_def Let_def)
  next
    case True
    show ?thesis
    proof (cases "so_get ops tid (v_store sv)")
      case (Inl e)
      with assms(1) show ?thesis by (simp add: state_graph_def)
    next
      case (Inr stored)
      let ?aid = "case stored of None \<Rightarrow> PNone | Some r \<Rightarrow> opt_str (tr_assistant_id r)"
      let ?res = "respond_reserve tid (interrupt_id params) (or_none (dget params ''response'')) ?aid rid (v_manager sv)"
      have c: "command_respond mtd ops rid tid cid params sv =
          (case manager_respond tid (interrupt_id params) (or_none (dget params ''response'')) ?aid rid (v_manager sv) of
             (Inl e, m) \<Rightarrow> (respond_error cid e, sv\<lparr>v_manager := m\<rparr>)
           | (Inr run_id, m) \<Rightarrow> (Inr (success_envelope cid [(''run_id'', PStr run_id)]), sv\<lparr>v_manager := m\<rparr>))"
        using assms ids True Inr by (simp add: command_respond_def interrupt_id_def Let_def)
      show ?thesis
      proof (cases ?res)
        case (Inl e)
        then show ?thesis using ids True Inr unfolding c
          by (simp add: validate_respond_def manager_respond_def run_to_end_def)
      next
        case r: (Inr x)
        obtain i m where x: "x = (i, m)" by (cases x)
        have v: "validate_respond ops rid tid cid params snap sv = (Awaits (AwaitRespond tid cid i), sv\<lparr>v_manager := m\<rparr>)"
          using ids True Inr r x by (simp add: validate_respond_def)
        show ?thesis unfolding v c by (rule drive_end_respond [OF r [unfolded x]])
      qed
    qed
  qed
qed

lemma drive_respond:
  "drive mtd ops now rid (Suc (Suc (Suc k))) (begin_respond ops tid cid params sv, sv)
     = finished (command_respond mtd ops rid tid cid params sv)"
proof (cases "interrupt_id params = []")
  case True
  then show ?thesis by (simp add: begin_respond_def command_respond_def interrupt_id_def Let_def)
next
  case iid: False
  show ?thesis
  proof (cases "state_graph ops tid sv")
    case (Inl e)
    with iid show ?thesis
      by (auto simp: begin_respond_def command_respond_def interrupt_id_def state_graph_def Let_def
          split: sum.splits option.splits)
  next
    case g: (Inr go)
    show ?thesis
    proof (cases go)
      case None
      with iid g show ?thesis
        by (auto simp: begin_respond_def command_respond_def interrupt_id_def state_graph_def Let_def
            split: sum.splits option.splits)
    next
      case (Some g')
      with iid g have b: "begin_respond ops tid cid params sv = Awaits (AwaitGraph tid cid params (Inr g'))"
        by (auto simp: begin_respond_def state_graph_def split: sum.splits option.splits)
      show ?thesis
      proof (cases "read_thread_state mtd (rg_reads g') tid")
        case (Inl e)
        with iid g Some show ?thesis unfolding b
          by (simp add: command_respond_def interrupt_id_def Let_def)
      next
        case (Inr snap)
        with drive_validate [OF _ Inr iid, of ops sv now rid k cid] g Some show ?thesis
          unfolding b by simp
      qed
    qed
  qed
qed

lemma drive_with_object:
  assumes "\<And>d. drive mtd ops now rid n (k d) = finished (k' d)"
  shows "drive mtd ops now rid n (with_object params sv k) = finished (with_params params sv k')"
  using assms by (auto simp: with_object_def with_params_def split: pyval.split sum.split)

section \<open>Many handlers\<close>

text \<open>
  Suspended handlers by number, and the replies given so far. What happens in the background are
  steps of runs, their callbacks, cancellations and registrations; only its handler ends a start.
\<close>

record 's handling =
  d_server :: "'s server"
  d_waiting :: "nat \<Rightarrow> waiting option"
  d_next :: nat
  d_replies :: "(nat \<times> reply) list"

datatype handling_event =
    Arrive string string body
  | Proceed nat string string
  | Abandon nat
  | Background run_event

definition background :: "run_event \<Rightarrow> bool" where
  "background ev =
     (case ev of
        TaskStep j ts \<Rightarrow> True | TaskCallback j \<Rightarrow> True | CancelCall tid rid \<Rightarrow> True | RegisterCall aid f \<Rightarrow> True
      | _ \<Rightarrow> False)"

definition record_progress :: "nat \<Rightarrow> progress \<times> 's server \<Rightarrow> 's handling \<Rightarrow> 's handling" where
  "record_progress h x D =
     (case fst x of
        Replied r \<Rightarrow> D\<lparr>d_server := snd x, d_waiting := (d_waiting D)(h := None), d_replies := d_replies D @ [(h, r)]\<rparr>
      | Awaits w \<Rightarrow> D\<lparr>d_server := snd x, d_waiting := (d_waiting D)(h \<mapsto> w)\<rparr>)"

text \<open>The start that a suspended handler is in, and its thread.\<close>

fun starting_in :: "waiting \<Rightarrow> (string \<times> nat) option" where
  "starting_in (AwaitStart tid cid aid i) = Some (tid, i)"
| "starting_in (AwaitRespond tid cid i) = Some (tid, i)"
| "starting_in (AwaitGraph tid cid params outcome) = None"
| "starting_in (AwaitState tid cid params outcome) = None"

text \<open>A client that disconnects cancels its handler at the await.\<close>

definition abandon :: "waiting \<Rightarrow> 's server \<Rightarrow> 's server" where
  "abandon w sv =
     (case starting_in w of
        None \<Rightarrow> sv
      | Some (tid, i) \<Rightarrow> sv\<lparr>v_manager := start_cancelled i (v_manager sv)\<rparr>)"

fun handle_step ::
  "(pyval \<Rightarrow> exn + pyval) \<Rightarrow> 's store_ops \<Rightarrow> 's handling \<Rightarrow> handling_event \<Rightarrow> 's handling" where
  "handle_step mtd ops D (Arrive rid tid b) =
     record_progress (d_next D) (begin_command mtd ops rid tid b (d_server D)) (D\<lparr>d_next := Suc (d_next D)\<rparr>)"
| "handle_step mtd ops D (Proceed h now rid) =
     (case d_waiting D h of
        None \<Rightarrow> D
      | Some w \<Rightarrow> record_progress h (proceed mtd ops now rid w (d_server D)) D)"
| "handle_step mtd ops D (Abandon h) =
     (case d_waiting D h of
        None \<Rightarrow> D
      | Some w \<Rightarrow> D\<lparr>d_server := abandon w (d_server D), d_waiting := (d_waiting D)(h := None)\<rparr>)"
| "handle_step mtd ops D (Background ev) =
     (if background ev
      then D\<lparr>d_server := (d_server D)\<lparr>v_manager := run_step mtd (v_manager (d_server D)) ev\<rparr>\<rparr>
      else D)"

text \<open>
  What one stretch does to the manager: nothing, or an event of the run system that publishes
  nothing.
\<close>

definition quiet :: "run_event \<Rightarrow> bool" where
  "quiet ev = (case ev of TaskStep j ts \<Rightarrow> False | _ \<Rightarrow> True)"

definition one_event :: "(pyval \<Rightarrow> exn + pyval) \<Rightarrow> manager \<Rightarrow> manager \<Rightarrow> bool" where
  "one_event mtd m m' = (m' = m \<or> (\<exists>ev. quiet ev \<and> m' = run_step mtd m ev))"

lemma one_event_inv: "one_event mtd m m' \<Longrightarrow> run_inv m \<Longrightarrow> run_inv m'"
  by (auto simp: one_event_def run_inv_step)

lemma one_event_runs: "one_event mtd m m' \<Longrightarrow> \<exists>evs. list_all quiet evs \<and> m' = runs_from mtd m evs"
proof -
  assume "one_event mtd m m'"
  then consider "m' = m" | ev where "quiet ev" "m' = run_step mtd m ev" by (auto simp: one_event_def)
  then show ?thesis
  proof cases
    case 1
    then show ?thesis by (intro exI [of _ "[]"]) simp
  next
    case 2
    then show ?thesis by (intro exI [of _ "[ev]"]) simp
  qed
qed

text \<open>
  A stretch that suspends its handler in a start has made that start; any other stretch leaves the
  starts, except that it may end the one its handler was in.
\<close>

definition makes_start :: "progress \<Rightarrow> manager \<Rightarrow> manager \<Rightarrow> bool" where
  "makes_start pr m m' =
     (case pr of
        Replied r \<Rightarrow> m_starts m' = m_starts m
      | Awaits w \<Rightarrow>
          (case starting_in w of
             None \<Rightarrow> m_starts m' = m_starts m
           | Some (tid, i) \<Rightarrow>
               i = m_next m \<and> (\<exists>p. p_thread p = tid \<and> m_starts m' = (m_starts m)(i \<mapsto> p))))"

lemma start_reserve_spec:
  "start_reserve tid aid inp config metadata rid m = Inr (i, m') \<Longrightarrow>
   i = m_next m \<and> (\<exists>p. p_thread p = tid \<and> m_starts m' = (m_starts m)(i \<mapsto> p))"
  by (auto simp: start_reserve_def Let_def split: option.splits
      intro!: exI [of _ "\<lparr>p_thread = tid, p_run_id = rid, p_assistant = aid, p_input = inp, p_config = config,
          p_metadata = metadata, p_outcome = resolve (m_registry m) aid (config_value config)\<rparr>"])

lemma one_event_refl [simp]: "one_event mtd m m"
  by (simp add: one_event_def)

lemma one_event_start:
  "start_reserve tid aid inp config metadata rid m = Inr (i, m') \<Longrightarrow> one_event mtd m m'"
  unfolding one_event_def by (intro disjI2 exI [of _ "StartCall tid aid inp config metadata rid"]) (simp add: quiet_def)

lemma one_event_respond: "respond_reserve tid iid response aid rid m = Inr (i, m') \<Longrightarrow> one_event mtd m m'"
  unfolding one_event_def by (intro disjI2 exI [of _ "RespondCall tid iid response aid rid"]) (simp add: quiet_def)

lemma one_event_cancel: "one_event mtd m (snd (cancel tid rid m))"
  unfolding one_event_def by (intro disjI2 exI [of _ "CancelCall tid rid"]) (simp add: quiet_def)

lemma one_event_finish: "m_starts m i = Some p \<Longrightarrow> start_finish i p m = (r, m') \<Longrightarrow> one_event mtd m m'"
  unfolding one_event_def by (intro disjI2 exI [of _ "StartDone i"]) (simp add: quiet_def)

definition good_stretch :: "(pyval \<Rightarrow> exn + pyval) \<Rightarrow> 's server \<Rightarrow> progress \<times> 's server \<Rightarrow> bool" where
  "good_stretch mtd sv x =
     (one_event mtd (v_manager sv) (v_manager (snd x)) \<and> makes_start (fst x) (v_manager sv) (v_manager (snd x)))"

lemma good_replied [simp]: "good_stretch mtd sv (Replied r, sv)"
  by (simp add: good_stretch_def makes_start_def)

lemma begin_start_good: "good_stretch mtd sv (begin_start rid tid rec cid params sv)"
  by (auto simp: good_stretch_def makes_start_def begin_start_def Let_def
      dest: one_event_start start_reserve_spec split: sum.split)

lemma respond_reserve_spec:
  "respond_reserve tid iid response aid rid m = Inr (i, m') \<Longrightarrow>
   i = m_next m \<and> (\<exists>p. p_thread p = tid \<and> m_starts m' = (m_starts m)(i \<mapsto> p))"
  by (auto simp: respond_reserve_def dest: start_reserve_spec split: sum.splits)

lemma validate_respond_good: "good_stretch mtd sv (validate_respond ops rid tid cid params snap sv)"
  by (auto simp: good_stretch_def makes_start_def validate_respond_def
      dest: one_event_respond respond_reserve_spec split: sum.split)

lemma cancel_starts [simp]: "m_starts (snd (cancel tid rid m)) = m_starts m"
  by (simp add: cancel_def split: option.split owner.split)

lemma begin_respond_good: "good_stretch mtd sv (begin_respond ops tid cid params sv, sv)"
  by (auto simp: good_stretch_def makes_start_def begin_respond_def split: sum.split option.split)

lemma with_object_good:
  "(\<And>d. good_stretch mtd sv (k d)) \<Longrightarrow> good_stretch mtd sv (with_object params sv k)"
  by (auto simp: with_object_def split: pyval.split sum.split)

lemma begin_command_good: "good_stretch mtd sv (begin_command mtd ops rid tid b sv)"
proof -
  have "good_stretch mtd sv (Replied r, sv\<lparr>v_manager := snd (cancel tid x (v_manager sv))\<rparr>)" for r x
    by (simp add: good_stretch_def makes_start_def one_event_cancel)
  then show ?thesis unfolding begin_command_def Let_def
    by (auto intro!: with_object_good begin_start_good begin_respond_good split: sum.split option.split pyval.split)
qed

text \<open>The stretches after the first.\<close>

lemma start_finish_starts: "m_starts (snd (start_finish i p m)) = (m_starts m)(i := None)"
  by (cases "p_outcome p"; cases "run_config (p_thread p) (p_config p) (p_metadata p)")
     (simp_all add: start_finish_def Let_def)

lemma end_stretch:
  assumes "starting_in w = Some (tid, i)" and "m_starts (v_manager sv) i = Some p"
  shows "\<exists>r sv'. proceed mtd ops now rid w sv = (Replied r, sv') \<and>
     one_event mtd (v_manager sv) (v_manager sv') \<and>
     m_starts (v_manager sv') = (m_starts (v_manager sv))(i := None)"
proof -
  obtain res m' where f: "start_finish i p (v_manager sv) = (res, m')" by fastforce
  have m': "m_starts m' = (m_starts (v_manager sv))(i := None)"
    using start_finish_starts [of i p "v_manager sv"] f by simp
  note ev = one_event_finish [OF assms(2) f]
  show ?thesis
  proof (cases w)
    case (AwaitStart tid' cid aid i')
    with assms f m' ev show ?thesis by (auto simp: end_start_def split: sum.split)
  next
    case (AwaitRespond tid' cid i')
    with assms f m' ev show ?thesis by (auto simp: end_respond_def split: sum.split)
  qed (use assms in simp_all)
qed

lemma middle_stretch: "starting_in w = None \<Longrightarrow> good_stretch mtd sv (proceed mtd ops now rid w sv)"
proof (cases w)
  case (AwaitGraph tid cid params outcome)
  then show ?thesis by (auto simp: good_stretch_def makes_start_def split: sum.split)
next
  case (AwaitState tid cid params outcome)
  then show ?thesis by (auto intro: validate_respond_good split: sum.split)
qed simp_all

section \<open>The invariant\<close>

text \<open>
  A handler that waits in a start is the only one in that start, and the start is under way on its
  thread.
\<close>

definition waits_in :: "'s handling \<Rightarrow> nat \<Rightarrow> string \<Rightarrow> nat \<Rightarrow> bool" where
  "waits_in D h tid i = (\<exists>w. d_waiting D h = Some w \<and> starting_in w = Some (tid, i))"

definition handling_inv :: "'s handling \<Rightarrow> bool" where
  "handling_inv D =
     (run_inv (v_manager (d_server D)) \<and>
      (\<forall>h. d_next D \<le> h \<longrightarrow> d_waiting D h = None) \<and>
      (\<forall>h tid i. waits_in D h tid i \<longrightarrow> (\<exists>p. m_starts (v_manager (d_server D)) i = Some p \<and> p_thread p = tid)) \<and>
      (\<forall>h h' tid tid' i. waits_in D h tid i \<longrightarrow> waits_in D h' tid' i \<longrightarrow> h = h'))"

lemma handling_invD:
  "handling_inv D \<Longrightarrow> run_inv (v_manager (d_server D))"
  "handling_inv D \<Longrightarrow> waits_in D h tid i \<Longrightarrow> \<exists>p. m_starts (v_manager (d_server D)) i = Some p \<and> p_thread p = tid"
  "handling_inv D \<Longrightarrow> waits_in D h tid i \<Longrightarrow> waits_in D h' tid' i \<Longrightarrow> h = h'"
  "handling_inv D \<Longrightarrow> d_next D \<le> h \<Longrightarrow> d_waiting D h = None"
  unfolding handling_inv_def by blast+

text \<open>A stretch that makes at most one start keeps the invariant.\<close>

lemma good_stretch_inv:
  assumes inv: "handling_inv D" and good: "good_stretch mtd (d_server D) x"
    and n: "h < n" "d_next D \<le> n"
  shows "handling_inv (record_progress h x (D\<lparr>d_next := n\<rparr>))"
proof -
  let ?D = "record_progress h x (D\<lparr>d_next := n\<rparr>)"
  let ?m = "v_manager (d_server D)" and ?m' = "v_manager (snd x)"
  have ev: "one_event mtd ?m ?m'" and mk: "makes_start (fst x) ?m ?m'"
    using good by (simp_all add: good_stretch_def)
  have server: "v_manager (d_server ?D) = ?m'" by (simp add: record_progress_def split: progress.split)
  have next_new: "m_starts ?m (m_next ?m) = None" using next_is_new [OF handling_invD(1) [OF inv]] by simp
  have waits: "waits_in ?D k tid i \<longleftrightarrow>
      (if k = h then (\<exists>w. fst x = Awaits w \<and> starting_in w = Some (tid, i))
       else waits_in D k tid i)" for k tid i
    by (auto simp: waits_in_def record_progress_def split: progress.split)
  have old: "\<exists>p. m_starts ?m' i = Some p \<and> p_thread p = tid" "i \<noteq> m_next ?m" if "waits_in D k tid i" for k tid i
    using handling_invD(2) [OF inv that] next_new mk
    by (auto simp: makes_start_def split: progress.splits option.splits)
  have new: "i = m_next ?m \<and> (\<exists>p. m_starts ?m' i = Some p \<and> p_thread p = tid)"
    if "fst x = Awaits w" "starting_in w = Some (tid, i)" for w tid i
    using that mk by (auto simp: makes_start_def)
  have "d_waiting ?D k = None" if "n \<le> k" for k
    using handling_invD(4) [OF inv, of k] n that by (auto simp: record_progress_def split: progress.split)
  moreover have "d_next ?D = n" by (simp add: record_progress_def split: progress.split)
  moreover have "\<exists>p. m_starts ?m' i = Some p \<and> p_thread p = tid" if "waits_in ?D k tid i" for k tid i
    using that old(1) new by (auto simp: waits split: if_splits)
  moreover have "k = k'" if k: "waits_in ?D k tid i" "waits_in ?D k' tid' i" for k k' tid tid' i
  proof -
    have is_h: "l = h \<longleftrightarrow> i = m_next ?m" if "waits_in ?D l t i" for l t
      using that new old(2) [of l t i] by (auto simp: waits split: if_splits)
    show ?thesis
    proof (cases "i = m_next ?m")
      case True
      with is_h [OF k(1)] is_h [OF k(2)] show ?thesis by simp
    next
      case False
      with is_h [OF k(1)] is_h [OF k(2)] k have "waits_in D k tid i" "waits_in D k' tid' i" by (simp_all add: waits)
      then show ?thesis by (rule handling_invD(3) [OF inv])
    qed
  qed
  moreover have "run_inv ?m'" by (rule one_event_inv [OF ev handling_invD(1) [OF inv]])
  ultimately show ?thesis by (simp add: handling_inv_def server)
qed

text \<open>A handler leaves its start: by ending it, or by being abandoned.\<close>

lemma leave_start_inv:
  assumes inv: "handling_inv D" and w: "waits_in D h tid i"
    and D': "d_waiting D' = (d_waiting D)(h := None)" "d_next D' = d_next D"
    and m': "run_inv (v_manager (d_server D'))"
      "m_starts (v_manager (d_server D')) = (m_starts (v_manager (d_server D)))(i := None)"
  shows "handling_inv D'"
proof -
  have waits: "waits_in D' k t j \<longleftrightarrow> k \<noteq> h \<and> waits_in D k t j" for k t j by (simp add: waits_in_def D'(1))
  have "j \<noteq> i" if "waits_in D k t j" "k \<noteq> h" for k t j
    using handling_invD(3) [OF inv w, of k t] that by auto
  then have "\<exists>p. m_starts (v_manager (d_server D')) j = Some p \<and> p_thread p = t" if "waits_in D' k t j" for k t j
    using handling_invD(2) [OF inv, of k t j] that by (auto simp: waits m'(2))
  moreover have "k = k'" if "waits_in D' k t j" "waits_in D' k' t' j" for k k' t t' j
    using handling_invD(3) [OF inv, of k t j k' t'] that by (simp add: waits)
  moreover have "d_waiting D' k = None" if "d_next D' \<le> k" for k
    using handling_invD(4) [OF inv, of k] that by (simp add: D')
  ultimately show ?thesis using m'(1) by (simp add: handling_inv_def)
qed

lemma background_starts: "background ev \<Longrightarrow> m_starts (run_step mtd m ev) = m_starts m"
  by (cases ev)
     (auto simp: background_def task_step_def task_callback_def split: option.split prod.split)

lemma proceed_inv:
  assumes inv: "handling_inv D" and w: "d_waiting D h = Some w"
  shows "handling_inv (handle_step mtd ops D (Proceed h now rid))"
proof (cases "starting_in w")
  case None
  have "h < d_next D" using handling_invD(4) [OF inv, of h] w by (cases "h < d_next D") auto
  with good_stretch_inv [OF inv middle_stretch [OF None], of h "d_next D"] show ?thesis by (simp add: w)
next
  case (Some y)
  then obtain tid i where st: "starting_in w = Some (tid, i)" by (cases y) simp
  with w have wi: "waits_in D h tid i" by (simp add: waits_in_def)
  with handling_invD(2) [OF inv] obtain p where "m_starts (v_manager (d_server D)) i = Some p" by blast
  then obtain r sv' where e: "proceed mtd ops now rid w (d_server D) = (Replied r, sv')"
    "one_event mtd (v_manager (d_server D)) (v_manager sv')"
    "m_starts (v_manager sv') = (m_starts (v_manager (d_server D)))(i := None)"
    using end_stretch [OF st] by blast
  have "handling_inv (record_progress h (Replied r, sv') D)"
    by (rule leave_start_inv [OF inv wi])
       (simp_all add: record_progress_def e(3) one_event_inv [OF e(2) handling_invD(1) [OF inv]])
  then show ?thesis by (simp add: w e(1))
qed

lemma abandon_inv:
  assumes inv: "handling_inv D" and w: "d_waiting D h = Some w"
  shows "handling_inv (handle_step mtd ops D (Abandon h))"
proof -
  let ?D = "D\<lparr>d_server := abandon w (d_server D), d_waiting := (d_waiting D)(h := None)\<rparr>"
  have "handling_inv ?D"
  proof (cases "starting_in w")
    case None
    then have "waits_in ?D k t j \<Longrightarrow> waits_in D k t j" for k t j
      by (auto simp: waits_in_def split: if_splits)
    with inv None show ?thesis unfolding handling_inv_def by (simp add: abandon_def) blast
  next
    case (Some y)
    then obtain tid i where st: "starting_in w = Some (tid, i)" by (cases y) simp
    with w have wi: "waits_in D h tid i" by (simp add: waits_in_def)
    show ?thesis
      by (rule leave_start_inv [OF inv wi])
         (simp_all add: abandon_def st start_cancelled_def drop_start_inv handling_invD(1) [OF inv])
  qed
  then show ?thesis by (simp add: w)
qed

lemma background_inv:
  assumes inv: "handling_inv D" and bg: "background ev"
  shows "handling_inv (handle_step mtd ops D (Background ev))"
proof -
  let ?D = "D\<lparr>d_server := (d_server D)\<lparr>v_manager := run_step mtd (v_manager (d_server D)) ev\<rparr>\<rparr>"
  have "waits_in ?D k t j \<longleftrightarrow> waits_in D k t j" for k t j by (simp add: waits_in_def)
  moreover have "run_inv (run_step mtd (v_manager (d_server D)) ev)"
    by (rule run_inv_step [OF handling_invD(1) [OF inv]])
  ultimately have "handling_inv ?D"
    using inv unfolding handling_inv_def by (simp add: background_starts [OF bg])
  then show ?thesis using bg by simp
qed

lemma handle_step_inv:
  assumes inv: "handling_inv D"
  shows "handling_inv (handle_step mtd ops D ev)"
proof (cases ev)
  case (Arrive rid tid b)
  with good_stretch_inv [OF inv begin_command_good] show ?thesis by simp
next
  case (Proceed h now rid)
  with inv proceed_inv [OF inv, of h] show ?thesis by (cases "d_waiting D h") auto
next
  case (Abandon h)
  with inv abandon_inv [OF inv, of h] show ?thesis by (cases "d_waiting D h") auto
next
  case (Background e)
  with inv background_inv [OF inv, of e] show ?thesis by (cases "background e") auto
qed

interpretation handling: event_system "handle_step mtd ops" handling_inv for mtd ops
  by unfold_locales (rule handle_step_inv)

text \<open>Seen from the manager, handlers are events of the run system.\<close>

lemma proceed_one_event: "one_event mtd (v_manager sv) (v_manager (snd (proceed mtd ops now rid w sv)))"
proof (cases "starting_in w")
  case None
  with middle_stretch [OF None, of mtd sv ops now rid] show ?thesis by (simp add: good_stretch_def)
next
  case (Some y)
  obtain tid i where y: "y = (tid, i)" by (cases y)
  show ?thesis
  proof (cases "m_starts (v_manager sv) i")
    case None
    with Some y show ?thesis by (cases w) (auto simp: end_start_def end_respond_def)
  next
    case p: (Some p)
    from end_stretch [OF Some [unfolded y] p, where mtd = mtd and ops = ops and now = now and rid = rid]
    show ?thesis by fastforce
  qed
qed

lemma record_progress_server [simp]: "d_server (record_progress h x D) = snd x"
  by (simp add: record_progress_def split: progress.split)

lemma handle_step_one_event:
  assumes "\<And>e. ev \<noteq> Background e"
  shows "one_event mtd (v_manager (d_server D)) (v_manager (d_server (handle_step mtd ops D ev)))"
proof (cases ev)
  case (Arrive rid tid b)
  with begin_command_good [of mtd "d_server D" ops rid tid b] show ?thesis by (simp add: good_stretch_def)
next
  case (Proceed h now rid)
  then show ?thesis by (simp add: proceed_one_event split: option.split)
next
  case (Abandon h)
  have "one_event mtd m (start_cancelled i m)" for i m
    unfolding one_event_def by (intro disjI2 exI [of _ "StartCancelled i"]) (simp add: quiet_def)
  then show ?thesis by (simp add: Abandon abandon_def split: option.split prod.split)
next
  case (Background e)
  with assms show ?thesis by blast
qed

lemma handle_step_runs:
  "v_manager (d_server D) = m \<Longrightarrow> \<exists>evs. v_manager (d_server (handle_step mtd ops D ev)) = runs_from mtd m evs"
proof (cases "\<exists>e. ev = Background e")
  case True
  assume m: "v_manager (d_server D) = m"
  from True obtain e where "ev = Background e" by blast
  with m show ?thesis by (intro exI [of _ "if background e then [e] else []"]) simp
next
  case False
  then show "v_manager (d_server D) = m \<Longrightarrow> ?thesis"
    using one_event_runs [OF handle_step_one_event [where ev = ev and mtd = mtd and D = D and ops = ops]] by blast
qed

interpretation handled: event_simulation "handle_step mtd ops" "run_step mtd" "\<lambda>D m. v_manager (d_server D) = m" for mtd ops
  by unfold_locales (rule handle_step_runs)

section \<open>Properties\<close>

definition new_handling :: "'s \<Rightarrow> run_graph registry \<Rightarrow> nat \<Rightarrow> 's handling" where
  "new_handling st reg n =
     \<lparr>d_server = \<lparr>v_store = st, v_manager = new_manager reg n\<rparr>, d_waiting = (\<lambda>_. None), d_next = 0, d_replies = []\<rparr>"

definition handled_by ::
  "(pyval \<Rightarrow> exn + pyval) \<Rightarrow> 's store_ops \<Rightarrow> 's \<Rightarrow> run_graph registry \<Rightarrow> nat \<Rightarrow> handling_event list \<Rightarrow> 's handling" where
  "handled_by mtd ops st reg n evs = foldl (handle_step mtd ops) (new_handling st reg n) evs"

lemma handled_by_inv: "handling_inv (handled_by mtd ops st reg n evs)"
  unfolding handled_by_def
  by (rule handling.inv_run) (simp add: handling_inv_def new_handling_def waits_in_def run_inv_new)


text \<open>C8: of all handlers that are suspended anywhere, at most one is starting a run on a thread, and
  while it is, no run of the thread can act: however commands arrive, go on and are abandoned, two
  requests never start two runs on one thread.\<close>

theorem one_starting_handler:
  assumes "waits_in (handled_by mtd ops st reg n evs) h tid i"
    and "waits_in (handled_by mtd ops st reg n evs) h' tid i'"
  shows "h = h' \<and> occupants (v_manager (d_server (handled_by mtd ops st reg n evs))) tid = {Reserved i}"
proof -
  let ?D = "handled_by mtd ops st reg n evs"
  let ?m = "v_manager (d_server ?D)"
  have inv: "handling_inv ?D" by (rule handled_by_inv)
  have occ: "Reserved j \<in> occupants ?m tid" if "waits_in ?D k tid j" for k j
    using handling_invD(2) [OF inv that] start_occupies [of ?m j] by blast
  from occupant_unique [OF handling_invD(1) [OF inv]] occ assms have "i = i'" by blast
  with handling_invD(3) [OF inv] assms have "h = h'" by blast
  moreover have "occupants ?m tid = {Reserved i}"
    using occupant_unique [OF handling_invD(1) [OF inv]] occ [OF assms(1)] by blast
  ultimately show ?thesis by blast
qed

definition start_body :: body where
  "start_body = Inr (PDict [(''id'', PInt 1), (''method'', PStr ''run.start''),
                            (''params'', PDict [(''assistant_id'', PStr ''a'')])])"

definition demo_threads :: memory_store where
  "demo_threads = [(''t'', fresh_record ''now'' [] 0 None)]"

definition demo_ops :: "memory_store store_ops" where
  "demo_ops = \<lparr>so_create = memory_create, so_get = memory_get, so_set = memory_set_assistant\<rparr>"

definition demo_handling :: "memory_store handling" where
  "demo_handling = handled_by plain_message demo_ops demo_threads demo_registry 5 [Arrive ''r1'' ''t'' start_body]"

lemma demo_waits: "waits_in demo_handling 0 ''t'' 0"
proof -
  have "case d_waiting demo_handling 0 of None \<Rightarrow> False | Some w \<Rightarrow> starting_in w = Some (''t'', 0)" by code_simp
  then show ?thesis by (simp add: waits_in_def split: option.splits)
qed

theorem one_starting_handler_witness:
  "occupants (v_manager (d_server demo_handling)) ''t'' = {Reserved 0}"
  using one_starting_handler [OF demo_waits [unfolded demo_handling_def] demo_waits [unfolded demo_handling_def]]
  by (simp add: demo_handling_def)

text \<open>C38: a request whose client disconnects while its graph resolves blocks its thread for good: the
  handler is cancelled inside \<open>start\<close>, whose \<open>except Exception\<close> does not see it, and whatever
  happens afterwards every start on the thread is refused.\<close>

theorem abandoned_handler_blocks_thread:
  assumes "waits_in (handled_by mtd ops st reg n evs) h tid i"
  shows "\<exists>rid. start_reserve tid aid inp config metadata run_id
       (v_manager (d_server (foldl (handle_step mtd ops)
          (handle_step mtd ops (handled_by mtd ops st reg n evs) (Abandon h)) later)))
     = Inl (run_active_error tid rid)"
proof -
  let ?D = "handled_by mtd ops st reg n evs"
  let ?m = "v_manager (d_server ?D)"
  from handling_invD(2) [OF handled_by_inv assms] obtain p where p: "m_starts ?m i = Some p" "p_thread p = tid" by blast
  have st: "stuck_inv tid i (start_cancelled i ?m)"
    using start_leaks [OF handling_invD(1) [OF handled_by_inv] p(1)] p(2) by simp
  have "v_manager (d_server (handle_step mtd ops ?D (Abandon h))) = start_cancelled i ?m"
    using assms by (auto simp: waits_in_def abandon_def)
  from handled.simulated_run [OF this, of mtd ops later] obtain es where
    "v_manager (d_server (foldl (handle_step mtd ops) (handle_step mtd ops ?D (Abandon h)) later))
       = runs_from mtd (start_cancelled i ?m) es" by blast
  with stuck_refuses [OF st, of aid inp config metadata run_id mtd es] show ?thesis by simp
qed

theorem abandoned_handler_blocks_thread_witness:
  "\<exists>rid. start_reserve ''t'' (PStr ''a'') (Input PNone) None PNone ''r2''
       (v_manager (d_server (foldl (handle_step plain_message demo_ops)
          (handle_step plain_message demo_ops demo_handling (Abandon 0)) [Arrive ''r3'' ''t'' start_body])))
     = Inl (run_active_error ''t'' rid)"
  using abandoned_handler_blocks_thread [OF demo_waits [unfolded demo_handling_def], of "PStr ''a''" "Input PNone"
      None PNone "''r2''" "[Arrive ''r3'' ''t'' start_body]"]
  by (simp only: demo_handling_def)

text \<open>Two clients that answer interrupts of one thread at the same time: the one that comes second,
  after the first took the thread's slot, gets the typed error that names the active run, not an
  internal error, and changes nothing.\<close>

theorem concurrent_respond_refused:
  assumes "pending_ids snap = Inr ids" and "PStr (interrupt_id params) \<in> set ids"
    and "so_get ops tid (v_store sv) = Inr (Some rec)" and "tr_assistant_id rec = Some aid" and "aid \<noteq> []"
    and "\<And>pending. m_pending (v_manager sv) tid = Some pending \<Longrightarrow> dget pending (interrupt_id params) \<noteq> None"
    and "busy_run (v_manager sv) tid = Some a"
  shows "proceed mtd ops now rid (AwaitState tid cid params (Inr snap)) sv =
     (Replied (Inr (error_envelope cid ''invalid_argument''
        (''thread '' @ tid @ '' already has an active run ('' @ a_run_id a @ '')''))), sv)"
proof -
  have "respond_assistant tid (interrupt_id params) (PStr aid) (v_manager sv) = Inr (PStr aid)"
    using assms(5,6) by (auto simp: respond_assistant_def py_or_def split: option.split)
  with assms(7) have "respond_reserve tid (interrupt_id params) (or_none (dget params ''response'')) (PStr aid) rid (v_manager sv)
      = Inl (run_active_error tid (a_run_id a))"
    by (simp add: respond_reserve_def start_reserve_def)
  with assms(1-4) show ?thesis
    by (simp add: validate_respond_def respond_error_def start_error_def run_active_error_def)
qed

theorem concurrent_respond_refused_witness:
  "proceed plain_message memory.ops ''now'' ''r9''
      (AwaitState ''t'' (PInt 2) [(''interrupt_id'', PStr ''i1'')]
         (Inr [(''interrupts'', PList [PDict [(''id'', PStr ''i1'')]])]))
      (waiting_server\<lparr>v_manager := reached plain_message demo_registry 5 [demo_start]\<rparr>)
   = (Replied (Inr (error_envelope (PInt 2) ''invalid_argument'' ''thread t already has an active run (r1)'')),
      waiting_server\<lparr>v_manager := reached plain_message demo_registry 5 [demo_start]\<rparr>)"
proof -
  let ?m = "reached plain_message demo_registry 5 [demo_start]"
  let ?sv = "waiting_server\<lparr>v_manager := ?m\<rparr>"
  let ?a = "\<lparr>a_run_id = ''r1'', a_thread_id = ''t'', a_assistant = PStr ''a'', a_owner = Reserved 0\<rparr>"
  have b: "busy_run (v_manager ?sv) ''t'' = Some ?a" "m_pending (v_manager ?sv) ''t'' = None"
    by (simp_all add: manager_eval)
  have st: "so_get memory.ops ''t'' (v_store ?sv) = Inr (Some (demo_record\<lparr>tr_assistant_id := Some ''w''\<rparr>))"
    by (simp add: waiting_server_def memory_get_def)
  have iid: "interrupt_id [(''interrupt_id'', PStr ''i1'')] = ''i1''" by (simp add: interrupt_id_def or_none_def py_or_def)
  have ids: "pending_ids [(''interrupts'', PList [PDict [(''id'', PStr ''i1'')]])] = Inr [PStr ''i1'']"
    by (simp add: pending_ids_def or_none_def)
  from concurrent_respond_refused [OF ids _ st _ _ _ b(1), of "[(''interrupt_id'', PStr ''i1'')]" "''w''" plain_message
      "''now''" "''r9''" "PInt 2"] iid b(2)
  show ?thesis by simp
qed

end
