(* ===== verification/Serving.thy ===== *)
theory Serving
  imports Factory Sse ThreadRuns Handlers
begin

text \<open>
  The running server: the handlers of \<open>Handlers\<close>, the runs of \<open>Runner\<close> and the connections of
  \<open>Streams\<close> around one shared state. The hub that a task publishes on and the hub whose
  subscription a generator reads are the same object of the hub registry. The lemmas show that the
  whole refines its parts: seen from one thread it is the stream system of \<open>Streams\<close>, and without
  its hubs it is the run system of \<open>Runner\<close>. What the two guarantee then holds from the start of a
  run to the bytes a client reads.
\<close>

section \<open>State and events\<close>

text \<open>
  \<open>z_conns\<close> are the generators by thread and address of their subscription, \<open>z_trace\<close> is what
  runs have published on each thread.
\<close>

record 's serving =
  z_handling :: "'s handling"
  z_conns :: "string \<Rightarrow> nat \<Rightarrow> conn option"
  z_trace :: run_trace

abbreviation z_server :: "'s serving \<Rightarrow> 's server" where
  "z_server S \<equiv> d_server (z_handling S)"

datatype serving_event =
    Handle handling_event
  | CreateThread string bytes int body
  | CancelRun string string
  | OpenStream string body
  | ResumeStream string nat
  | TimeoutStream string nat
  | CloseStream string nat

definition serving_hub :: "'s serving \<Rightarrow> string \<Rightarrow> hub" where
  "serving_hub S tid = hub_at (m_hubs (v_manager (z_server S))) tid"

definition set_server :: "'s server \<Rightarrow> 's serving \<Rightarrow> 's serving" where
  "set_server sv S = S\<lparr>z_handling := (z_handling S)\<lparr>d_server := sv\<rparr>\<rparr>"

definition set_conn :: "string \<Rightarrow> nat \<Rightarrow> conn \<Rightarrow> 's serving \<Rightarrow> 's serving" where
  "set_conn tid i c S = S\<lparr>z_conns := (z_conns S)(tid := (z_conns S tid)(i \<mapsto> c))\<rparr>"

text \<open>A generator step leaves a hub and the state of its connection.\<close>

definition step_conn :: "string \<Rightarrow> nat \<Rightarrow> hub \<Rightarrow> conn \<Rightarrow> 's serving \<Rightarrow> 's serving" where
  "step_conn tid i h c S =
     (let sv = z_server S; m = v_manager sv
      in set_conn tid i c (set_server (sv\<lparr>v_manager := m\<lparr>m_hubs := put_hub tid h (m_hubs m)\<rparr>\<rparr>) S))"

definition open_conn :: "'s store_ops \<Rightarrow> string \<Rightarrow> body \<Rightarrow> 's serving \<Rightarrow> 's serving" where
  "open_conn ops tid b S =
     (case open_stream ops tid b (z_server S) of
        (Inr (Inr i), sv) \<Rightarrow>
          set_conn tid i \<lparr>c_phase = GStart, c_since = snd (snd (stream_params (body_dict b))), c_out = []\<rparr>
            (set_server sv S)
      | (_, sv) \<Rightarrow> set_server sv S)"

fun serve_step ::
  "(pyval \<Rightarrow> exn + pyval) \<Rightarrow> 's store_ops \<Rightarrow> 's serving \<Rightarrow> serving_event \<Rightarrow> 's serving" where
  "serve_step mtd ops S (Handle ev) =
     S\<lparr>z_handling := handle_step mtd ops (z_handling S) ev,
       z_trace := (case ev of
          Background e \<Rightarrow>
            if background e then (\<lambda>tid. z_trace S tid @ emits mtd (v_manager (z_server S)) e tid) else z_trace S
        | _ \<Rightarrow> z_trace S)\<rparr>"
| "serve_step mtd ops S (CreateThread now raw ms b) =
     set_server (snd (create_thread ops now raw ms b (z_server S))) S"
| "serve_step mtd ops S (CancelRun tid rid) = set_server (snd (cancel_run ops tid rid (z_server S))) S"
| "serve_step mtd ops S (OpenStream tid b) = open_conn ops tid b S"
| "serve_step mtd ops S (ResumeStream tid i) =
     (case z_conns S tid i of
        None \<Rightarrow> S
      | Some c \<Rightarrow>
          (case resume (c_phase c) i (serving_hub S tid) of
             (out, ph, h) \<Rightarrow> step_conn tid i h (c\<lparr>c_phase := ph, c_out := c_out c @ out\<rparr>) S))"
| "serve_step mtd ops S (TimeoutStream tid i) =
     (case z_conns S tid i of
        None \<Rightarrow> S
      | Some c \<Rightarrow>
          set_conn tid i (c\<lparr>c_out := c_out c @ timeout (c_phase c) i (serving_hub S tid)\<rparr>) S)"
| "serve_step mtd ops S (CloseStream tid i) =
     (case z_conns S tid i of
        None \<Rightarrow> S
      | Some c \<Rightarrow>
          (case close_gen (c_phase c) i (serving_hub S tid) of
             (ph, h) \<Rightarrow> step_conn tid i h (c\<lparr>c_phase := ph\<rparr>) S))"

definition start_serving :: "'s protocol \<Rightarrow> 's serving" where
  "start_serving p =
     \<lparr>z_handling = \<lparr>d_server = f_server p, d_waiting = (\<lambda>_. None), d_next = 0, d_replies = []\<rparr>,
      z_conns = (\<lambda>_ _. None), z_trace = (\<lambda>_. [])\<rparr>"

abbreviation serve_run ::
  "(pyval \<Rightarrow> exn + pyval) \<Rightarrow> 's store_ops \<Rightarrow> 's serving \<Rightarrow> serving_event list \<Rightarrow> 's serving" where
  "serve_run mtd ops \<equiv> foldl (serve_step mtd ops)"

lemma serving_simps [simp]:
  "z_server (set_server sv S) = sv" "z_conns (set_server sv S) = z_conns S" "z_trace (set_server sv S) = z_trace S"
  "z_handling (set_conn tid i c S) = z_handling S" "z_trace (set_conn tid i c S) = z_trace S"
  "z_conns (set_conn tid i c S) k = (if k = tid then (z_conns S tid)(i \<mapsto> c) else z_conns S k)"
  "serving_hub (set_conn tid i c S) k = serving_hub S k"
  by (simp_all add: set_server_def set_conn_def serving_hub_def)

lemma step_conn_simps [simp]:
  "serving_hub (step_conn tid i h c S) k = (if k = tid then h else serving_hub S k)"
  "z_conns (step_conn tid i h c S) k = (if k = tid then (z_conns S tid)(i \<mapsto> c) else z_conns S k)"
  "z_trace (step_conn tid i h c S) = z_trace S"
  by (simp_all add: step_conn_def serving_hub_def Let_def)

section \<open>Handlers as runs of the manager\<close>

lemma run_step_hubs:
  "m_hubs (run_step mtd m ev) =
     (case ev of
        TaskStep j ts \<Rightarrow>
          (case m_tasks m j of
             None \<Rightarrow> m_hubs m
           | Some t \<Rightarrow> publish_all ts (t_thread t) (fst (exec_step mtd t)) (m_hubs m))
      | _ \<Rightarrow> m_hubs m)"
proof (cases ev)
  case (StartDone i)
  then show ?thesis by (auto simp: start_finish_def Let_def split: option.split sum.split)
next
  case (TaskStep j ts)
  then show ?thesis by (auto simp: task_step_def split: option.split prod.split)
qed (auto simp: respond_reserve_def start_reserve_def start_cancelled_def task_callback_def cancel_def Let_def
    split: option.split sum.split owner.split)

lemma quiet_hubs: "list_all quiet evs \<Longrightarrow> m_hubs (runs_from mtd m evs) = m_hubs m"
  by (induction evs arbitrary: m) (auto simp: run_step_hubs quiet_def split: run_event.splits)

text \<open>A server whose manager is reached by quiet events.\<close>

definition quietly :: "(pyval \<Rightarrow> exn + pyval) \<Rightarrow> 's server \<Rightarrow> 's server \<Rightarrow> bool" where
  "quietly mtd sv sv' = (\<exists>evs. list_all quiet evs \<and> v_manager sv' = runs_from mtd (v_manager sv) evs)"

lemma one_event_quietly: "one_event mtd (v_manager sv) (v_manager sv') \<Longrightarrow> quietly mtd sv sv'"
  unfolding quietly_def by (rule one_event_runs)

lemma cancel_run_quiet: "quietly mtd sv (snd (cancel_run ops tid rid sv))"
  by (rule one_event_quietly) (auto simp: cancel_run_def one_event_cancel Let_def split: sum.split option.split)

lemma create_thread_quiet: "quietly mtd sv (snd (create_thread ops now raw ms b sv))"
  by (rule one_event_quietly) (simp add: create_thread_def Let_def split: sum.split)

lemma handle_quiet:
  "(\<And>e. ev \<noteq> Background e) \<Longrightarrow> quietly mtd (d_server D) (d_server (handle_step mtd ops D ev))"
  by (intro one_event_quietly handle_step_one_event)

section \<open>One thread as a stream system\<close>

text \<open>A thread of the server and a stream system that agree on hub, connections and history.\<close>

definition emission :: "envelope \<Rightarrow> emission" where
  "emission e = (e_method e, e_data e)"

definition mirrors :: "'s serving \<Rightarrow> string \<Rightarrow> stream_sys \<Rightarrow> bool" where
  "mirrors S tid y =
     (serving_hub S tid = y_hub y \<and> z_conns S tid = y_conns y \<and> z_trace S tid = map emission (y_log y))"

fun publishing :: "(nat \<Rightarrow> int) \<Rightarrow> emission list \<Rightarrow> stream_event list" where
  "publishing ts [] = []"
| "publishing ts (e # out) = Publish (ts 0) (fst e) (snd e) # publishing (\<lambda>k. ts (Suc k)) out"

lemma publish_all_streams:
  assumes "hub_at r tid = y_hub y"
  shows "hub_at (publish_all ts tid out r) tid = y_hub (stream_run y (publishing ts out)) \<and>
     y_conns (stream_run y (publishing ts out)) = y_conns y \<and>
     map emission (y_log (stream_run y (publishing ts out))) = map emission (y_log y) @ out"
  using assms
proof (induction out arbitrary: ts r y)
  case (Cons e out)
  define env where "env = fst (publish (ts 0) (fst e) (snd e) None None None (y_hub y))"
  define h1 where "h1 = snd (publish (ts 0) (fst e) (snd e) None None None (y_hub y))"
  define r1 where "r1 = put_hub tid h1 (snd (hub_of tid r))"
  define y1 where "y1 = y\<lparr>y_hub := h1, y_log := y_log y @ [env]\<rparr>"
  have h: "fst (hub_of tid r) = y_hub y" using Cons.prems by (simp add: hub_at_def)
  have "publish_all ts tid (e # out) r = publish_all (\<lambda>k. ts (Suc k)) tid out r1"
    by (simp add: r1_def h1_def case_prod_beta h)
  moreover have "stream_run y (publishing ts (e # out)) = stream_run y1 (publishing (\<lambda>k. ts (Suc k)) out)"
    by (simp add: y1_def env_def h1_def case_prod_beta)
  moreover have "hub_at r1 tid = y_hub y1" by (simp add: r1_def y1_def)
  moreover have "emission env = e" by (simp add: env_def emission_def publish_envelope)
  ultimately show ?case using Cons.IH [of r1 y1 "\<lambda>k. ts (Suc k)"] by (simp add: y1_def)
qed simp

lemma mirrors_quiet:
  assumes "mirrors S tid y" and "quietly mtd (z_server S) (z_server S')"
    and "z_conns S' = z_conns S" "z_trace S' = z_trace S"
  shows "mirrors S' tid y"
proof -
  have "m_hubs (v_manager (z_server S')) = m_hubs (v_manager (z_server S))"
    using assms(2) quiet_hubs unfolding quietly_def by metis
  with assms show ?thesis by (simp add: mirrors_def serving_hub_def)
qed

text \<open>The steps, one by one.\<close>

lemma mirrors_run:
  assumes "mirrors S tid y" and bg: "background ev"
  shows "\<exists>fs. mirrors (serve_step mtd ops S (Handle (Background ev))) tid (stream_run y fs)"
proof -
  let ?m = "v_manager (z_server S)"
  have same: ?thesis if "emits mtd ?m ev tid = []" "hub_at (m_hubs (run_step mtd ?m ev)) tid = hub_at (m_hubs ?m) tid"
    using assms(1) that by (intro exI [of _ "[]"]) (simp add: mirrors_def serving_hub_def bg)
  show ?thesis
  proof (cases "\<exists>j ts t. ev = TaskStep j ts \<and> m_tasks ?m j = Some t")
    case False
    then show ?thesis
      by (intro same) (auto simp: emits_def run_step_hubs split: run_event.split option.split)
  next
    case True
    then obtain j ts t where ev: "ev = TaskStep j ts" "m_tasks ?m j = Some t" by blast
    let ?out = "fst (exec_step mtd t)"
    have hubs: "m_hubs (run_step mtd ?m ev) = publish_all ts (t_thread t) ?out (m_hubs ?m)"
      by (subst run_step_hubs) (simp add: ev)
    show ?thesis
    proof (cases "t_thread t = tid")
      case False
      then have "hub_at (m_hubs (run_step mtd ?m ev)) tid = hub_at (m_hubs ?m) tid"
        using publish_all_hub [of ?out "m_hubs ?m" "t_thread t" ts] by (simp add: hubs)
      moreover have "emits mtd ?m ev tid = []" using False by (simp add: emits_def ev)
      ultimately show ?thesis by (intro same)
    next
      case True
      have "hub_at (m_hubs ?m) tid = y_hub y" using assms by (simp add: mirrors_def serving_hub_def)
      from publish_all_streams [OF this, of ts ?out] assms
      have "hub_at (m_hubs (run_step mtd ?m ev)) tid = y_hub (stream_run y (publishing ts ?out))"
        "y_conns (stream_run y (publishing ts ?out)) = z_conns S tid"
        "map emission (y_log (stream_run y (publishing ts ?out))) = z_trace S tid @ ?out"
        using True by (simp_all add: hubs mirrors_def)
      moreover have "emits mtd ?m ev tid = ?out" using True by (simp add: emits_def ev)
      ultimately show ?thesis
        by (intro exI [of _ "publishing ts ?out"]) (simp add: mirrors_def serving_hub_def bg)
    qed
  qed
qed

lemma mirrors_open:
  assumes "mirrors S tid y"
  shows "\<exists>fs. mirrors (serve_step mtd ops S (OpenStream k b)) tid (stream_run y fs)"
proof -
  let ?S = "open_conn ops k b S"
  obtain cs nss since where params: "stream_params (body_dict b) = (cs, nss, since)" by (cases "stream_params (body_dict b)")
  define hubs where "hubs = m_hubs (v_manager (z_server S))"
  obtain h r where hr: "hub_of k hubs = (h, r)" by fastforce
  have h: "h = serving_hub S k" "hub_at r j = serving_hub S j" for j
    using hub_at_of [of k hubs j] by (simp_all add: serving_hub_def hub_at_def hr flip: hubs_def)
  have same: ?thesis if "\<And>j. serving_hub ?S j = serving_hub S j" "z_conns ?S = z_conns S" "z_trace ?S = z_trace S"
    using assms that by (intro exI [of _ "[]"]) (simp add: mirrors_def)
  show ?thesis
  proof (cases "\<exists>rec i h'. so_get ops k (v_store (z_server S)) = Inr (Some rec) \<and> subscribe cs nss since h = Inr (i, h')")
    case True
    then obtain rec i h' where new: "so_get ops k (v_store (z_server S)) = Inr (Some rec)"
      "subscribe cs nss since h = Inr (i, h')" by blast
    then have S: "?S = set_conn k i \<lparr>c_phase = GStart, c_since = since, c_out = []\<rparr>
        (set_server ((z_server S)\<lparr>v_manager := (v_manager (z_server S))\<lparr>m_hubs := put_hub k h' r\<rparr>\<rparr>) S)"
      by (simp add: open_conn_def open_stream_def params hr flip: hubs_def)
    then have hub: "serving_hub ?S j = (if j = k then h' else serving_hub S j)" for j
      using h(2) by (simp add: serving_hub_def)
    show ?thesis
    proof (cases "k = tid")
      case True
      with S hub new assms h(1) show ?thesis
        by (intro exI [of _ "[Open cs nss since]"]) (simp add: mirrors_def)
    next
      case False
      with S hub assms show ?thesis by (intro exI [of _ "[]"]) (simp add: mirrors_def)
    qed
  next
    case False
    then have "?S = set_server (z_server S) S \<or>
        ?S = set_server ((z_server S)\<lparr>v_manager := (v_manager (z_server S))\<lparr>m_hubs := r\<rparr>\<rparr>) S"
      by (auto simp: open_conn_def open_stream_def params hr simp flip: hubs_def split: sum.split option.split)
    then show ?thesis using h(2) by (intro same) (auto simp: serving_hub_def)
  qed
qed

text \<open>Steps of connections, on this thread and on others.\<close>

lemma mirrors_conn:
  assumes m: "mirrors S tid y"
  shows "mirrors (serve_step mtd ops S (ResumeStream k i)) tid (if k = tid then stream_step y (Resume i) else y)"
    and "mirrors (serve_step mtd ops S (TimeoutStream k i)) tid (if k = tid then stream_step y (Timeout i) else y)"
    and "mirrors (serve_step mtd ops S (CloseStream k i)) tid (if k = tid then stream_step y (Close i) else y)"
  using m by (auto simp: mirrors_def split: option.split prod.split)

lemma mirrors_handle:
  assumes m: "mirrors S tid y"
  shows "\<exists>fs. mirrors (serve_step mtd ops S (Handle e)) tid (stream_run y fs)"
proof (cases "\<exists>e'. e = Background e'")
  case False
  with handle_quiet [of e mtd "z_handling S" ops] show ?thesis
    by (intro exI [of _ "[]"]) (auto intro!: mirrors_quiet [OF m] split: handling_event.split)
next
  case True
  then obtain e' where e: "e = Background e'" by blast
  show ?thesis
  proof (cases "background e'")
    case True
    with mirrors_run [OF m True] e show ?thesis by blast
  next
    case False
    with e m show ?thesis by (intro exI [of _ "[]"]) (simp add: mirrors_def serving_hub_def)
  qed
qed

lemma mirrors_step:
  assumes m: "mirrors S tid y"
  shows "\<exists>fs. mirrors (serve_step mtd ops S ev) tid (stream_run y fs)"
proof -
  have stay: ?thesis if "mirrors (serve_step mtd ops S ev) tid y"
    using that by (intro exI [of _ "[]"]) simp
  have one: ?thesis if "mirrors (serve_step mtd ops S ev) tid (if b then stream_step y f else y)" for b f
    using that by (intro exI [of _ "if b then [f] else []"]) (simp split: if_splits)
  show ?thesis
  proof (cases ev)
    case (CreateThread now raw ms b)
    with create_thread_quiet show ?thesis by (intro stay mirrors_quiet [OF m]) simp_all
  next
    case (CancelRun k rid)
    with cancel_run_quiet show ?thesis by (intro stay mirrors_quiet [OF m]) simp_all
  next
    case (Handle e)
    with mirrors_handle [OF m] show ?thesis by (simp only:)
  next
    case (OpenStream k b)
    with mirrors_open [OF m] show ?thesis by (simp only:)
  next
    case (ResumeStream k i)
    show ?thesis unfolding ResumeStream by (rule one [unfolded ResumeStream, OF mirrors_conn(1) [OF m]])
  next
    case (TimeoutStream k i)
    show ?thesis unfolding TimeoutStream by (rule one [unfolded TimeoutStream, OF mirrors_conn(2) [OF m]])
  next
    case (CloseStream k i)
    show ?thesis unfolding CloseStream by (rule one [unfolded CloseStream, OF mirrors_conn(3) [OF m]])
  qed
qed

interpretation threads: event_simulation "serve_step mtd ops" stream_step "\<lambda>S. mirrors S tid" for mtd ops tid
  by unfold_locales (rule mirrors_step)

section \<open>The manager as a run system\<close>

text \<open>A manager without its hubs.\<close>

definition core :: "manager \<Rightarrow> manager" where
  "core m = m\<lparr>m_hubs := new_hub_registry 0\<rparr>"

lemma core_eqD:
  "core m = core m' \<Longrightarrow> m_registry m = m_registry m' \<and> m_active m = m_active m' \<and> m_pending m = m_pending m' \<and>
     m_last m = m_last m' \<and> m_starts m = m_starts m' \<and> m_tasks m = m_tasks m' \<and> m_next m = m_next m'"
  by (cases m; cases m') (simp add: core_def)

lemma core_eq_frame:
  assumes "core m = core m'"
  shows "busy_run m tid = busy_run m' tid \<and> occupants m tid = occupants m' tid"
  using core_eqD [OF assms]
  by (simp add: busy_run_def task_done_def occupants_def cong: option.case_cong owner.case_cong)

lemma core_hubs [simp]: "core (m\<lparr>m_hubs := h\<rparr>) = core m"
  by (simp add: core_def)

text \<open>No step but a publication looks at the hubs or changes them.\<close>

lemma hubs_frame [simp]:
  "task_done (m\<lparr>m_hubs := h\<rparr>) j = task_done m j"
  "busy_run (m\<lparr>m_hubs := h\<rparr>) tid = busy_run m tid"
  "owned_by (m\<lparr>m_hubs := h\<rparr>) tid w = owned_by m tid w"
  "respond_assistant tid iid aid (m\<lparr>m_hubs := h\<rparr>) = respond_assistant tid iid aid m"
  by (simp_all add: task_done_def busy_run_def owned_by_def respond_assistant_def
      cong: option.case_cong owner.case_cong)

lemma start_finish_hubs:
  "snd (start_finish i p (m\<lparr>m_hubs := h\<rparr>)) = (snd (start_finish i p m))\<lparr>m_hubs := h\<rparr>"
proof (cases "p_outcome p")
  case (Inl e)
  then show ?thesis by (simp add: start_finish_def Let_def)
next
  case (Inr g)
  then show ?thesis
    by (cases "run_config (p_thread p) (p_config p) (p_metadata p)") (simp_all add: start_finish_def Let_def)
qed

lemma start_call_hubs:
  "run_step mtd (m\<lparr>m_hubs := h\<rparr>) (StartCall tid aid inp config metadata rid)
     = (run_step mtd m (StartCall tid aid inp config metadata rid))\<lparr>m_hubs := h\<rparr>"
  by (cases "busy_run m tid") (simp_all add: start_reserve_def Let_def)

lemma core_step_hubs: "core (run_step mtd (m\<lparr>m_hubs := h\<rparr>) ev) = core (run_step mtd m ev)"
proof (cases ev)
  case (StartCall tid aid inp config metadata rid)
  then show ?thesis by (simp only: start_call_hubs core_hubs)
next
  case (RespondCall tid iid response aid rid)
  show ?thesis
  proof (cases "respond_assistant tid iid aid m")
    case (Inl e)
    with RespondCall show ?thesis by (simp add: respond_reserve_def)
  next
    case (Inr a)
    then have "run_step mtd m' ev = run_step mtd m' (StartCall tid a (CommandResume response) None PNone rid)"
      if "m' = m \<or> m' = m\<lparr>m_hubs := h\<rparr>" for m'
      using that RespondCall by (auto simp: respond_reserve_def)
    then show ?thesis by (simp only: start_call_hubs core_hubs simp_thms)
  qed
next
  case (StartDone i)
  then show ?thesis by (cases "m_starts m i") (simp_all add: start_finish_hubs)
next
  case (StartCancelled i)
  then show ?thesis by (simp add: start_cancelled_def core_def)
next
  case (TaskStep j ts)
  show ?thesis
  proof (cases "m_tasks m j")
    case (Some t)
    obtain out pd t' where "exec_step mtd t = (out, pd, t')" by (metis prod_cases3)
    with TaskStep Some show ?thesis by (cases pd) (simp_all add: task_step_def core_def)
  qed (simp add: TaskStep task_step_def)
next
  case (TaskCallback j)
  show ?thesis
  proof (cases "m_tasks m j")
    case (Some t)
    with TaskCallback show ?thesis by (simp add: task_callback_def core_def)
  qed (simp add: TaskCallback task_callback_def)
next
  case (CancelCall tid rid)
  show ?thesis
  proof (cases "m_active m tid")
    case (Some a)
    with CancelCall show ?thesis by (cases "a_owner a") (simp_all add: cancel_def core_def)
  qed (simp add: CancelCall cancel_def)
next
  case (RegisterCall aid f)
  then show ?thesis by (simp add: core_def)
qed

lemma core_step:
  assumes "core m = core m'"
  shows "core (run_step mtd m ev) = core (run_step mtd m' ev)"
proof -
  obtain h where "m' = m\<lparr>m_hubs := h\<rparr>"
  proof
    show "m' = m\<lparr>m_hubs := m_hubs m'\<rparr>" using core_eqD [OF assms] by (intro manager.equality) simp_all
  qed
  then show ?thesis using core_step_hubs [where mtd = mtd and m = m and h = h and ev = ev] by (simp only:)
qed

lemma core_run: "core m = core m' \<Longrightarrow> core (runs_from mtd m evs) = core (runs_from mtd m' evs)"
proof (induction evs arbitrary: m m')
  case (Cons ev evs)
  from Cons.IH [OF core_step [OF Cons.prems, of mtd ev]] show ?case by simp
qed simp

lemma traced_core:
  assumes "core m = core m'"
  shows "core (fst (foldl (traced_run_step mtd) (m, tr) evs)) = core (fst (foldl (traced_run_step mtd) (m', tr) evs)) \<and>
     snd (foldl (traced_run_step mtd) (m, tr) evs) = snd (foldl (traced_run_step mtd) (m', tr) evs)"
  using assms
proof (induction evs arbitrary: m m' tr)
  case (Cons ev evs)
  have "emits mtd m ev = emits mtd m' ev"
    using core_eqD [OF Cons.prems] by (auto simp: emits_def fun_eq_iff cong: run_event.case_cong)
  with Cons.IH [OF core_step [OF Cons.prems, of mtd ev]] show ?case by (simp add: traced_run_step_def)
qed simp

lemma quiet_emits: "list_all quiet evs \<Longrightarrow> snd (foldl (traced_run_step mtd) (m, tr) evs) = tr"
  by (induction evs arbitrary: m)
     (auto simp: traced_run_step_def emits_def quiet_def split: run_event.splits)

text \<open>Every step of the server is finitely many steps of the traced run system.\<close>

definition manages :: "'s serving \<Rightarrow> manager \<times> run_trace \<Rightarrow> bool" where
  "manages S x = (core (v_manager (z_server S)) = core (fst x) \<and> z_trace S = snd x)"

text \<open>The steps of tasks in an event, which are the only ones that are not quiet.\<close>

definition loud :: "serving_event \<Rightarrow> run_event list" where
  "loud ev = (case ev of Handle (Background e) \<Rightarrow> if quiet e then [] else [e] | _ \<Rightarrow> [])"

definition not_quiet :: "run_event list \<Rightarrow> run_event list" where
  "not_quiet evs = filter (\<lambda>e. \<not> quiet e) evs"

lemma not_quiet_none: "list_all quiet evs \<Longrightarrow> not_quiet evs = []"
  by (auto simp: not_quiet_def filter_empty_conv list_all_iff)

lemma manages_quiet:
  assumes "manages S x" and "quietly mtd (z_server S) (z_server S')" and "z_trace S' = z_trace S"
  shows "\<exists>evs. manages S' (foldl (traced_run_step mtd) x evs) \<and> not_quiet evs = []"
proof -
  let ?m = "v_manager (z_server S)"
  from assms(2) obtain evs where evs: "list_all quiet evs" "v_manager (z_server S') = runs_from mtd ?m evs"
    unfolding quietly_def by blast
  have x: "x = (fst x, z_trace S)" "core ?m = core (fst x)"
    using assms(1) by (simp_all add: manages_def prod_eq_iff)
  have "core (v_manager (z_server S')) = core (fst (foldl (traced_run_step mtd) x evs))"
    using core_run [OF x(2), of mtd evs] by (simp add: evs(2) traced_run_fst)
  moreover have "snd (foldl (traced_run_step mtd) x evs) = z_trace S"
    using quiet_emits [OF evs(1), of mtd "fst x" "z_trace S"] x(1) by simp
  ultimately show ?thesis using assms(3) not_quiet_none [OF evs(1)]
    by (intro exI [of _ evs]) (simp add: manages_def)
qed

lemma core_conns [simp]:
  "core (v_manager (z_server (set_conn tid i c S))) = core (v_manager (z_server S))"
  "core (v_manager (z_server (step_conn tid i h c S))) = core (v_manager (z_server S))"
  by (simp_all add: step_conn_def Let_def)

lemma core_open_conn [simp]:
  "core (v_manager (z_server (open_conn ops tid b S))) = core (v_manager (z_server S))"
  "z_trace (open_conn ops tid b S) = z_trace S"
proof -
  have "core (v_manager sv) = core (v_manager (z_server S))" if "open_stream ops tid b (z_server S) = (r, sv)" for r sv
    using that by (auto simp: open_stream_def Let_def split: sum.splits option.splits prod.splits)
  then show "core (v_manager (z_server (open_conn ops tid b S))) = core (v_manager (z_server S))"
    by (auto simp: open_conn_def split: prod.split sum.split)
qed (simp add: open_conn_def split: prod.split sum.split)

text \<open>A step that leaves the core of the manager, and one that makes quiet events.\<close>

lemma manages_stay:
  "manages S x \<Longrightarrow> core (v_manager (z_server S')) = core (v_manager (z_server S)) \<Longrightarrow> z_trace S' = z_trace S \<Longrightarrow>
   \<exists>evs. manages S' (foldl (traced_run_step mtd) x evs) \<and> not_quiet evs = []"
  by (intro exI [of _ "[]"]) (simp add: manages_def not_quiet_def)

lemma manages_background:
  assumes m: "manages S x" and bg: "background e"
  shows "manages (serve_step mtd ops S (Handle (Background e))) (traced_run_step mtd x e)"
proof -
  have x: "x = (fst x, z_trace S)" "core (v_manager (z_server S)) = core (fst x)"
    using m by (simp_all add: manages_def prod_eq_iff)
  show ?thesis
    using traced_core [OF x(2), of mtd "z_trace S" "[e]"] x(1) bg
    by (simp add: manages_def traced_run_step_def Let_def del: run_step.simps)
qed

lemma manages_handle:
  assumes m: "manages S x"
  shows "\<exists>evs. manages (serve_step mtd ops S (Handle e)) (foldl (traced_run_step mtd) x evs) \<and>
     not_quiet evs = loud (Handle e)"
proof (cases "\<exists>e'. e = Background e'")
  case False
  then have "loud (Handle e) = []" "z_trace (serve_step mtd ops S (Handle e)) = z_trace S"
    by (auto simp: loud_def split: handling_event.split)
  with False handle_quiet [of e mtd "z_handling S" ops] manages_quiet [OF m, of mtd "serve_step mtd ops S (Handle e)"]
  show ?thesis by simp
next
  case True
  then obtain e' where e: "e = Background e'" by blast
  show ?thesis
  proof (cases "background e'")
    case True
    with manages_background [OF m True, of mtd ops] show ?thesis
      by (intro exI [of _ "[e']"]) (simp add: e loud_def not_quiet_def del: serve_step.simps)
  next
    case False
    moreover from False have "quiet e'" by (cases e') (simp_all add: background_def quiet_def)
    ultimately show ?thesis
      using manages_stay [OF m, of "serve_step mtd ops S (Handle e)" mtd] by (simp add: e loud_def)
  qed
qed

lemma manages_step:
  assumes m: "manages S x"
  shows "\<exists>evs. manages (serve_step mtd ops S ev) (foldl (traced_run_step mtd) x evs) \<and> not_quiet evs = loud ev"
proof -
  have stay: ?thesis if "core (v_manager (z_server (serve_step mtd ops S ev))) = core (v_manager (z_server S))"
    "z_trace (serve_step mtd ops S ev) = z_trace S" "loud ev = []"
    using manages_stay [OF m that(1,2), of mtd] that(3) by simp
  have quiet: ?thesis if "quietly mtd (z_server S) (z_server (serve_step mtd ops S ev))"
    "z_trace (serve_step mtd ops S ev) = z_trace S" "loud ev = []"
    using manages_quiet [OF m that(1,2)] that(3) by simp
  show ?thesis
  proof (cases ev)
    case (Handle e)
    with manages_handle [OF m] show ?thesis by (simp only:)
  next
    case (CreateThread now raw ms b)
    with create_thread_quiet show ?thesis by (intro quiet) (simp_all add: loud_def)
  next
    case (CancelRun k rid)
    with cancel_run_quiet show ?thesis by (intro quiet) (simp_all add: loud_def)
  next
    case (OpenStream k b)
    then show ?thesis by (intro stay) (simp_all add: loud_def)
  next
    case (ResumeStream k i)
    then show ?thesis by (intro stay) (simp_all add: loud_def split: option.split prod.split)
  next
    case (TimeoutStream k i)
    then show ?thesis by (intro stay) (simp_all add: loud_def split: option.split)
  next
    case (CloseStream k i)
    then show ?thesis by (intro stay) (simp_all add: loud_def split: option.split prod.split)
  qed
qed

lemma manages_run:
  "manages S x \<Longrightarrow> \<exists>evs. manages (serve_run mtd ops S sevs) (foldl (traced_run_step mtd) x evs) \<and>
     not_quiet evs = concat (map loud sevs)"
proof (induction sevs arbitrary: S x)
  case (Cons ev sevs)
  from manages_step [OF Cons.prems, of mtd ops ev] obtain es where
    es: "manages (serve_step mtd ops S ev) (foldl (traced_run_step mtd) x es)" "not_quiet es = loud ev"
    by (elim exE conjE)
  from Cons.IH [OF es(1)] obtain evs where
    "manages (serve_run mtd ops (serve_step mtd ops S ev) sevs) (foldl (traced_run_step mtd) x (es @ evs))"
    "not_quiet evs = concat (map loud sevs)" by (simp only: foldl_append) (elim exE conjE)
  then show ?case using es(2) by (intro exI [of _ "es @ evs"]) (simp add: not_quiet_def)
qed (auto intro: exI [of _ "[]"] simp: not_quiet_def)

interpretation managers: event_simulation "serve_step mtd ops" "traced_run_step mtd" manages for mtd ops
  by unfold_locales (use manages_step in blast)

section \<open>Properties\<close>

definition served ::
  "(pyval \<Rightarrow> exn + pyval) \<Rightarrow> 's store_ops \<Rightarrow> run_graph registry option \<Rightarrow> 's \<Rightarrow> nat \<Rightarrow> serving_event list \<Rightarrow> 's serving" where
  "served mtd ops agents st n evs =
     serve_run mtd ops (start_serving (create_protocol agents (Some st) st (Some n) None)) evs"

lemma start_mirrors: "mirrors (start_serving (create_protocol agents (Some st) st (Some n) None)) tid (new_sys n)"
  by (simp add: mirrors_def start_serving_def create_protocol_def serving_hub_def new_manager_def hub_at_def
      hub_of_def new_hub_registry_def new_sys_def Let_def)

lemma served_mirrors: "\<exists>fs. mirrors (served mtd ops agents st n evs) tid (stream_run (new_sys n) fs)"
  unfolding served_def by (rule threads.simulated_run [OF start_mirrors])

definition traced_reached ::
  "(pyval \<Rightarrow> exn + pyval) \<Rightarrow> run_graph registry \<Rightarrow> nat \<Rightarrow> run_event list \<Rightarrow> manager \<times> run_trace" where
  "traced_reached mtd reg n evs = foldl (traced_run_step mtd) (new_manager reg n, \<lambda>_. []) evs"

lemma served_manages:
  "\<exists>res. manages (served mtd ops agents st n evs) (traced_reached mtd (new_registry agents) n res)"
  unfolding served_def traced_reached_def
  by (rule managers.simulated_run) (simp add: manages_def start_serving_def create_protocol_def)

lemma traced_reached_inv: "serial_inv (traced_reached mtd reg n evs)"
  unfolding traced_reached_def by (rule traced_runs.inv_run [OF serial_inv_new])

lemma traced_reached_fst: "fst (traced_reached mtd reg n evs) = reached mtd reg n evs"
  by (simp add: traced_reached_def reached_def traced_run_fst)

lemma traced_reached_history: "history_inv mtd (traced_reached mtd reg n evs)"
  unfolding traced_reached_def by (rule histories.inv_run [OF history_inv_new])

lemma tracks_core:
  assumes "core m = core m'"
  shows "tracks m tid xs = tracks m' tid xs"
  by (rule tracks_same [OF acting_tasks]) (use core_eqD [OF assms] in simp)

lemma served_history:
  "\<exists>xs. thread_history mtd tid xs \<and> z_trace (served mtd ops agents st n evs) tid = concat (map x_trace xs) \<and>
     tracks (v_manager (z_server (served mtd ops agents st n evs))) tid xs"
proof -
  obtain res where m: "manages (served mtd ops agents st n evs) (traced_reached mtd (new_registry agents) n res)"
    using served_manages [of mtd ops agents st n evs] by (elim exE)
  let ?x = "traced_reached mtd (new_registry agents) n res"
  have "history_inv mtd ?x" by (rule traced_reached_history)
  then obtain xs where xs: "thread_history mtd tid xs" "snd ?x tid = concat (map x_trace xs)" "tracks (fst ?x) tid xs"
    unfolding history_inv_def thread_ok_def by blast
  have c: "core (v_manager (z_server (served mtd ops agents st n evs))) = core (fst ?x)"
    and z: "z_trace (served mtd ops agents st n evs) = snd ?x" using m by (simp_all add: manages_def)
  show ?thesis unfolding tracks_core [OF c] z using xs by (intro exI [of _ xs]) simp
qed

lemma served_hub:
  "map emission (h_buffer (serving_hub (served mtd ops agents st n evs) tid))
     = last_n n (z_trace (served mtd ops agents st n evs) tid) \<and>
   h_seq (serving_hub (served mtd ops agents st n evs) tid) = int (length (z_trace (served mtd ops agents st n evs) tid))"
proof -
  obtain fs where m: "mirrors (served mtd ops agents st n evs) tid (stream_run (new_sys n) fs)"
    using served_mirrors [of mtd ops agents st n evs tid] by (elim exE)
  let ?y = "stream_run (new_sys n) fs"
  have "hub_log (y_log ?y) (y_hub ?y)" using stream_reached_inv [of n fs] by (simp add: sys_inv_def)
  moreover have "h_replay_size (y_hub ?y) = n" by (simp add: new_sys_def new_hub_def)
  ultimately show ?thesis using m by (simp add: mirrors_def hub_log_def last_n_def drop_map)
qed

text \<open>What a subscription's channels let through of the emissions of a run.\<close>

definition channel_wanted :: "subscription \<Rightarrow> emission \<Rightarrow> bool" where
  "channel_wanted s e =
     (case s_channels s of
        None \<Rightarrow> True
      | Some cs \<Rightarrow> cs = [] \<or> PStr (channel_for_method (fst e)) \<in> set cs)"

lemma emissions_wanted:
  assumes "numbered log" and "s_namespaces s = []"
  shows "map emission (wanted None s log) = filter (channel_wanted s) (map emission log)"
proof -
  have "in_filter None s e \<longleftrightarrow> channel_wanted s (emission e)" if "e \<in> set log" for e
    using numbered_bounds [OF assms(1) that] assms(2)
    by (auto simp: in_filter_def since_cursor_def channel_ok_def namespace_ok_def channel_wanted_def
        emission_def split: option.split)
  then show ?thesis by (auto simp: wanted_def filter_map comp_def cong: filter_cong)
qed

lemma length_log: "length (y_log (stream_run y fs)) = length (y_log y) + publications fs"
proof (induction fs arbitrary: y)
  case (Cons f fs)
  have "length (y_log (stream_run (stream_step y f) fs)) = length (y_log y) + publications [f] + publications fs"
    using Cons.IH [of "stream_step y f"] by (simp only: step_log)
  then show ?case by (simp only: publications_Cons [of f fs] foldl_Cons)
qed simp

lemma client_reads_law:
  assumes "z_conns (served mtd ops agents st n evs) tid i = Some c"
    and "h_subs (serving_hub (served mtd ops agents st n evs) tid) i = Some s"
    and "s_namespaces s = []" and "c_since c = None" and "c_phase c = GLive" and "s_queue s = []"
    and "length (z_trace (served mtd ops agents st n evs) tid) \<le> min n MAX_QUEUE"
  shows "map emission (events_of (c_out c))
       = filter (channel_wanted s) (z_trace (served mtd ops agents st n evs) tid)"
proof -
  obtain fs where m: "mirrors (served mtd ops agents st n evs) tid (stream_run (new_sys n) fs)"
    using served_mirrors [of mtd ops agents st n evs tid] by (elim exE)
  let ?y = "stream_run (new_sys n) fs"
  have y: "y_conns ?y i = Some c" "h_subs (y_hub ?y) i = Some s"
    "z_trace (served mtd ops agents st n evs) tid = map emission (y_log ?y)"
    using m assms(1,2) by (simp_all add: mirrors_def)
  then have "publications fs \<le> min n MAX_QUEUE"
    using assms(7) length_log [of "new_sys n" fs] by (simp add: new_sys_def)
  then have "lossless i (new_sys n) fs"
    by (intro bounded_lossless sys_inv_new) (simp_all add: new_sys_def new_hub_def)
  from reached_exact [OF this y(1,2)] assms(4-6)
  have "events_of (c_out c) = wanted None s (y_log ?y)" by (simp add: delivered_def pending_def)
  moreover have "numbered (y_log ?y)" using stream_reached_inv [of n fs] by (simp add: sys_inv_def hub_log_def)
  ultimately show ?thesis using emissions_wanted assms(3) y(3) by simp
qed

definition demo_serving :: "serving_event list" where
  "demo_serving =
     [OpenStream ''t'' (Inl (ValueError [])), ResumeStream ''t'' 0, Handle (Arrive ''r1'' ''t'' start_body),
      Handle (Proceed 0 ''now'' ''r2''), Handle (Background (TaskStep 1 int)), ResumeStream ''t'' 0,
      ResumeStream ''t'' 0, ResumeStream ''t'' 0]"

definition demo_served :: "memory_store serving" where
  "demo_served = served plain_message demo_ops (Some demo_registry) demo_threads 500 demo_serving"

lemma demo_served_state:
  "case (z_conns demo_served ''t'' 0, h_subs (serving_hub demo_served ''t'') 0, m_tasks (v_manager (z_server demo_served)) 1) of
     (Some c, Some s, Some t) \<Rightarrow>
       c_since c = None \<and> c_phase c = GLive \<and> s_namespaces s = [] \<and> s_channels s = None \<and> s_queue s = [] \<and>
       budget t = 3 \<and>
       z_trace demo_served ''t'' = [lifecycle (PStr ''a'') ''started'' [], lifecycle (PStr ''a'') ''running'' []]
   | _ \<Rightarrow> False"
  by code_simp

lemma demo_served_trace:
  "z_trace demo_served ''t'' = [lifecycle (PStr ''a'') ''started'' [], lifecycle (PStr ''a'') ''running'' []]"
  using demo_served_state by (auto split: option.splits)

lemma demo_served_conn:
  "\<exists>c s. z_conns demo_served ''t'' 0 = Some c \<and> h_subs (serving_hub demo_served ''t'') 0 = Some s \<and>
     s_namespaces s = [] \<and> s_channels s = None \<and> c_since c = None \<and> c_phase c = GLive \<and> s_queue s = []"
  using demo_served_state by (auto split: option.splits)

lemma demo_served_task: "\<exists>t. m_tasks (v_manager (z_server demo_served)) 1 = Some t \<and> budget t = 3"
  using demo_served_state by (auto split: option.splits)

text \<open>C6: the server refines its parts. Whatever requests, runs and connections do, each thread of the
  server, with its hub, its connections and what was published on it, is a state the stream system
  of \<open>Streams\<close> reaches, and the manager, apart from its hubs, is a state the run system of \<open>Runner\<close>
  reaches.\<close>

theorem server_refines_parts:
  "(\<exists>fs. mirrors (served mtd ops agents st n evs) tid (stream_run (new_sys n) fs)) \<and>
   (\<exists>res. core (v_manager (z_server (served mtd ops agents st n evs)))
            = core (reached mtd (new_registry agents) n res))"
  using served_mirrors [of mtd ops agents st n evs tid] served_manages [of mtd ops agents st n evs]
  by (auto simp: manages_def traced_reached_fst)

text \<open>C13: every run ends. Whatever requests, clients that disconnect, cancellations, other runs and
  connections do around it, a run that has been given as many steps as its budget, at whatever
  times, is over: it cannot act on its thread any more, and whatever a later start is refused for,
  it is not this run.\<close>

theorem served_run_ends:
  assumes "m_tasks (v_manager (z_server (served mtd ops agents st n before))) j = Some t"
    and "budget t \<le> task_steps j (concat (map loud after))"
  shows "\<exists>t'. m_tasks (v_manager (z_server (served mtd ops agents st n (before @ after)))) j = Some t' \<and>
     t_run_id t' = t_run_id t \<and> t_thread t' = t_thread t \<and> t_stage t' = Settled \<and>
     Running j \<notin> occupants (v_manager (z_server (served mtd ops agents st n (before @ after)))) (t_thread t) \<and>
     (\<forall>a. busy_run (v_manager (z_server (served mtd ops agents st n (before @ after)))) (t_thread t) = Some a \<longrightarrow>
        a_owner a \<noteq> Running j)"
proof -
  let ?S = "served mtd ops agents st n before" and ?S' = "served mtd ops agents st n (before @ after)"
  obtain res where m: "manages ?S (traced_reached mtd (new_registry agents) n res)"
    using served_manages [of mtd ops agents st n before] by (elim exE)
  from manages_run [OF this, of mtd ops after] obtain es where
    es: "manages ?S' (foldl (traced_run_step mtd) (traced_reached mtd (new_registry agents) n res) es)"
    "not_quiet es = concat (map loud after)" by (auto simp: served_def)
  let ?m = "reached mtd (new_registry agents) n res"
  have c: "core (v_manager (z_server ?S)) = core ?m" "core (v_manager (z_server ?S')) = core (runs_from mtd ?m es)"
    using m es(1) by (simp_all add: manages_def traced_reached_fst traced_run_fst)
  have "task_steps j es = task_steps j (concat (map loud after))"
    unfolding es(2) [symmetric] by (auto simp: task_steps_def not_quiet_def steps_task_def quiet_def
        intro!: arg_cong [of _ _ length] filter_cong split: run_event.splits)
  with assms(2) have "budget t \<le> task_steps j es" by simp
  moreover have "m_tasks ?m j = Some t" using assms(1) core_eqD [OF c(1)] by simp
  ultimately have "\<exists>t'. m_tasks (runs_from mtd ?m es) j = Some t' \<and> t_thread t' = t_thread t \<and> t_run_id t' = t_run_id t \<and>
     t_stage t' = Settled \<and> Running j \<notin> occupants (runs_from mtd ?m es) (t_thread t) \<and>
     (\<forall>a. busy_run (runs_from mtd ?m es) (t_thread t) = Some a \<longrightarrow> a_owner a \<noteq> Running j)"
    by (intro run_over [OF reached_inv])
  with core_eqD [OF c(2)] core_eq_frame [OF c(2), of "t_thread t"] show ?thesis by auto
qed

definition demo_rest :: "serving_event list" where
  "demo_rest =
     [Handle (Background (TaskStep 1 int)), CancelRun ''t'' ''other'', Handle (Arrive ''r3'' ''t'' start_body),
      Handle (Background (TaskStep 1 int)), CloseStream ''t'' 0, Handle (Background (TaskStep 1 int)),
      Handle (Background (TaskStep 1 int))]"

theorem served_run_ends_witness:
  "\<exists>t'. m_tasks (v_manager (z_server (served plain_message demo_ops (Some demo_registry) demo_threads 500
        (demo_serving @ demo_rest)))) 1 = Some t' \<and> t_stage t' = Settled"
proof -
  obtain t where t: "m_tasks (v_manager (z_server demo_served)) 1 = Some t" "budget t = 3"
    using demo_served_task by blast
  have "budget t \<le> task_steps 1 (concat (map loud demo_rest))"
    by (simp add: t(2) demo_rest_def loud_def quiet_def task_steps_def steps_task_def)
  from served_run_ends [OF t(1) [unfolded demo_served_def] this] show ?thesis by blast
qed

text \<open>C9: a thread is the list of its runs. Whatever requests, disconnecting clients, runs and connections
  do, there are runs of \<open>RunTask\<close>, of which only the last moves and a new one begins only when all
  before it are settled, such that the task that can act on the thread is the last of them, and
  what was published on the thread, its hub's counter and replay buffer included, is what they
  publish, one after the other.\<close>

theorem thread_refines_runs:
  "\<exists>xs. thread_history mtd tid xs \<and> tracks (v_manager (z_server (served mtd ops agents st n evs))) tid xs \<and>
     z_trace (served mtd ops agents st n evs) tid = concat (map x_trace xs) \<and>
     map emission (h_buffer (serving_hub (served mtd ops agents st n evs) tid)) = last_n n (concat (map x_trace xs)) \<and>
     h_seq (serving_hub (served mtd ops agents st n evs) tid) = int (length (concat (map x_trace xs)))"
proof -
  obtain xs where xs: "thread_history mtd tid xs" "z_trace (served mtd ops agents st n evs) tid = concat (map x_trace xs)"
    "tracks (v_manager (z_server (served mtd ops agents st n evs))) tid xs"
    using served_history [of mtd tid ops agents st n evs] by (elim exE conjE)
  with served_hub [of mtd ops agents st n evs tid] show ?thesis by (intro exI [of _ xs]) simp
qed

text \<open>The text of a thread.\<close>

lemma trace_text_concat: "trace_text (concat outs) = concat (map trace_text outs)"
  by (induction outs) simp_all

lemma trace_text_filter:
  "(\<And>v. P (''messages'', v)) \<Longrightarrow> trace_text (filter P out) = trace_text out"
proof (induction out)
  case (Cons e out)
  have "trace_text (f # fs) = (if fst f = ''messages'' then delta_text (snd f) else []) @ trace_text fs" for f fs
    by (simp add: trace_text_def messages_of_def)
  with Cons show ?case by (cases "fst e = ''messages''") (auto simp: prod_eq_iff, metis prod.collapse)
qed simp


definition greeting_registry :: "run_graph registry" where
  "greeting_registry = [(''a'', \<lambda>config. Inr (Graph (demo_graph\<lparr>rg_stream := (\<lambda>inp conf. (greeting, None))\<rparr>)))]"

definition greeting_served :: "memory_store serving" where
  "greeting_served = served plain_message demo_ops (Some greeting_registry) demo_threads 500
     ([Handle (Arrive ''r1'' ''t'' start_body), Handle (Proceed 0 ''now'' ''r2'')] @
      replicate 5 (Handle (Background (TaskStep 1 int))) @
      [OpenStream ''t'' (Inl (ValueError []))] @ replicate 10 (ResumeStream ''t'' 0))"


text \<open>The runs of a thread follow each other. Whatever requests, runs and connections do, the
  lifecycle statuses published on a thread are those of one run after the other, \<open>started\<close>,
  \<open>running\<close> and at most one terminal status each, and never those of two runs mixed.\<close>

theorem runs_are_serial:
  "serial (statuses (z_trace (served mtd ops agents st n evs) tid))"
proof -
  obtain res where "manages (served mtd ops agents st n evs) (traced_reached mtd (new_registry agents) n res)"
    using served_manages [of mtd ops agents st n evs] by (elim exE)
  moreover have "serial_inv (traced_reached mtd (new_registry agents) n res)" by (rule traced_reached_inv)
  ultimately show ?thesis by (auto simp: serial_inv_def manages_def intro: serial_thread_serial)
qed

text \<open>What a client reads are events of the thread's runs, in the order the runs published them and
  none of them twice, whatever is lost on the way.\<close>

theorem client_reads_in_order:
  assumes "z_conns (served mtd ops agents st n evs) tid i = Some c"
  shows "subseq (map emission (events_of (c_out c))) (z_trace (served mtd ops agents st n evs) tid)"
proof -
  obtain fs where m: "mirrors (served mtd ops agents st n evs) tid (stream_run (new_sys n) fs)"
    using served_mirrors [of mtd ops agents st n evs tid] by (elim exE)
  let ?y = "stream_run (new_sys n) fs"
  have c: "y_conns ?y i = Some c" using m assms by (simp add: mirrors_def)
  then obtain s where s: "h_subs (y_hub ?y) i = Some s"
    using stream_reached_inv [of n fs] by (auto simp: sys_inv_def)
  have "numbered (y_log ?y)" using stream_reached_inv [of n fs] by (simp add: sys_inv_def hub_log_def)
  moreover have "incr e_seq (events_of (c_out c))"
    "set (events_of (c_out c)) \<subseteq> set (wanted (c_since c) s (y_log ?y))"
    using sys_invD(1) [OF stream_reached_inv c s] by (auto simp: conn_inv_def delivered_def incr_append)
  ultimately have "subseq (events_of (c_out c)) (y_log ?y)"
    using wanted_subset [of "c_since c" s "y_log ?y"] by (intro incr_subseq) (auto intro: numbered_incr)
  with m show ?thesis by (simp add: mirrors_def subseq_map)
qed

theorem client_reads_in_order_witness:
  "\<exists>c. z_conns demo_served ''t'' 0 = Some c \<and>
     subseq (map emission (events_of (c_out c))) (z_trace demo_served ''t'')"
proof -
  obtain c where c: "z_conns demo_served ''t'' 0 = Some c" using demo_served_conn by blast
  from client_reads_in_order [OF c [unfolded demo_served_def]] c show ?thesis by (simp add: demo_served_def)
qed



end
