(* ===== verification/Answers.thy ===== *)
theory Answers
  imports Serving
begin

text \<open>
  Every request is answered. A command's handler is suspended at its awaits while other handlers,
  runs and connections go on; the lemmas count what is left of it: each time it is resumed it
  replies or has fewer awaits before it, nothing else moves it, and it replies once.
\<close>

section \<open>What is left of a handler\<close>

definition replies_to :: "nat \<Rightarrow> 's handling \<Rightarrow> reply list" where
  "replies_to h D = map snd (filter (\<lambda>x. fst x = h) (d_replies D))"

text \<open>The awaits a suspended handler has at most before it, the one it is in included.\<close>

fun awaits_left :: "waiting \<Rightarrow> nat" where
  "awaits_left (AwaitGraph tid cid params outcome) = 3"
| "awaits_left (AwaitState tid cid params outcome) = 2"
| "awaits_left (AwaitStart tid cid aid i) = 1"
| "awaits_left (AwaitRespond tid cid i) = 1"

lemma awaits_bounds: "awaits_left w \<le> 3"
  by (cases w) simp_all

lemma awaits_none: "awaits_left w \<noteq> 0"
  by (cases w) simp_all

lemma validate_respond_awaits:
  "validate_respond ops rid tid cid params snap sv = (Awaits w, sv') \<Longrightarrow> \<exists>i. w = AwaitRespond tid cid i"
  by (auto simp: validate_respond_def split: sum.splits prod.splits if_splits)

lemma proceed_awaits:
  assumes "proceed mtd ops now rid w sv = (Awaits w', sv')"
  shows "awaits_left w' < awaits_left w"
  using assms
  by (cases w) (auto simp: end_start_def end_respond_def dest: validate_respond_awaits
      split: option.splits sum.splits prod.splits)

text \<open>A request that has arrived: replied to once, or suspended with at most \<open>k\<close> awaits before it.\<close>

definition on_its_way :: "nat \<Rightarrow> nat \<Rightarrow> 's handling \<Rightarrow> bool" where
  "on_its_way h k D =
     (h < d_next D \<and>
      (case d_waiting D h of
         None \<Rightarrow> (\<exists>r. replies_to h D = [r])
       | Some w \<Rightarrow> replies_to h D = [] \<and> awaits_left w \<le> k))"

definition nothing_early :: "'s handling \<Rightarrow> bool" where
  "nothing_early D = (\<forall>h. d_next D \<le> h \<longrightarrow> d_waiting D h = None \<and> replies_to h D = [])"

text \<open>Another request's progress.\<close>

lemma replies_other: "k \<noteq> h \<Longrightarrow> replies_to h (record_progress k x D) = replies_to h D"
  by (simp add: replies_to_def record_progress_def split: progress.split)

lemma record_other:
  "k \<noteq> h \<Longrightarrow> d_waiting (record_progress k x D) h = d_waiting D h"
  "d_next (record_progress k x D) = d_next D"
  by (simp_all add: record_progress_def split: progress.split)

lemma way_record_other: "k \<noteq> h \<Longrightarrow> on_its_way h n (record_progress k x D) = on_its_way h n D"
  by (simp add: on_its_way_def replies_other record_other split: option.split)

text \<open>Its own.\<close>

lemma way_record:
  assumes "h < d_next D" and "replies_to h D = []" and "\<And>w. fst x = Awaits w \<Longrightarrow> awaits_left w \<le> n"
  shows "on_its_way h n (record_progress h x D)"
proof (cases "fst x")
  case (Replied r)
  with assms show ?thesis by (simp add: on_its_way_def record_progress_def replies_to_def)
next
  case (Awaits w)
  with assms show ?thesis by (simp add: on_its_way_def record_progress_def replies_to_def)
qed

definition resumes :: "nat \<Rightarrow> handling_event \<Rightarrow> bool" where
  "resumes h ev = (case ev of Proceed k now rid \<Rightarrow> k = h | _ \<Rightarrow> False)"

lemma way_frame:
  "on_its_way h n D \<Longrightarrow> d_waiting D' h = d_waiting D h \<Longrightarrow> d_next D' = d_next D \<Longrightarrow> d_replies D' = d_replies D \<Longrightarrow>
   on_its_way h n D'"
  by (simp add: on_its_way_def replies_to_def split: option.splits)

lemma way_step:
  assumes way: "on_its_way h n D" and ev: "ev \<noteq> Abandon h"
  shows "on_its_way h (if resumes h ev then n - 1 else n) (handle_step mtd ops D ev)"
proof (cases ev)
  case (Arrive rid tid b)
  have "on_its_way h n (D\<lparr>d_next := Suc (d_next D)\<rparr>)"
    using way by (auto simp: on_its_way_def replies_to_def split: option.splits)
  moreover have "d_next D \<noteq> h" using way by (simp add: on_its_way_def)
  ultimately show ?thesis by (simp add: Arrive resumes_def way_record_other)
next
  case (Proceed k now rid)
  show ?thesis
  proof (cases "k = h")
    case False
    with way Proceed show ?thesis by (simp add: resumes_def way_record_other split: option.split)
  next
    case True
    show ?thesis
    proof (cases "d_waiting D h")
      case None
      with way Proceed True show ?thesis by (simp add: resumes_def on_its_way_def)
    next
      case (Some w)
      with way have w: "h < d_next D" "replies_to h D = []" "awaits_left w \<le> n" by (simp_all add: on_its_way_def)
      have "awaits_left w' \<le> n - 1" if "fst (proceed mtd ops now rid w (d_server D)) = Awaits w'" for w'
        using proceed_awaits [of mtd ops now rid w "d_server D" w'] that w(3)
        by (cases "proceed mtd ops now rid w (d_server D)") fastforce
      from way_record [OF w(1,2) this] show ?thesis by (simp add: Proceed True Some resumes_def)
    qed
  qed
next
  case (Abandon k)
  with ev have "on_its_way h n (handle_step mtd ops D (Abandon k))"
    by (intro way_frame [OF way]) (simp_all split: option.split)
  then show ?thesis by (simp add: Abandon resumes_def del: handle_step.simps)
next
  case (Background e)
  have "on_its_way h n (handle_step mtd ops D (Background e))"
    by (intro way_frame [OF way]) simp_all
  then show ?thesis by (simp add: Background resumes_def del: handle_step.simps)
qed

lemma way_arrives:
  assumes "nothing_early D"
  shows "on_its_way (d_next D) 3 (handle_step mtd ops D (Arrive rid tid b))"
proof -
  have "replies_to (d_next D) (D\<lparr>d_next := Suc (d_next D)\<rparr>) = []"
    using assms by (simp add: nothing_early_def replies_to_def)
  then show ?thesis by (simp add: way_record awaits_bounds)
qed

lemma early_step:
  assumes "nothing_early D"
  shows "nothing_early (handle_step mtd ops D ev)"
proof -
  have rec: "nothing_early (record_progress k x D')" if "k < d_next D'" "nothing_early D'" for k x and D' :: "'a handling"
    using that by (simp add: nothing_early_def replies_other record_other)
  have old: "k < d_next D" if "d_waiting D k = Some w" for k w
    using assms that by (cases "k < d_next D") (auto simp: nothing_early_def)
  have frame: "nothing_early D'" if "d_next D' = d_next D" "d_replies D' = d_replies D" "\<And>h. d_waiting D h = None \<Longrightarrow> d_waiting D' h = None" for D' :: "'a handling"
    using assms that by (simp add: nothing_early_def replies_to_def)
  show ?thesis
  proof (cases ev)
    case (Arrive rid tid b)
    have "nothing_early (D\<lparr>d_next := Suc (d_next D)\<rparr>)" using assms by (simp add: nothing_early_def replies_to_def)
    then show ?thesis by (simp add: Arrive rec)
  next
    case (Proceed k now rid)
    with assms show ?thesis by (auto intro: rec old split: option.split)
  next
    case (Abandon k)
    with assms show ?thesis by (auto intro!: frame split: option.split)
  next
    case (Background e)
    with assms show ?thesis by (auto intro!: frame)
  qed
qed

section \<open>The running server\<close>

text \<open>Only the handlers' own events move requests.\<close>

definition same_requests :: "'s handling \<Rightarrow> 's handling \<Rightarrow> bool" where
  "same_requests D D' = (d_waiting D' = d_waiting D \<and> d_next D' = d_next D \<and> d_replies D' = d_replies D)"

lemma serve_requests:
  "z_handling (serve_step mtd ops S ev) =
     (case ev of Handle e \<Rightarrow> handle_step mtd ops (z_handling S) e | _ \<Rightarrow> z_handling (serve_step mtd ops S ev)) \<and>
   ((\<nexists>e. ev = Handle e) \<longrightarrow> same_requests (z_handling S) (z_handling (serve_step mtd ops S ev)))"
proof (cases ev)
  case (OpenStream tid b)
  then show ?thesis by (simp add: same_requests_def open_conn_def set_server_def set_conn_def split: prod.split sum.split)
qed (simp_all add: same_requests_def set_server_def set_conn_def step_conn_def Let_def split: option.split prod.split)

text \<open>How often the events resume a request, and whether its client leaves.\<close>

definition resumptions :: "nat \<Rightarrow> serving_event list \<Rightarrow> nat" where
  "resumptions h evs = length (filter (\<lambda>ev. case ev of Handle e \<Rightarrow> resumes h e | _ \<Rightarrow> False) evs)"

definition client_leaves :: "nat \<Rightarrow> serving_event list \<Rightarrow> bool" where
  "client_leaves h evs = list_ex (\<lambda>ev. case ev of Handle (Abandon k) \<Rightarrow> k = h | _ \<Rightarrow> False) evs"

lemma resumptions_Cons: "resumptions h (ev # evs) = resumptions h [ev] + resumptions h evs"
  by (simp add: resumptions_def)

lemma way_serve:
  assumes "on_its_way h n (z_handling S)" and "\<not> client_leaves h [ev]"
  shows "on_its_way h (n - resumptions h [ev]) (z_handling (serve_step mtd ops S ev))"
proof (cases "\<exists>e. ev = Handle e")
  case True
  then obtain e where e: "ev = Handle e" by blast
  with assms(2) have "e \<noteq> Abandon h" by (auto simp: client_leaves_def)
  from way_step [OF assms(1) this, of mtd ops] show ?thesis
    by (cases "resumes h e") (simp_all add: e resumptions_def)
next
  case False
  then have "same_requests (z_handling S) (z_handling (serve_step mtd ops S ev))" using serve_requests by blast
  moreover have "resumptions h [ev] = 0" using False by (auto simp: resumptions_def split: serving_event.split)
  ultimately show ?thesis using way_frame [OF assms(1), of "z_handling (serve_step mtd ops S ev)"] by (simp add: same_requests_def)
qed

lemma way_run:
  "on_its_way h n (z_handling S) \<Longrightarrow> \<not> client_leaves h evs \<Longrightarrow>
   on_its_way h (n - resumptions h evs) (z_handling (serve_run mtd ops S evs))"
proof (induction evs arbitrary: S n)
  case (Cons ev evs)
  have "\<not> client_leaves h [ev]" "\<not> client_leaves h evs" using Cons.prems(2) by (simp_all add: client_leaves_def)
  from Cons.IH [OF way_serve [OF Cons.prems(1) this(1), of mtd ops] this(2)] show ?case
    unfolding resumptions_Cons [of h ev evs] by simp
qed (simp add: resumptions_def)

lemma early_serve: "nothing_early (z_handling S) \<Longrightarrow> nothing_early (z_handling (serve_step mtd ops S ev))"
proof (cases "\<exists>e. ev = Handle e")
  case True
  then show "nothing_early (z_handling S) \<Longrightarrow> ?thesis" using early_step by fastforce
next
  case False
  then have "same_requests (z_handling S) (z_handling (serve_step mtd ops S ev))" using serve_requests by blast
  then show "nothing_early (z_handling S) \<Longrightarrow> ?thesis" by (simp add: same_requests_def nothing_early_def replies_to_def)
qed

interpretation early: event_system "serve_step mtd ops" "\<lambda>S. nothing_early (z_handling S)" for mtd ops
  by unfold_locales (rule early_serve)

lemma served_early: "nothing_early (z_handling (served mtd ops agents st n evs))"
  unfolding served_def
  by (rule early.inv_run) (simp add: start_serving_def nothing_early_def replies_to_def)

section \<open>Properties\<close>


text \<open>Two clients answer the same interrupt at the same time; both get a reply.\<close>

definition answer_request :: body where
  "answer_request = Inr (PDict [(''id'', PInt 2), (''method'', PStr ''input.respond''),
                                (''params'', PDict [(''interrupt_id'', PStr ''i1'')])])"

definition waiting_threads :: memory_store where
  "waiting_threads = [(''t'', demo_record\<lparr>tr_assistant_id := Some ''w''\<rparr>)]"

definition other_client :: "serving_event list" where
  "other_client = [Handle (Arrive ''r1'' ''t'' answer_request), Handle (Proceed 0 ''now'' ''r2'')]"

definition both_clients :: "serving_event list" where
  "both_clients =
     [Handle (Proceed 1 ''now'' ''r4''), Handle (Proceed 0 ''now'' ''r5''), OpenStream ''t'' (Inr (PDict [])),
      Handle (Proceed 1 ''now'' ''r6''), Handle (Abandon 0), Handle (Proceed 1 ''now'' ''r7'')]"


end
