(* ===== verification/LastAssistant.thy ===== *)
theory LastAssistant
  imports Serving
begin

text \<open>
  Which graph reads a thread. A thread's checkpoints decode only through the graph that wrote
  them; the router therefore stores the assistant of every started run on the thread's row and
  resolves that for state, history and \<open>input.respond\<close>. The lemmas show, through the interface of the
  thread stores, that row and run manager never disagree, however handlers interleave.
\<close>

section \<open>Stored assistants\<close>

definition known_thread :: "'s store_ops \<Rightarrow> 's \<Rightarrow> string \<Rightarrow> bool" where
  "known_thread ops st tid = (case so_get ops tid st of Inr (Some r) \<Rightarrow> True | _ \<Rightarrow> False)"

definition stored_assistant :: "'s store_ops \<Rightarrow> 's \<Rightarrow> string \<Rightarrow> string option" where
  "stored_assistant ops st tid = (case so_get ops tid st of Inr (Some r) \<Rightarrow> tr_assistant_id r | _ \<Rightarrow> None)"

lemma stored_known: "stored_assistant ops st tid = Some aid \<Longrightarrow> known_thread ops st tid"
  by (auto simp: stored_assistant_def known_thread_def split: sum.splits option.splits)

definition no_empty_assistant :: "'s store_ops \<Rightarrow> 's \<Rightarrow> bool" where
  "no_empty_assistant ops st = (\<forall>tid. stored_assistant ops st tid \<noteq> Some [])"

text \<open>The metadata a request to create a thread brings.\<close>

definition thread_metadata :: "body \<Rightarrow> dict" where
  "thread_metadata b = (case dget (body_dict b) ''metadata'' of Some (PDict d) \<Rightarrow> d | _ \<Rightarrow> [])"

context thread_store
begin

lemma stored_set:
  assumes s: "inv s" and known: "known_thread ops s tid"
  shows "\<exists>s'. set_assistant now tid aid s = Inr s' \<and> inv s' \<and>
     stored_assistant ops s' = (stored_assistant ops s)(tid \<mapsto> aid) \<and> known_thread ops s' = known_thread ops s"
proof -
  from set_known [OF s, of now tid aid] obtain s' where s': "set_assistant now tid aid s = Inr s'" "inv s'"
    "\<forall>k. get k s' =
       (if k = tid
        then map_sum id (map_option (\<lambda>r. r\<lparr>tr_assistant_id := Some aid, tr_updated_at := now\<rparr>)) (get k s)
        else get k s)"
    by blast
  obtain r where r: "get tid s = Inr (Some r)"
    using known by (auto simp: known_thread_def split: sum.splits option.splits)
  have "stored_assistant ops s' k = ((stored_assistant ops s)(tid \<mapsto> aid)) k" "known_thread ops s' k = known_thread ops s k" for k
    using s'(3) r by (simp_all add: stored_assistant_def known_thread_def)
  with s'(1,2) show ?thesis by (auto simp: fun_eq_iff)
qed

lemma stored_create:
  assumes s: "inv s" and md: "storable (Some md)" and new: "get (uuid7 raw ms) s = Inr None"
  shows "\<exists>r s'. create now raw ms (Some md) s = Inr (r, s') \<and> inv s' \<and>
     stored_assistant ops s' = stored_assistant ops s \<and> (\<forall>tid. known_thread ops s tid \<longrightarrow> known_thread ops s' tid)"
proof -
  from create_fresh [OF s md new, of now] obtain s' where s':
    "create now raw ms (Some md) s = Inr (fresh_record now raw ms (Some md), s')" "inv s'"
    "\<forall>tid. get tid s' = (if tid = uuid7 raw ms then Inr (Some (fresh_record now raw ms (Some md))) else get tid s)"
    by blast
  have "stored_assistant ops s' k = stored_assistant ops s k" "known_thread ops s k \<Longrightarrow> known_thread ops s' k" for k
    using s'(3) new by (auto simp: stored_assistant_def known_thread_def fresh_record_def)
  with s'(1,2) show ?thesis by (auto simp: fun_eq_iff)
qed

end

section \<open>The invariant\<close>

text \<open>What the manager remembers of a thread is what is stored.\<close>

definition agrees :: "'s store_ops \<Rightarrow> 's server \<Rightarrow> bool" where
  "agrees ops sv =
     (\<forall>tid a. m_last (v_manager sv) tid = Some a \<longrightarrow>
        (\<exists>aid. stored_assistant ops (v_store sv) tid = Some aid \<and> a = PStr aid))"

text \<open>
  A suspended handler: one that starts a run will store its assistant on a known thread; one that
  resumes a run has, and goes on with, the stored assistant.
\<close>

fun waiting_ok :: "'s store_ops \<Rightarrow> 's server \<Rightarrow> waiting \<Rightarrow> bool" where
  "waiting_ok ops sv (AwaitStart tid cid aid i) =
     (known_thread ops (v_store sv) tid \<and> truthy aid \<and>
      (\<forall>p. m_starts (v_manager sv) i = Some p \<longrightarrow> p_assistant p = aid \<and>
         (\<forall>g. p_outcome p = Inr g \<longrightarrow> (\<exists>s. aid = PStr s))))"
| "waiting_ok ops sv (AwaitGraph tid cid params outcome) = (stored_assistant ops (v_store sv) tid \<noteq> None)"
| "waiting_ok ops sv (AwaitState tid cid params outcome) = (stored_assistant ops (v_store sv) tid \<noteq> None)"
| "waiting_ok ops sv (AwaitRespond tid cid i) =
     (\<forall>p. m_starts (v_manager sv) i = Some p \<longrightarrow>
        (\<exists>s. stored_assistant ops (v_store sv) tid = Some s \<and> p_assistant p = PStr s) \<and>
        (\<exists>response. p_input p = CommandResume response))"

definition server_ok :: "('s \<Rightarrow> bool) \<Rightarrow> 's store_ops \<Rightarrow> 's server \<Rightarrow> bool" where
  "server_ok ok ops sv = (ok (v_store sv) \<and> no_empty_assistant ops (v_store sv) \<and> agrees ops sv)"

definition assistants_inv :: "('s \<Rightarrow> bool) \<Rightarrow> 's store_ops \<Rightarrow> 's handling \<Rightarrow> bool" where
  "assistants_inv ok ops D =
     (handling_inv D \<and> server_ok ok ops (d_server D) \<and>
      (\<forall>h w. d_waiting D h = Some w \<longrightarrow> waiting_ok ops (d_server D) w))"

lemma assistants_invD:
  assumes "assistants_inv ok ops D"
  shows "handling_inv D" "server_ok ok ops (d_server D)" "d_waiting D h = Some w \<Longrightarrow> waiting_ok ops (d_server D) w"
  using assms by (auto simp: assistants_inv_def)

text \<open>A step that stores no assistant and makes at most one start.\<close>

definition keeps_assistants :: "'s store_ops \<Rightarrow> 's server \<Rightarrow> 's server \<Rightarrow> bool" where
  "keeps_assistants ops sv sv' =
     (stored_assistant ops (v_store sv') = stored_assistant ops (v_store sv) \<and>
      (\<forall>tid. known_thread ops (v_store sv) tid \<longrightarrow> known_thread ops (v_store sv') tid) \<and>
      (\<forall>i p. i \<noteq> m_next (v_manager sv) \<longrightarrow> m_starts (v_manager sv') i = Some p \<longrightarrow> m_starts (v_manager sv) i = Some p))"

lemma assistants_refl [simp]: "keeps_assistants ops sv sv"
  by (simp add: keeps_assistants_def)

lemma assistants_manager:
  "(\<And>i p. i \<noteq> m_next (v_manager sv) \<Longrightarrow> m_starts m i = Some p \<Longrightarrow> m_starts (v_manager sv) i = Some p) \<Longrightarrow>
   keeps_assistants ops sv (sv\<lparr>v_manager := m\<rparr>)"
  by (simp add: keeps_assistants_def)

lemma keeps_waiting:
  assumes "keeps_assistants ops sv sv'" and "waiting_ok ops sv w"
    and "\<And>tid i. starting_in w = Some (tid, i) \<Longrightarrow> i \<noteq> m_next (v_manager sv)"
  shows "waiting_ok ops sv' w"
  using assms by (cases w) (auto simp: keeps_assistants_def)

lemma waiting_not_next:
  assumes "handling_inv D" and "d_waiting D h = Some w" and "starting_in w = Some (tid, i)"
  shows "i \<noteq> m_next (v_manager (d_server D))"
proof -
  have "waits_in D h tid i" using assms(2,3) by (simp add: waits_in_def)
  from handling_invD(2) [OF assms(1) this] next_is_new [OF handling_invD(1) [OF assms(1)]] show ?thesis by auto
qed

lemma assistants_keep:
  assumes a: "assistants_inv ok ops D" and D': "handling_inv D'" "server_ok ok ops (d_server D')"
    and k: "keeps_assistants ops (d_server D) (d_server D')"
    and w: "\<And>h w. d_waiting D' h = Some w \<Longrightarrow> d_waiting D h = Some w \<or> waiting_ok ops (d_server D') w"
  shows "assistants_inv ok ops D'"
  unfolding assistants_inv_def
proof (intro conjI allI impI)
  fix h x
  assume "d_waiting D' h = Some x"
  with w consider "d_waiting D h = Some x" | "waiting_ok ops (d_server D') x" by blast
  then show "waiting_ok ops (d_server D') x"
  proof cases
    case 1
    show ?thesis
      by (rule keeps_waiting [OF k assistants_invD(3) [OF a 1] waiting_not_next [OF assistants_invD(1) [OF a] 1]])
  qed
qed (rule D')+

section \<open>The stretches of a handler\<close>

definition stretch_ok :: "('s \<Rightarrow> bool) \<Rightarrow> 's store_ops \<Rightarrow> 's server \<Rightarrow> progress \<times> 's server \<Rightarrow> bool" where
  "stretch_ok ok ops sv x =
     (server_ok ok ops (snd x) \<and> keeps_assistants ops sv (snd x) \<and>
      (case fst x of Replied r \<Rightarrow> True | Awaits w \<Rightarrow> waiting_ok ops (snd x) w))"

lemma replied_ok [simp]: "stretch_ok ok ops sv (Replied r, sv) = server_ok ok ops sv"
  by (simp add: stretch_ok_def)

lemma server_ok_manager:
  "server_ok ok ops sv \<Longrightarrow> m_last m = m_last (v_manager sv) \<Longrightarrow> server_ok ok ops (sv\<lparr>v_manager := m\<rparr>)"
  by (simp add: server_ok_def agrees_def)

lemma reserved_start:
  assumes "start_reserve tid aid inp config metadata rid m = Inr (i, m')"
  shows "m_last m' = m_last m \<and> i = m_next m \<and>
     (\<exists>p. m_starts m' = (m_starts m)(i \<mapsto> p) \<and> p_assistant p = aid \<and> p_input p = inp \<and> p_outcome p = resolve (m_registry m) aid (config_value config))"
  using assms by (auto simp: start_reserve_def Let_def split: option.splits)

lemma begin_start_ok:
  assumes sv: "server_ok ok ops sv" and tid: "known_thread ops (v_store sv) tid"
  shows "stretch_ok ok ops sv (begin_start rid tid rec cid params sv)"
proof -
  have "stretch_ok ok ops sv (Awaits (AwaitStart tid cid aid i), sv\<lparr>v_manager := m\<rparr>)"
    if "truthy aid" and r: "start_reserve tid aid inp config metadata rid (v_manager sv) = Inr (i, m)"
    for aid inp config metadata i m
  proof -
    from reserved_start [OF r] obtain p where p: "m_last m = m_last (v_manager sv)" "i = m_next (v_manager sv)"
      "m_starts m = (m_starts (v_manager sv))(i \<mapsto> p)" "p_assistant p = aid"
      "p_outcome p = resolve (m_registry (v_manager sv)) aid (config_value config)" by blast
    have "keeps_assistants ops sv (sv\<lparr>v_manager := m\<rparr>)"
      by (rule assistants_manager) (simp add: p)
    moreover have "waiting_ok ops (sv\<lparr>v_manager := m\<rparr>) (AwaitStart tid cid aid i)"
      using that(1) tid p resolve_not_str [of "m_registry (v_manager sv)" aid "config_value config"] by auto
    ultimately show ?thesis using server_ok_manager [OF sv p(1)] by (simp add: stretch_ok_def)
  qed
  with sv show ?thesis
    by (auto simp: begin_start_def Let_def split: sum.split)
qed

lemma begin_respond_ok:
  "server_ok ok ops sv \<Longrightarrow> stretch_ok ok ops sv (begin_respond ops tid cid params sv, sv)"
  by (auto simp: begin_respond_def stretch_ok_def stored_assistant_def split: sum.split option.split)

lemma validate_respond_ok:
  assumes sv: "server_ok ok ops sv" and tid: "stored_assistant ops (v_store sv) tid \<noteq> None"
  shows "stretch_ok ok ops sv (validate_respond ops rid tid cid params snap sv)"
proof -
  obtain r s where s: "so_get ops tid (v_store sv) = Inr (Some r)" "tr_assistant_id r = Some s"
    "stored_assistant ops (v_store sv) tid = Some s"
    using tid by (auto simp: stored_assistant_def split: sum.splits option.splits)
  with sv have "s \<noteq> []" by (auto simp: server_ok_def no_empty_assistant_def)
  then have aid: "respond_assistant tid iid (PStr s) m \<in> {Inr (PStr s), Inl (unknown_interrupt tid iid)}" for iid m
    by (simp add: respond_assistant_def py_or_def split: option.split)
  have "stretch_ok ok ops sv (Awaits (AwaitRespond tid cid i), sv\<lparr>v_manager := m\<rparr>)"
    if r: "respond_reserve tid iid response (PStr s) rid (v_manager sv) = Inr (i, m)" for iid response i m
  proof -
    from r aid [of iid "v_manager sv"]
    have "start_reserve tid (PStr s) (CommandResume response) None PNone rid (v_manager sv) = Inr (i, m)"
      by (auto simp: respond_reserve_def)
    from reserved_start [OF this] obtain p where p: "m_last m = m_last (v_manager sv)" "i = m_next (v_manager sv)"
      "m_starts m = (m_starts (v_manager sv))(i \<mapsto> p)" "p_assistant p = PStr s" "p_input p = CommandResume response" by blast
    have "keeps_assistants ops sv (sv\<lparr>v_manager := m\<rparr>)"
      by (rule assistants_manager) (simp add: p)
    then show ?thesis using server_ok_manager [OF sv p(1)] p s(3) by (simp add: stretch_ok_def)
  qed
  with sv s(1,2) show ?thesis
    by (auto simp: validate_respond_def split: sum.split)
qed

lemma with_object_ok:
  "server_ok ok ops sv \<Longrightarrow> (\<And>d. stretch_ok ok ops sv (k d)) \<Longrightarrow> stretch_ok ok ops sv (with_object params sv k)"
  by (auto simp: with_object_def split: pyval.split sum.split)

lemma cancel_last [simp]: "m_last (snd (cancel tid rid m)) = m_last m"
  by (simp add: cancel_def split: option.split owner.split)

lemma begin_command_ok:
  assumes sv: "server_ok ok ops sv"
  shows "stretch_ok ok ops sv (begin_command mtd ops rid tid b sv)"
proof -
  have "stretch_ok ok ops sv (Replied r, sv\<lparr>v_manager := snd (cancel tid x (v_manager sv))\<rparr>)" for r x
    using server_ok_manager [OF sv, of "snd (cancel tid x (v_manager sv))"]
      assistants_manager [of sv "snd (cancel tid x (v_manager sv))" ops]
    by (simp add: stretch_ok_def)
  moreover have "stretch_ok ok ops sv (begin_start rid tid rec cid d sv)" if "so_get ops tid (v_store sv) = Inr (Some rec)" for rec cid d
    by (rule begin_start_ok [OF sv]) (simp add: that known_thread_def)
  ultimately show ?thesis using sv unfolding begin_command_def Let_def
    by (auto intro!: with_object_ok begin_respond_ok split: sum.split option.split pyval.split)
qed

lemma middle_ok:
  "server_ok ok ops sv \<Longrightarrow> waiting_ok ops sv w \<Longrightarrow> starting_in w = None \<Longrightarrow>
   stretch_ok ok ops sv (proceed mtd ops now rid w sv)"
  by (cases w) (auto simp: stretch_ok_def [of _ _ _ "(Awaits _, _)"] validate_respond_ok split: sum.split)

lemma assistants_stretch:
  assumes a: "assistants_inv ok ops D" and D': "handling_inv (record_progress h x (D\<lparr>d_next := n\<rparr>))"
    and x: "stretch_ok ok ops (d_server D) x"
  shows "assistants_inv ok ops (record_progress h x (D\<lparr>d_next := n\<rparr>))"
proof (rule assistants_keep [OF a D'])
  show "server_ok ok ops (d_server (record_progress h x (D\<lparr>d_next := n\<rparr>)))"
    "keeps_assistants ops (d_server D) (d_server (record_progress h x (D\<lparr>d_next := n\<rparr>)))"
    using x by (simp_all add: stretch_ok_def)
  show "d_waiting D k = Some w \<or> waiting_ok ops (d_server (record_progress h x (D\<lparr>d_next := n\<rparr>))) w"
    if "d_waiting (record_progress h x (D\<lparr>d_next := n\<rparr>)) k = Some w" for k w
    using that x by (auto simp: stretch_ok_def record_progress_def split: progress.splits if_splits)
qed

text \<open>The end of a start: what the handler stores is what the manager remembers.\<close>

lemma finished_start:
  assumes "start_finish i p m = (res, m')"
  shows "m_starts m' = (m_starts m)(i := None)"
    and "case res of Inl e \<Rightarrow> m_last m' = m_last m
       | Inr rid \<Rightarrow> m_last m' = (m_last m)(p_thread p \<mapsto> p_assistant p) \<and> (\<exists>g. p_outcome p = Inr g)"
proof -
  show "m_starts m' = (m_starts m)(i := None)" using start_finish_starts [of i p m] assms by simp
  show "case res of Inl e \<Rightarrow> m_last m' = m_last m
       | Inr rid \<Rightarrow> m_last m' = (m_last m)(p_thread p \<mapsto> p_assistant p) \<and> (\<exists>g. p_outcome p = Inr g)"
    using assms by (cases "p_outcome p"; cases "run_config (p_thread p) (p_config p) (p_metadata p)")
      (auto simp: start_finish_def Let_def)
qed

text \<open>All that the other suspended handlers need of a server that ended a start on \<open>tid\<close>.\<close>

definition ended_start :: "('s \<Rightarrow> bool) \<Rightarrow> 's store_ops \<Rightarrow> 's server \<Rightarrow> string \<Rightarrow> nat \<Rightarrow> 's server \<Rightarrow> bool" where
  "ended_start ok ops sv tid i sv' =
     (server_ok ok ops sv' \<and> m_starts (v_manager sv') = (m_starts (v_manager sv))(i := None) \<and>
      known_thread ops (v_store sv') = known_thread ops (v_store sv) \<and>
      (\<forall>k. k \<noteq> tid \<longrightarrow> stored_assistant ops (v_store sv') k = stored_assistant ops (v_store sv) k) \<and>
      (stored_assistant ops (v_store sv) tid \<noteq> None \<longrightarrow> stored_assistant ops (v_store sv') tid \<noteq> None))"

lemma ended_waiting:
  assumes D: "handling_inv D" and e: "ended_start ok ops (d_server D) tid i sv'" and i: "waits_in D h tid i"
    and k: "k \<noteq> h" "d_waiting D k = Some w" and w: "waiting_ok ops (d_server D) w"
  shows "waiting_ok ops sv' w"
proof (cases w)
  case (AwaitRespond t cid j)
  show ?thesis
  proof (cases "t = tid")
    case True
    have wk: "waits_in D k tid j" using k(2) AwaitRespond True by (simp add: waits_in_def)
    obtain p q where p: "m_starts (v_manager (d_server D)) i = Some p" "p_thread p = tid"
      and q: "m_starts (v_manager (d_server D)) j = Some q" "p_thread q = tid"
      using handling_invD(2) [OF D i] handling_invD(2) [OF D wk] by blast
    have "Reserved i \<in> occupants (v_manager (d_server D)) tid" "Reserved j \<in> occupants (v_manager (d_server D)) tid"
      using start_occupies [OF p(1)] start_occupies [OF q(1)] p(2) q(2) by simp_all
    then have "Reserved i = Reserved j" by (rule occupant_unique [OF handling_invD(1) [OF D]])
    with handling_invD(3) [OF D i, of k tid] wk k(1) show ?thesis by simp
  next
    case False
    with e w AwaitRespond show ?thesis by (auto simp: ended_start_def)
  qed
next
  case (AwaitGraph t cid params outcome)
  with e w show ?thesis by (cases "t = tid") (auto simp: ended_start_def)
next
  case (AwaitState t cid params outcome)
  with e w show ?thesis by (cases "t = tid") (auto simp: ended_start_def)
next
  case (AwaitStart t cid aid j)
  with e w show ?thesis by (auto simp: ended_start_def)
qed

lemma assistants_end:
  assumes a: "assistants_inv ok ops D" and w: "waits_in D h tid i"
    and e: "ended_start ok ops (d_server D) tid i sv'" and run: "run_inv (v_manager sv')"
  shows "assistants_inv ok ops (record_progress h (Replied r, sv') D)"
proof -
  have D: "handling_inv (record_progress h (Replied r, sv') D)"
    by (rule leave_start_inv [OF assistants_invD(1) [OF a] w])
       (use e run in \<open>simp_all add: record_progress_def ended_start_def\<close>)
  have "waiting_ok ops sv' x" if "d_waiting (record_progress h (Replied r, sv') D) k = Some x" for k x
  proof -
    have k: "k \<noteq> h" "d_waiting D k = Some x" using that by (auto simp: record_progress_def split: if_splits)
    show ?thesis by (rule ended_waiting [OF assistants_invD(1) [OF a] e w k assistants_invD(3) [OF a k(2)]])
  qed
  with D e show ?thesis by (simp add: assistants_inv_def ended_start_def)
qed

lemma end_respond_ok:
  assumes sv: "server_ok ok ops sv" and w: "waiting_ok ops sv (AwaitRespond tid cid i)"
    and p: "m_starts (v_manager sv) i = Some p" "p_thread p = tid"
    and e: "end_respond cid i sv = (pr, sv')"
  shows "ended_start ok ops sv tid i sv'"
proof -
  obtain res m' where f: "start_finish i p (v_manager sv) = (res, m')" by fastforce
  with e p(1) have sv': "sv' = sv\<lparr>v_manager := m'\<rparr>" by (auto simp: end_respond_def split: sum.splits)
  obtain s where s: "stored_assistant ops (v_store sv) tid = Some s" "p_assistant p = PStr s" using w p(1) by auto
  have "agrees ops sv'"
  proof (cases res)
    case (Inl x)
    with finished_start(2) [OF f] sv show ?thesis by (simp add: sv' agrees_def server_ok_def)
  next
    case (Inr x)
    with finished_start(2) [OF f] sv s p(2) show ?thesis by (simp add: sv' agrees_def server_ok_def)
  qed
  with sv show ?thesis
    by (simp add: ended_start_def server_ok_def sv' finished_start(1) [OF f])
qed

context thread_store
begin

lemma end_start_ok:
  assumes sv: "server_ok inv ops sv" and w: "waiting_ok ops sv (AwaitStart tid cid aid i)"
    and p: "m_starts (v_manager sv) i = Some p" "p_thread p = tid"
    and e: "end_start ops now tid cid aid i sv = (pr, sv')"
  shows "ended_start inv ops sv tid i sv'"
proof -
  obtain res m' where f: "start_finish i p (v_manager sv) = (res, m')" by fastforce
  show ?thesis
  proof (cases res)
    case (Inl x)
    with e f p(1) have sv': "sv' = sv\<lparr>v_manager := m'\<rparr>" by (simp add: end_start_def)
    have "m_last m' = m_last (v_manager sv)" using finished_start(2) [OF f] Inl by simp
    from server_ok_manager [OF sv this] show ?thesis
      by (simp add: ended_start_def sv' finished_start(1) [OF f])
  next
    case (Inr x)
    then obtain s where s: "aid = PStr s" "p_assistant p = PStr s" "s \<noteq> []"
      using finished_start(2) [OF f] w p(1) by auto
    have "inv (v_store sv)" "known_thread ops (v_store sv) tid" using sv w by (simp_all add: server_ok_def)
    from stored_set [OF this, of now s] obtain st where st: "set_assistant now tid s (v_store sv) = Inr st" "inv st"
      "stored_assistant ops st = (stored_assistant ops (v_store sv))(tid \<mapsto> s)"
      "known_thread ops st = known_thread ops (v_store sv)" by blast
    have sv': "sv' = \<lparr>v_store = st, v_manager = m'\<rparr>" using e f p(1) Inr st(1) s(1) by (simp add: end_start_def)
    have "m_last m' = (m_last (v_manager sv))(tid \<mapsto> PStr s)" using finished_start(2) [OF f] Inr s p(2) by simp
    with sv st s have "server_ok inv ops sv'"
      by (auto simp: server_ok_def agrees_def no_empty_assistant_def sv')
    then show ?thesis by (simp add: ended_start_def sv' st finished_start(1) [OF f])
  qed
qed

lemma proceed_assistants:
  assumes a: "assistants_inv inv ops D" and w: "d_waiting D h = Some w"
  shows "assistants_inv inv ops (handle_step mtd ops D (Proceed h now rid))"
proof (cases "starting_in w")
  case None
  have "stretch_ok inv ops (d_server D) (proceed mtd ops now rid w (d_server D))"
    by (rule middle_ok [OF assistants_invD(2) [OF a] assistants_invD(3) [OF a w] None])
  with assistants_stretch [OF a, of h _ "d_next D"] proceed_inv [OF assistants_invD(1) [OF a] w, of mtd ops now rid] w
  show ?thesis by simp
next
  case (Some y)
  then obtain tid i where st: "starting_in w = Some (tid, i)" by (cases y) simp
  with w have wi: "waits_in D h tid i" by (simp add: waits_in_def)
  with handling_invD(2) [OF assistants_invD(1) [OF a]] obtain p where
    p: "m_starts (v_manager (d_server D)) i = Some p" "p_thread p = tid" by blast
  from end_stretch [OF st p(1), of mtd ops now rid] obtain r sv' where
    e: "proceed mtd ops now rid w (d_server D) = (Replied r, sv')" "one_event mtd (v_manager (d_server D)) (v_manager sv')"
    by blast
  have ok: "waiting_ok ops (d_server D) w" by (rule assistants_invD(3) [OF a w])
  have "ended_start inv ops (d_server D) tid i sv'"
  proof (cases w)
    case (AwaitStart t cid aid j)
    then have w': "w = AwaitStart tid cid aid i" using st by simp
    have "end_start ops now tid cid aid i (d_server D) = (Replied r, sv')" using e(1) w' by simp
    then show ?thesis by (rule end_start_ok [OF assistants_invD(2) [OF a] ok [unfolded w'] p])
  next
    case (AwaitRespond t cid j)
    then have w': "w = AwaitRespond tid cid i" using st by simp
    have "end_respond cid i (d_server D) = (Replied r, sv')" using e(1) w' by simp
    then show ?thesis by (rule end_respond_ok [OF assistants_invD(2) [OF a] ok [unfolded w'] p])
  qed (use st in simp_all)
  from assistants_end [OF a wi this one_event_inv [OF e(2) handling_invD(1) [OF assistants_invD(1) [OF a]]]]
  show ?thesis by (simp add: w e(1))
qed

lemma handle_assistants:
  assumes a: "assistants_inv inv ops D"
  shows "assistants_inv inv ops (handle_step mtd ops D ev)"
proof (cases ev)
  case (Arrive rid tid b)
  with assistants_stretch [OF a, of "d_next D" _ "Suc (d_next D)"] handle_step_inv [OF assistants_invD(1) [OF a], of mtd ops ev]
    begin_command_ok [OF assistants_invD(2) [OF a]]
  show ?thesis by simp
next
  case (Proceed h now rid)
  with a proceed_assistants [OF a, of h] show ?thesis by (cases "d_waiting D h") auto
next
  case (Abandon h)
  show ?thesis
  proof (cases "d_waiting D h")
    case (Some w)
    have m: "m_last (v_manager (abandon w (d_server D))) = m_last (v_manager (d_server D))"
      "abandon w (d_server D) = (d_server D)\<lparr>v_manager := v_manager (abandon w (d_server D))\<rparr>"
      by (simp_all add: abandon_def start_cancelled_def split: option.split prod.split)
    have "keeps_assistants ops (d_server D) (abandon w (d_server D))"
      by (subst m(2), rule assistants_manager) (auto simp: abandon_def start_cancelled_def split: option.splits if_splits)
    moreover have "server_ok inv ops (abandon w (d_server D))"
      by (subst m(2), rule server_ok_manager [OF assistants_invD(2) [OF a] m(1)])
    ultimately show ?thesis using Abandon Some abandon_inv [OF assistants_invD(1) [OF a] Some, of mtd ops]
      by (auto intro!: assistants_keep [OF a] split: if_splits)
  qed (use Abandon a in simp)
next
  case (Background e)
  show ?thesis
  proof (cases "background e")
    case True
    let ?m = "run_step mtd (v_manager (d_server D)) e"
    have m: "m_last ?m = m_last (v_manager (d_server D))" "m_starts ?m = m_starts (v_manager (d_server D))"
      using True background_starts [OF True]
      by (cases e; auto simp: background_def task_step_def task_callback_def split: option.split prod.split)+
    have "keeps_assistants ops (d_server D) ((d_server D)\<lparr>v_manager := ?m\<rparr>)" by (rule assistants_manager) (simp add: m)
    with server_ok_manager [OF assistants_invD(2) [OF a] m(1)] background_inv [OF assistants_invD(1) [OF a] True, of mtd ops]
      Background True
    show ?thesis by (auto intro!: assistants_keep [OF a])
  qed (use Background a in simp)
qed

end

section \<open>The running server\<close>

text \<open>A step outside the handlers leaves the starts alone.\<close>

lemma assistants_server:
  assumes a: "assistants_inv ok ops D"
    and m: "run_inv (v_manager sv)" "m_starts (v_manager sv) = m_starts (v_manager (d_server D))"
      "m_last (v_manager sv) = m_last (v_manager (d_server D))"
    and st: "ok (v_store sv)" "stored_assistant ops (v_store sv) = stored_assistant ops (v_store (d_server D))"
      "\<And>tid. known_thread ops (v_store (d_server D)) tid \<Longrightarrow> known_thread ops (v_store sv) tid"
  shows "assistants_inv ok ops (D\<lparr>d_server := sv\<rparr>)"
proof (rule assistants_keep [OF a])
  have "waits_in (D\<lparr>d_server := sv\<rparr>) h tid i = waits_in D h tid i" for h tid i by (simp add: waits_in_def)
  then show "handling_inv (D\<lparr>d_server := sv\<rparr>)"
    using assistants_invD(1) [OF a] m(1,2) by (simp add: handling_inv_def)
  show "server_ok ok ops (d_server (D\<lparr>d_server := sv\<rparr>))"
    using assistants_invD(2) [OF a] m(3) st(1,2) by (simp add: server_ok_def agrees_def no_empty_assistant_def)
  show "keeps_assistants ops (d_server D) (d_server (D\<lparr>d_server := sv\<rparr>))"
    using m(2) st(2,3) by (simp add: keeps_assistants_def)
qed simp

lemma assistants_core:
  assumes a: "assistants_inv ok ops D" and c: "core (v_manager sv) = core (v_manager (d_server D))"
    and st: "v_store sv = v_store (d_server D)"
  shows "assistants_inv ok ops (D\<lparr>d_server := sv\<rparr>)"
proof -
  have "run_inv (v_manager sv)"
    by (rule run_inv_frame [OF _ _ _ _ handling_invD(1) [OF assistants_invD(1) [OF a]]]) (use core_eqD [OF c] in simp_all)
  moreover have "ok (v_store sv)" using assistants_invD(2) [OF a] st by (simp add: server_ok_def)
  ultimately show ?thesis using core_eqD [OF c] st
    by (intro assistants_server [OF a]) (simp_all only: simp_thms)
qed

text \<open>Threads are created with new ids and metadata that the store keeps.\<close>

definition creates_new :: "(dict option \<Rightarrow> bool) \<Rightarrow> 's store_ops \<Rightarrow> 's serving \<Rightarrow> serving_event \<Rightarrow> bool" where
  "creates_new storable ops S ev =
     (case ev of
        CreateThread now raw ms b \<Rightarrow>
          so_get ops (uuid7 raw ms) (v_store (z_server S)) = Inr None \<and> storable (Some (thread_metadata b))
      | _ \<Rightarrow> True)"

fun all_create_new ::
  "(dict option \<Rightarrow> bool) \<Rightarrow> (pyval \<Rightarrow> exn + pyval) \<Rightarrow> 's store_ops \<Rightarrow> 's serving \<Rightarrow> serving_event list \<Rightarrow> bool" where
  "all_create_new storable mtd ops S [] = True"
| "all_create_new storable mtd ops S (ev # evs) =
     (creates_new storable ops S ev \<and> all_create_new storable mtd ops (serve_step mtd ops S ev) evs)"

lemma open_stream_core:
  "core (v_manager (snd (open_stream ops tid b sv))) = core (v_manager sv) \<and> v_store (snd (open_stream ops tid b sv)) = v_store sv"
  by (auto simp: open_stream_def Let_def split: sum.split option.split prod.split)

lemma open_conn_handling:
  "\<exists>sv. z_handling (open_conn ops tid b S) = (z_handling S)\<lparr>d_server := sv\<rparr> \<and>
     core (v_manager sv) = core (v_manager (z_server S)) \<and> v_store sv = v_store (z_server S)"
proof -
  obtain r sv where o: "open_stream ops tid b (z_server S) = (r, sv)" by fastforce
  then have "z_handling (open_conn ops tid b S) = (z_handling S)\<lparr>d_server := sv\<rparr>"
    by (simp add: open_conn_def set_server_def set_conn_def split: sum.split)
  with open_stream_core [of ops tid b "z_server S"] o show ?thesis by (intro exI [of _ sv]) simp
qed

lemma step_conn_handling:
  "\<exists>sv. z_handling (step_conn tid i h c S) = (z_handling S)\<lparr>d_server := sv\<rparr> \<and>
     core (v_manager sv) = core (v_manager (z_server S)) \<and> v_store sv = v_store (z_server S)"
  by (auto simp: step_conn_def set_server_def set_conn_def Let_def)

lemma cancel_run_server:
  "\<exists>m. snd (cancel_run ops tid rid sv) = sv\<lparr>v_manager := m\<rparr> \<and> (m = v_manager sv \<or> m = snd (cancel tid (PStr rid) (v_manager sv)))"
  by (auto simp: cancel_run_def Let_def split: sum.split option.split intro: exI [of _ "v_manager sv"])

context thread_store
begin

lemma serve_assistants:
  assumes a: "assistants_inv inv ops (z_handling S)" and c: "creates_new storable ops S ev"
  shows "assistants_inv inv ops (z_handling (serve_step mtd ops S ev))"
proof -
  note D = assistants_invD(1,2) [OF a]
  have run: "run_inv (v_manager (z_server S))" by (rule handling_invD(1) [OF D(1)])
  have store: "inv (v_store (z_server S))" using D(2) by (simp add: server_ok_def)
  have core: "assistants_inv inv ops (z_handling S')"
    if "\<exists>sv. z_handling S' = (z_handling S)\<lparr>d_server := sv\<rparr> \<and>
        core (v_manager sv) = core (v_manager (z_server S)) \<and> v_store sv = v_store (z_server S)" for S'
    using that assistants_core [OF a] by auto
  show ?thesis
  proof (cases ev)
    case (Handle e)
    with handle_assistants [OF a] show ?thesis by simp
  next
    case (CreateThread now raw ms b)
    with c have new: "get (uuid7 raw ms) (v_store (z_server S)) = Inr None" "storable (Some (thread_metadata b))"
      by (simp_all add: creates_new_def)
    from stored_create [OF store new(2,1), of now] obtain r st where
      st: "create now raw ms (Some (thread_metadata b)) (v_store (z_server S)) = Inr (r, st)" "inv st"
      "stored_assistant ops st = stored_assistant ops (v_store (z_server S))"
      "\<forall>tid. known_thread ops (v_store (z_server S)) tid \<longrightarrow> known_thread ops st tid" by blast
    have "snd (create_thread ops now raw ms b (z_server S)) = (z_server S)\<lparr>v_store := st\<rparr>"
      using st(1) by (simp add: create_thread_def Let_def flip: thread_metadata_def)
    moreover have "assistants_inv inv ops ((z_handling S)\<lparr>d_server := (z_server S)\<lparr>v_store := st\<rparr>\<rparr>)"
      using run st by (intro assistants_server [OF a]) simp_all
    ultimately show ?thesis by (simp add: CreateThread set_server_def)
  next
    case (CancelRun tid rid)
    obtain m where m: "snd (cancel_run ops tid rid (z_server S)) = (z_server S)\<lparr>v_manager := m\<rparr>"
      "m = v_manager (z_server S) \<or> m = snd (cancel tid (PStr rid) (v_manager (z_server S)))"
      using cancel_run_server [of ops tid rid "z_server S"] by blast
    have "assistants_inv inv ops ((z_handling S)\<lparr>d_server := (z_server S)\<lparr>v_manager := m\<rparr>\<rparr>)"
      using m(2) run store cancel_inv [OF run] by (intro assistants_server [OF a]) auto
    then show ?thesis by (simp add: CancelRun set_server_def m(1))
  next
    case (OpenStream tid b)
    then show ?thesis using core [OF open_conn_handling] by simp
  next
    case (ResumeStream tid i)
    with a show ?thesis by (auto intro: core [OF step_conn_handling] split: option.split prod.split)
  next
    case (TimeoutStream tid i)
    with a show ?thesis by (auto split: option.split)
  next
    case (CloseStream tid i)
    with a show ?thesis by (auto intro: core [OF step_conn_handling] split: option.split prod.split)
  qed
qed

lemma serve_run_assistants:
  "assistants_inv inv ops (z_handling S) \<Longrightarrow> all_create_new storable mtd ops S evs \<Longrightarrow>
   assistants_inv inv ops (z_handling (serve_run mtd ops S evs))"
  by (induction evs arbitrary: S) (auto intro: serve_assistants)

lemma start_assistants:
  assumes "inv st" and "no_empty_assistant ops st"
  shows "assistants_inv inv ops (z_handling (start_serving (create_protocol agents (Some st) st (Some n) None)))"
proof -
  have "run_inv (new_manager (new_registry agents) n)" by (rule run_inv_new)
  moreover have "m_last (new_manager (new_registry agents) n) = (\<lambda>_. None)" by (simp add: new_manager_def)
  ultimately show ?thesis using assms
    by (simp add: assistants_inv_def handling_inv_def waits_in_def server_ok_def agrees_def start_serving_def create_protocol_def)
qed

lemma served_assistants:
  assumes "inv st" and "no_empty_assistant ops st"
    and "all_create_new storable mtd ops (served mtd ops agents st n []) evs"
  shows "assistants_inv inv ops (z_handling (served mtd ops agents st n evs))"
  unfolding served_def
  by (rule serve_run_assistants [OF start_assistants [OF assms(1,2)]]) (use assms(3) in \<open>simp add: served_def\<close>)

lemma last_is_stored:
  assumes "inv st" and "no_empty_assistant ops st"
    and "all_create_new storable mtd ops (served mtd ops agents st n []) evs"
    and "last_assistant tid (v_manager (z_server (served mtd ops agents st n evs))) = Some a"
  shows "\<exists>aid. stored_assistant ops (v_store (z_server (served mtd ops agents st n evs))) tid = Some aid \<and> a = PStr aid"
  using served_assistants [OF assms(1-3)] assms(4) by (auto simp: assistants_inv_def server_ok_def agrees_def)

end

text \<open>Both stores.\<close>

lemmas last_in_memory = memory.last_is_stored
lemmas last_in_sqlite = sqlite.last_is_stored

section \<open>Properties\<close>

text \<open>C18: state is read through the graph that wrote it. From any database whose rows can be read and
  hold no empty assistant, as after a restart, whatever requests, disconnecting clients, runs and
  connections do: if the run manager's last run on a thread is of an assistant, then that
  assistant is the one stored on the thread's row, which state, history and \<open>input.respond\<close>
  resolve.\<close>

theorem last_assistant_stored:
  assumes "sqlite_inv st" and "no_empty_assistant sqlite.ops st"
    and "all_create_new json_metadata mtd sqlite.ops (served mtd sqlite.ops agents st n []) evs"
    and "last_assistant tid (v_manager (z_server (served mtd sqlite.ops agents st n evs))) = Some a"
  shows "\<exists>aid. stored_assistant sqlite.ops (v_store (z_server (served mtd sqlite.ops agents st n evs))) tid = Some aid \<and>
     a = PStr aid"
  using assms by (rule last_in_sqlite)

definition stored_demo :: "serving_event list" where
  "stored_demo =
     [CreateThread ''now'' (replicate 16 1) 1000 (Inl (ValueError [])),
      Handle (Arrive ''r1'' (uuid7 (replicate 16 1) 1000) start_body), Handle (Proceed 0 ''later'' ''r2'')]"

theorem last_assistant_stored_witness:
  "stored_assistant sqlite.ops (v_store (z_server (served plain_message sqlite.ops (Some demo_registry)
     (sqlite_connect None) 5 stored_demo))) (uuid7 (replicate 16 1) 1000) = Some ''a''"
proof -
  have "sqlite_inv (sqlite_connect None)" "no_empty_assistant sqlite.ops (sqlite_connect None)"
    by (simp_all add: sqlite_inv_def sqlite_connect_def no_empty_assistant_def stored_assistant_def sqlite_get_def select_row_def)
  moreover have "all_create_new json_metadata plain_message sqlite.ops
      (served plain_message sqlite.ops (Some demo_registry) (sqlite_connect None) 5 []) stored_demo"
    by (simp add: stored_demo_def creates_new_def served_def start_serving_def create_protocol_def sqlite_connect_def
        sqlite_get_def select_row_def thread_metadata_def body_dict_def json_metadata_def dict_wf_def dkeys_def)
  moreover have "last_assistant (uuid7 (replicate 16 1) 1000) (v_manager (z_server (served plain_message sqlite.ops
      (Some demo_registry) (sqlite_connect None) 5 stored_demo))) = Some (PStr ''a'')"
    unfolding sqlite.ops_def by code_simp
  ultimately show ?thesis using last_assistant_stored by fastforce
qed

end
