(* ===== verification/Pending.thy ===== *)
theory Pending
  imports RunTrace
begin

text \<open>
  The pending interrupts of \<open>runner.py\<close>. \<open>_pending_inputs\<close>, \<open>_last_assistant\<close> and the tasks are
  written by different coroutines (\<open>start\<close> after its await, \<open>_execute\<close> at its end); the invariant
  says how they belong together: what is pending on a thread was raised by the last run of the
  thread, which is over, and \<open>_last_assistant\<close> is the assistant of that run.
\<close>

section \<open>The last run of a thread\<close>

definition last_run :: "manager \<Rightarrow> string \<Rightarrow> nat \<Rightarrow> task \<Rightarrow> bool" where
  "last_run m tid j t =
     (m_tasks m j = Some t \<and> t_thread t = tid \<and> (\<forall>k u. m_tasks m k = Some u \<longrightarrow> t_thread u = tid \<longrightarrow> k \<le> j))"

lemma last_runD:
  assumes "last_run m tid j t"
  shows "m_tasks m j = Some t" "t_thread t = tid" "m_tasks m k = Some u \<Longrightarrow> t_thread u = tid \<Longrightarrow> k \<le> j"
  using assms by (auto simp: last_run_def)

text \<open>The pending map is the one that the run registered when it ended.\<close>

definition raised_by :: "dict \<Rightarrow> task \<Rightarrow> bool" where
  "raised_by d t = (t_stage t = Settled \<and> (\<exists>interrupts. interrupts \<noteq> [] \<and> d = pending_map (t_assistant t) interrupts))"

definition pending_inv :: "manager \<Rightarrow> bool" where
  "pending_inv m =
     (run_inv m \<and>
      (\<forall>tid d. m_pending m tid = Some d \<longrightarrow> (\<exists>j t. last_run m tid j t \<and> raised_by d t)) \<and>
      (\<forall>tid j t. last_run m tid j t \<longrightarrow> m_last m tid = Some (t_assistant t)) \<and>
      (\<forall>j t. m_tasks m j = Some t \<longrightarrow> t_stage t \<noteq> Settled \<longrightarrow>
         last_run m (t_thread t) j t \<and> m_pending m (t_thread t) = None))"

lemma pending_invD:
  assumes "pending_inv m"
  shows "run_inv m"
    "m_pending m tid = Some d \<Longrightarrow> \<exists>j t. last_run m tid j t \<and> raised_by d t"
    "last_run m tid j t \<Longrightarrow> m_last m tid = Some (t_assistant t)"
    "m_tasks m j = Some t \<Longrightarrow> t_stage t \<noteq> Settled \<Longrightarrow> last_run m (t_thread t) j t"
    "m_tasks m j = Some t \<Longrightarrow> t_stage t \<noteq> Settled \<Longrightarrow> m_pending m (t_thread t) = None"
  using assms by (simp_all add: pending_inv_def)

lemma pending_inv_new: "pending_inv (new_manager reg n)"
  by (simp add: pending_inv_def run_inv_new) (simp add: new_manager_def last_run_def)

lemma last_run_tasks: "m_tasks m' = m_tasks m \<Longrightarrow> last_run m' = last_run m"
  by (simp add: last_run_def fun_eq_iff)

lemma pending_frame:
  assumes "pending_inv m" and "run_inv m'" and "m_tasks m' = m_tasks m" "m_pending m' = m_pending m" "m_last m' = m_last m"
  shows "pending_inv m'"
  using assms(1,2) unfolding pending_inv_def last_run_tasks [OF assms(3)] assms(3-5) by simp

section \<open>The steps\<close>

text \<open>A task changes and keeps its thread and its assistant: the last runs are the same.\<close>

lemma last_run_update:
  assumes t: "m_tasks m j = Some t" and t': "t_thread t' = t_thread t" and m': "m_tasks m' = (m_tasks m)(j \<mapsto> t')"
  shows "last_run m' tid k u \<longleftrightarrow> (if k = j then u = t' \<and> last_run m tid j t else last_run m tid k u)"
proof -
  have "(\<exists>v. m_tasks m' i = Some v \<and> t_thread v = tid) \<longleftrightarrow> (\<exists>v. m_tasks m i = Some v \<and> t_thread v = tid)" for i
    using t t' by (simp add: m')
  then have "(\<forall>i v. m_tasks m' i = Some v \<longrightarrow> t_thread v = tid \<longrightarrow> i \<le> k) \<longleftrightarrow>
        (\<forall>i v. m_tasks m i = Some v \<longrightarrow> t_thread v = tid \<longrightarrow> i \<le> k)" by blast
  then show ?thesis using t t' by (auto simp: last_run_def m')
qed

lemma pending_update:
  assumes inv: "pending_inv m" and t: "m_tasks m j = Some t"
    and t': "t_thread t' = t_thread t" "t_assistant t' = t_assistant t" "t_stage t = Settled \<longrightarrow> t' = t"
    and m': "run_inv m'" "m_tasks m' = (m_tasks m)(j \<mapsto> t')" "m_last m' = m_last m"
      "m_pending m' = (case pd of None \<Rightarrow> m_pending m | Some d \<Rightarrow> (m_pending m)(t_thread t \<mapsto> d))"
    and pd: "\<And>d. pd = Some d \<Longrightarrow> t_stage t \<noteq> Settled \<and> raised_by d t'"
  shows "pending_inv m'"
proof -
  note last = last_run_update [OF t t'(1) m'(2)]
  have "\<exists>k u. last_run m' tid k u \<and> raised_by d u" if d: "m_pending m' tid = Some d" for tid d
  proof (cases "pd \<noteq> None \<and> tid = t_thread t")
    case True
    with d m'(4) have e: "pd = Some d" by (auto split: option.splits)
    with pd have "t_stage t \<noteq> Settled" "raised_by d t'" by blast+
    moreover from this(1) have "last_run m (t_thread t) j t" by (rule pending_invD(4) [OF inv t])
    ultimately show ?thesis using last True by (intro exI [of _ j] exI [of _ t']) simp
  next
    case False
    with d m'(4) have "m_pending m tid = Some d" by (auto split: option.splits)
    from pending_invD(2) [OF inv this] obtain k u where u: "last_run m tid k u" "raised_by d u" by blast
    show ?thesis
    proof (cases "k = j")
      case True
      with u t have "u = t" by (simp add: last_run_def)
      with u t'(3) have "t' = t" by (simp add: raised_by_def)
      with u True \<open>u = t\<close> last show ?thesis by (intro exI [of _ j] exI [of _ t]) simp
    next
      case other: False
      with u last show ?thesis by (intro exI [of _ k] exI [of _ u]) simp
    qed
  qed
  moreover have "m_last m' tid = Some (t_assistant u)" if "last_run m' tid k u" for tid k u
    using that last pending_invD(3) [OF inv] t'(2) by (auto simp: m'(3) split: if_splits)
  moreover have "last_run m' (t_thread u) k u \<and> m_pending m' (t_thread u) = None"
    if u: "m_tasks m' k = Some u" "t_stage u \<noteq> Settled" for k u
  proof (cases "k = j")
    case True
    with u m'(2) have "u = t'" by simp
    with u t'(3) have "t_stage t \<noteq> Settled" by auto
    moreover have "pd = None" using pd u \<open>u = t'\<close> by (cases pd) (auto simp: raised_by_def)
    ultimately show ?thesis using pending_invD(4,5) [OF inv t] last True \<open>u = t'\<close> t'(1) m'(4) by simp
  next
    case False
    with u m'(2) have old: "m_tasks m k = Some u" by simp
    have "t_thread u \<noteq> t_thread t" if "t_stage t \<noteq> Settled"
      using occupant_unique [OF pending_invD(1) [OF inv], of "Running k" "t_thread t" "Running j"]
        task_occupies [OF old u(2)] task_occupies [OF t that] False by auto
    with pd pending_invD(4,5) [OF inv old u(2)] last False m'(4) show ?thesis by (auto split: option.splits)
  qed
  ultimately show ?thesis using m'(1) by (simp add: pending_inv_def)
qed

text \<open>A new run takes over its thread.\<close>

lemma last_run_new:
  assumes inv: "run_inv m" and m': "m_tasks m' = (m_tasks m)(m_next m \<mapsto> t)"
  shows "last_run m' tid j u \<longleftrightarrow> (if tid = t_thread t then j = m_next m \<and> u = t else last_run m tid j u)"
proof -
  have old: "k < m_next m" if "m_tasks m k = Some v" for k v
    using run_invD(2) [OF inv that] by (simp add: task_inv_def)
  show ?thesis
  proof (cases "tid = t_thread t")
    case True
    have "k \<le> m_next m" if "m_tasks m' k = Some v" for k v using that old [of k v] by (auto simp: m' split: if_splits)
    moreover have "j = m_next m" if "last_run m' tid j u"
      using last_runD(3) [OF that, of "m_next m" t] last_runD(1) [OF that] old [of j u] True
      by (auto simp: m' split: if_splits)
    moreover have "u = t" if "last_run m' tid (m_next m) u" using last_runD(1) [OF that] by (simp add: m')
    moreover have "last_run m' tid (m_next m) t" using True calculation(1) by (simp add: last_run_def m')
    ultimately show ?thesis using True by metis
  next
    case False
    have "(\<forall>k v. m_tasks m' k = Some v \<longrightarrow> t_thread v = tid \<longrightarrow> k \<le> j) \<longleftrightarrow>
          (\<forall>k v. m_tasks m k = Some v \<longrightarrow> t_thread v = tid \<longrightarrow> k \<le> j)"
      using False old by (force simp: m')
    moreover have "m_tasks m' j = Some u \<and> t_thread u = tid \<longleftrightarrow> m_tasks m j = Some u \<and> t_thread u = tid"
      using False old [of j u] by (auto simp: m')
    ultimately have "last_run m' tid j u \<longleftrightarrow> last_run m tid j u" unfolding last_run_def conj_assoc [symmetric] by (simp only:)
    with False show ?thesis by simp
  qed
qed

lemma pending_new_run:
  assumes inv: "pending_inv m" and t: "t_thread t = tid" "t_assistant t = aid"
    and free: "\<And>j u. m_tasks m j = Some u \<Longrightarrow> t_stage u \<noteq> Settled \<Longrightarrow> t_thread u \<noteq> tid"
    and m': "run_inv m'" "m_tasks m' = (m_tasks m)(m_next m \<mapsto> t)" "m_pending m' = (m_pending m)(tid := None)"
      "m_last m' = (m_last m)(tid \<mapsto> aid)"
  shows "pending_inv m'"
proof -
  note last = last_run_new [OF pending_invD(1) [OF inv] m'(2)]
  have "\<exists>j u. last_run m' k j u \<and> raised_by d u" if "m_pending m' k = Some d" for k d
    using that pending_invD(2) [OF inv, of k d] last t(1) by (auto simp: m'(3) split: if_splits)
  moreover have "m_last m' k = Some (t_assistant u)" if "last_run m' k j u" for k j u
    using that last t pending_invD(3) [OF inv] by (auto simp: m'(4) split: if_splits)
  moreover have "last_run m' (t_thread u) j u \<and> m_pending m' (t_thread u) = None"
    if "m_tasks m' j = Some u" "t_stage u \<noteq> Settled" for j u
    using that last t(1) free [of j u] pending_invD(4,5) [OF inv, of j u]
    by (auto simp: m'(2,3) split: if_splits)
  ultimately show ?thesis using m'(1) by (simp add: pending_inv_def)
qed

lemma pending_start_finish:
  assumes inv: "pending_inv m" and p: "m_starts m i = Some p"
  shows "pending_inv (snd (start_finish i p m))"
proof -
  note run = pending_invD(1) [OF inv]
  show ?thesis
  proof (cases "\<exists>e. fst (start_finish i p m) = Inl e")
    case True
    then show ?thesis
      by (intro pending_frame [OF inv start_finish_inv [OF run p]])
         (auto simp: start_finish_def Let_def split: sum.splits)
  next
    case False
    then obtain g rc where g: "p_outcome p = Inr g" "run_config (p_thread p) (p_config p) (p_metadata p) = Inr rc"
      by (auto simp: start_finish_def Let_def split: sum.splits)
    show ?thesis
      by (rule pending_new_run [OF inv, of "new_task (p_thread p) (p_run_id p) (p_assistant p)
            (rg_stream g (p_input p) (PDict rc)) (map_option (\<lambda>f. f (PDict rc)) (rg_getter g))" "p_thread p" "p_assistant p"])
         (use only_start(2) [OF run p] start_finish_inv [OF run p] in \<open>auto simp: new_task_def start_finish_def g Let_def\<close>)
  qed
qed

lemma fail_task_assistant: "fail_task e t = (out, t') \<Longrightarrow> t_assistant t' = t_assistant t"
  by (auto simp: fail_task_def settle_def split: prod.splits option.splits)

lemma cancel_task_assistant: "cancel_task t = (out, t') \<Longrightarrow> t_assistant t' = t_assistant t"
  by (auto simp: cancel_task_def settle_def split: prod.splits option.splits)

lemma take_item_assistant: "take_item mtd it t = (out, t') \<Longrightarrow> t_assistant t' = t_assistant t"
  by (auto simp: take_item_def dest: fail_task_assistant split: item.splits prod.splits option.splits sum.splits)

lemma conclude_pending:
  assumes "conclude vs t = (out, pd, t')"
  shows "t_assistant t' = t_assistant t \<and> (\<forall>d. pd = Some d \<longrightarrow> raised_by d t')"
  using assms
  by (auto simp: conclude_def raised_by_def settle_def dest: fail_task_assistant
      split: sum.splits prod.splits option.splits if_splits)

lemma exec_step_pending:
  assumes "exec_step mtd t = (out, pd, t')"
  shows "t_assistant t' = t_assistant t \<and> (t_stage t = Settled \<longrightarrow> t' = t \<and> pd = None) \<and>
     (\<forall>d. pd = Some d \<longrightarrow> raised_by d t')"
  using assms
  by (auto simp: exec_step_def settle_def dest: fail_task_assistant cancel_task_assistant take_item_assistant conclude_pending
      split: stage.splits if_splits list.splits option.splits sum.splits prod.splits)

lemma pending_task_step:
  assumes inv: "pending_inv m"
  shows "pending_inv (task_step mtd j ts m)"
proof (cases "m_tasks m j")
  case None
  with inv show ?thesis by (simp add: task_step_def)
next
  case (Some t)
  obtain out pd t' where e: "exec_step mtd t = (out, pd, t')" by (metis prod_cases3)
  from exec_step_ids [OF e] have th: "t_thread t' = t_thread t" by simp
  show ?thesis
    by (rule pending_update [OF inv Some th, of _ pd])
       (use exec_step_pending [OF e] task_step_inv [OF pending_invD(1) [OF inv], of mtd j ts] in
         \<open>auto simp: task_step_def Some e\<close>)
qed

lemma pending_request:
  assumes inv: "pending_inv m"
    and run: "run_inv (m\<lparr>m_tasks := (m_tasks m)(j := map_option request_cancel (m_tasks m j))\<rparr>)"
  shows "pending_inv (m\<lparr>m_tasks := (m_tasks m)(j := map_option request_cancel (m_tasks m j))\<rparr>)"
proof (cases "m_tasks m j")
  case None
  with inv show ?thesis by (simp add: fun_upd_idem)
next
  case (Some t)
  show ?thesis
    by (rule pending_update [OF inv Some, of "request_cancel t" _ None]) (use run Some in \<open>simp_all add: request_cancel_def\<close>)
qed

lemma pending_cancel:
  assumes inv: "pending_inv m"
  shows "pending_inv (snd (cancel tid rid m))"
  using inv cancel_inv [OF pending_invD(1) [OF inv], of tid rid]
  by (auto simp: cancel_def intro: pending_request split: option.splits owner.splits if_splits)

lemma pending_reserve:
  assumes inv: "pending_inv m" and s: "start_reserve tid aid inp config metadata rid m = Inr (i, m')"
  shows "pending_inv m'"
  by (rule pending_frame [OF inv start_reserve_inv [OF pending_invD(1) [OF inv] s]])
     (use s in \<open>auto simp: start_reserve_def Let_def split: option.splits\<close>)

lemma pending_step:
  assumes inv: "pending_inv m"
  shows "pending_inv (run_step mtd m ev)"
proof -
  note run = run_inv_step [OF pending_invD(1) [OF inv], of mtd ev]
  show ?thesis
  proof (cases ev)
    case (StartCall tid aid inp config metadata rid)
    with inv show ?thesis by (auto dest: pending_reserve split: sum.split)
  next
    case (RespondCall tid iid response aid rid)
    with inv show ?thesis by (auto simp: respond_reserve_def dest: pending_reserve split: sum.split)
  next
    case (StartDone i)
    with inv show ?thesis by (auto intro: pending_start_finish split: option.split)
  next
    case (TaskStep j ts)
    with inv show ?thesis by (simp add: pending_task_step)
  next
    case (CancelCall tid rid)
    with inv show ?thesis by (simp add: pending_cancel)
  next
    case (TaskCallback j)
    show ?thesis by (rule pending_frame [OF inv run]) (simp_all add: TaskCallback task_callback_def split: option.split)
  next
    case (StartCancelled i)
    show ?thesis by (rule pending_frame [OF inv run]) (simp_all add: StartCancelled start_cancelled_def)
  next
    case (RegisterCall aid f)
    show ?thesis by (rule pending_frame [OF inv run]) (simp_all add: RegisterCall)
  qed
qed

interpretation pendings: event_system "run_step mtd" pending_inv for mtd
  by unfold_locales (rule pending_step)

lemma reached_pending: "pending_inv (reached mtd reg n evs)"
  unfolding reached_def by (rule pendings.inv_run [OF pending_inv_new])

section \<open>When pending interrupts are consumed\<close>

text \<open>
  A start consumes the pending interrupts as soon as its graph is resolved, before its run begins:
  if the run is cancelled before the first step of its task, they are gone although no run answered
  them, nothing was published, and the thread is free again after the callback.
\<close>

lemma consumed_before_run:
  assumes s: "start_finish i p m = (Inr rid, m1)"
    and m2: "m2 = task_step mtd (m_next m) ts (snd (cancel (p_thread p) PNone m1))"
  shows "m_pending m2 (p_thread p) = None \<and> m_hubs m2 = m_hubs m \<and>
     (\<exists>t. m_tasks m2 (m_next m) = Some t \<and> t_outcome t = Some Cancelled) \<and>
     m_active (task_callback (m_next m) m2) (p_thread p) = None"
proof -
  obtain g rc where g: "p_outcome p = Inr g" "run_config (p_thread p) (p_config p) (p_metadata p) = Inr rc"
    using s by (auto simp: start_finish_def Let_def split: sum.splits)
  then have m1: "m1 = snd (start_finish i p m)" using s by simp
  show ?thesis unfolding m2 m1
    by (simp add: g start_finish_def Let_def cancel_def task_step_def exec_step_def new_task_def request_cancel_def
        settle_def task_callback_def owned_by_def)
qed

end
