(* ===== verification/Resume.thy ===== *)
theory Resume
  imports LastAssistant Pending
begin

text \<open>
  Which graph an answer resumes. \<open>input.respond\<close> takes the assistant from the thread's row, the
  interrupt is pending in the run manager, and both were written at different times by other
  coroutines: the row by the handler of an earlier start, the pending map by a run. The lemmas
  join the invariants of \<open>Pending\<close> and \<open>LastAssistant\<close>: what a client answers always resumes the
  graph that asked.
\<close>

section \<open>The pending interrupts of a running server\<close>

lemma pending_core:
  assumes c: "core m = core m'" and inv: "pending_inv m'"
  shows "pending_inv m"
proof -
  note f = core_eqD [OF c]
  have "run_inv m" by (rule run_inv_frame [OF _ _ _ _ pending_invD(1) [OF inv]]) (use f in simp_all)
  then show ?thesis by (rule pending_frame [OF inv]) (use f in simp_all)
qed

lemma served_pending: "pending_inv (v_manager (z_server (served mtd ops agents st n evs)))"
proof -
  obtain res where "manages (served mtd ops agents st n evs) (traced_reached mtd (new_registry agents) n res)"
    using served_manages [of mtd ops agents st n evs] by (elim exE)
  then have "core (v_manager (z_server (served mtd ops agents st n evs))) = core (reached mtd (new_registry agents) n res)"
    by (simp add: manages_def traced_reached_fst)
  then show ?thesis by (rule pending_core [OF _ reached_pending])
qed

context thread_store
begin

lemma resumes_asker:
  assumes "inv st" and "no_empty_assistant ops st"
    and "all_create_new storable mtd ops (served mtd ops agents st n []) evs"
    and w: "d_waiting (z_handling (served mtd ops agents st n evs)) h = Some (AwaitRespond tid cid i)"
    and d: "m_pending (v_manager (z_server (served mtd ops agents st n evs))) tid = Some asked"
  shows "\<exists>p response j t. m_starts (v_manager (z_server (served mtd ops agents st n evs))) i = Some p \<and>
     p_thread p = tid \<and> p_input p = CommandResume response \<and>
     last_run (v_manager (z_server (served mtd ops agents st n evs))) tid j t \<and> raised_by asked t \<and>
     p_assistant p = t_assistant t"
proof -
  let ?S = "served mtd ops agents st n evs"
  let ?m = "v_manager (z_server ?S)"
  note a = served_assistants [OF assms(1-3)]
  have "waits_in (z_handling ?S) h tid i" using w by (simp add: waits_in_def)
  from handling_invD(2) [OF assistants_invD(1) [OF a] this] obtain p where
    p: "m_starts ?m i = Some p" "p_thread p = tid" by blast
  with assistants_invD(3) [OF a w] obtain s response where
    s: "stored_assistant ops (v_store (z_server ?S)) tid = Some s" "p_assistant p = PStr s" "p_input p = CommandResume response"
    by auto
  from pending_invD(2) [OF served_pending d] obtain j t where t: "last_run ?m tid j t" "raised_by asked t" by blast
  have "m_last ?m tid = Some (t_assistant t)" by (rule pending_invD(3) [OF served_pending t(1)])
  from last_is_stored [OF assms(1-3) this] s have "p_assistant p = t_assistant t" by simp
  with p s(3) t show ?thesis by blast
qed

end

lemmas resumes_in_memory = memory.resumes_asker
lemmas resumes_in_sqlite = sqlite.resumes_asker

section \<open>Properties\<close>

text \<open>C19: an answer resumes the graph that asked. From any database whose rows can be read and hold no
  empty assistant, whatever requests, disconnecting clients, runs and connections do: while
  \<open>input.respond\<close> starts a resuming run on a thread with pending interrupts, they were raised by
  the thread's last run, which is over, and the run that starts is a resuming one of the same
  assistant, although the handler read its id from the thread's row and not from that run.\<close>

theorem respond_resumes_asker:
  assumes "sqlite_inv st" and "no_empty_assistant sqlite.ops st"
    and "all_create_new json_metadata mtd sqlite.ops (served mtd sqlite.ops agents st n []) evs"
    and "d_waiting (z_handling (served mtd sqlite.ops agents st n evs)) h = Some (AwaitRespond tid cid i)"
    and "m_pending (v_manager (z_server (served mtd sqlite.ops agents st n evs))) tid = Some asked"
  shows "\<exists>p response j t. m_starts (v_manager (z_server (served mtd sqlite.ops agents st n evs))) i = Some p \<and>
     p_thread p = tid \<and> p_input p = CommandResume response \<and>
     last_run (v_manager (z_server (served mtd sqlite.ops agents st n evs))) tid j t \<and> raised_by asked t \<and>
     p_assistant p = t_assistant t"
  using assms by (rule resumes_in_sqlite)

text \<open>A graph that asks and whose state lists the interrupt, and a client that starts it and answers.\<close>

definition patient_graph :: run_graph where
  "patient_graph = asking_graph\<lparr>rg_reads :=
     \<lparr>g_alist = None,
      g_state = (\<lambda>config. Inr \<lparr>n_values = PDict [], n_next = [], n_tasks = [],
        n_interrupts = [PObj None [(''id'', PStr ''i''), (''value'', PStr ''ok?'')] [] []],
        n_metadata = PNone, n_created = NotCreated\<rparr>)\<rparr>\<rparr>"

definition patient_registry :: "run_graph registry" where
  "patient_registry = [(''a'', \<lambda>config. Inr (Graph patient_graph))]"

definition answer_body :: body where
  "answer_body = Inr (PDict [(''id'', PInt 2), (''method'', PStr ''input.respond''),
                             (''params'', PDict [(''interrupt_id'', PStr ''i''), (''response'', PBool True)])])"

definition resume_demo :: "serving_event list" where
  "resume_demo = stored_demo @
     map (\<lambda>ev. Handle (Background ev)) [TaskStep 1 int, TaskStep 1 int, TaskStep 1 int, TaskCallback 1] @
     [Handle (Arrive ''r4'' (uuid7 (replicate 16 1) 1000) answer_body),
      Handle (Proceed 1 ''later'' ''r5''), Handle (Proceed 1 ''later'' ''r6'')]"

definition resumed :: "sqlite_store serving" where
  "resumed = served plain_message sqlite.ops (Some patient_registry) (sqlite_connect None) 5 resume_demo"

lemma resumed_state:
  "\<exists>cid d. d_waiting (z_handling resumed) 1 = Some (AwaitRespond (uuid7 (replicate 16 1) 1000) cid 2) \<and>
     m_pending (v_manager (z_server resumed)) (uuid7 (replicate 16 1) 1000) = Some d"
proof -
  have "case (d_waiting (z_handling resumed) 1, m_pending (v_manager (z_server resumed)) (uuid7 (replicate 16 1) 1000)) of
      (Some (AwaitRespond tid cid i), Some d) \<Rightarrow> tid = uuid7 (replicate 16 1) 1000 \<and> i = 2
    | _ \<Rightarrow> False"
    unfolding resumed_def sqlite.ops_def by code_simp
  then show ?thesis by (auto split: option.splits waiting.splits)
qed

lemma resume_demo_new:
  "all_create_new json_metadata plain_message sqlite.ops
     (served plain_message sqlite.ops (Some patient_registry) (sqlite_connect None) 5 []) resume_demo"
proof -
  have "creates_new json_metadata sqlite.ops (served plain_message sqlite.ops (Some patient_registry) (sqlite_connect None) 5 [])
      (CreateThread ''now'' (replicate 16 1) 1000 (Inl (ValueError [])))"
    by (simp add: creates_new_def served_def start_serving_def create_protocol_def sqlite_connect_def
        sqlite_get_def select_row_def thread_metadata_def body_dict_def json_metadata_def dict_wf_def dkeys_def)
  moreover have "creates_new json_metadata sqlite.ops S (Handle e)" for S e by (simp add: creates_new_def)
  ultimately show ?thesis by (simp add: resume_demo_def stored_demo_def del: serve_step.simps)
qed

theorem respond_resumes_asker_witness:
  "\<exists>p response j t. m_starts (v_manager (z_server resumed)) 2 = Some p \<and> p_input p = CommandResume response \<and>
     last_run (v_manager (z_server resumed)) (uuid7 (replicate 16 1) 1000) j t \<and> p_assistant p = t_assistant t"
proof -
  obtain cid d where w: "d_waiting (z_handling resumed) 1 = Some (AwaitRespond (uuid7 (replicate 16 1) 1000) cid 2)"
    "m_pending (v_manager (z_server resumed)) (uuid7 (replicate 16 1) 1000) = Some d"
    using resumed_state by blast
  have "sqlite_inv (sqlite_connect None)" "no_empty_assistant sqlite.ops (sqlite_connect None)"
    by (simp_all add: sqlite_inv_def sqlite_connect_def no_empty_assistant_def stored_assistant_def sqlite_get_def select_row_def)
  from respond_resumes_asker [OF this resume_demo_new w [unfolded resumed_def]]
  show ?thesis unfolding resumed_def by blast
qed

end
