(* ===== verification/Routes.thy ===== *)
theory Routes
  imports Router
begin

text \<open>
  The table of routes that \<open>build_router\<close> declares: every endpoint with its method and path, and
  what serves it. Matching a request against the paths and parsing its query are the web
  framework's; what the source decides is the table. The lemmas show that the table is
  unambiguous and what all its endpoints have in common.
\<close>

section \<open>Endpoints\<close>

datatype endpoint =
    PostThreads
  | GetState string
  | GetHistory string
  | PostHistory string
  | PostCommands string
  | PostCancel string string
  | PostStream string
  | PostStreamEvents string
  | GetInfo

datatype verb = VGet | VPost

definition thread_path :: "string \<Rightarrow> string \<Rightarrow> string" where
  "thread_path tid rest = ''/threads/'' @ tid @ ''/'' @ rest"

fun declared :: "endpoint \<Rightarrow> verb \<times> string" where
  "declared PostThreads = (VPost, ''/threads'')"
| "declared (GetState tid) = (VGet, thread_path tid ''state'')"
| "declared (GetHistory tid) = (VGet, thread_path tid ''history'')"
| "declared (PostHistory tid) = (VPost, thread_path tid ''history'')"
| "declared (PostCommands tid) = (VPost, thread_path tid ''commands'')"
| "declared (PostCancel tid rid) = (VPost, thread_path tid (''runs/'' @ rid @ ''/cancel''))"
| "declared (PostStream tid) = (VPost, thread_path tid ''stream'')"
| "declared (PostStreamEvents tid) = (VPost, thread_path tid ''stream/events'')"
| "declared GetInfo = (VGet, ''/info'')"

fun thread_of :: "endpoint \<Rightarrow> string option" where
  "thread_of (GetState tid) = Some tid"
| "thread_of (GetHistory tid) = Some tid"
| "thread_of (PostHistory tid) = Some tid"
| "thread_of (PostCommands tid) = Some tid"
| "thread_of (PostCancel tid rid) = Some tid"
| "thread_of (PostStream tid) = Some tid"
| "thread_of (PostStreamEvents tid) = Some tid"
| "thread_of PostThreads = None"
| "thread_of GetInfo = None"

section \<open>What serves them\<close>

text \<open>
  The parsed query of \<open>GET history\<close>, the body, and what a handler takes from its surroundings:
  the clock as text and in milliseconds, random bytes, and a fresh run id.
\<close>

record request =
  rq_limit :: int
  rq_before :: "string option"
  rq_body :: body

record ambient =
  am_now :: string
  am_ms :: int
  am_random :: bytes
  am_run_id :: string

text \<open>A reply, or a stream of events read from the subscription of that address.\<close>

datatype response = Answer reply | EventStream nat

definition stream_response :: "(exn + ((nat \<times> pyval) + nat)) \<times> 's server \<Rightarrow> response \<times> 's server" where
  "stream_response x =
     (case x of
        (Inl e, sv) \<Rightarrow> (Answer (Inl e), sv)
      | (Inr (Inl r), sv) \<Rightarrow> (Answer (Inr r), sv)
      | (Inr (Inr i), sv) \<Rightarrow> (EventStream i, sv))"

fun serve ::
  "(pyval \<Rightarrow> exn + pyval) \<Rightarrow> 's store_ops \<Rightarrow> ambient \<Rightarrow> request \<Rightarrow> endpoint \<Rightarrow> 's server \<Rightarrow>
   response \<times> 's server" where
  "serve mtd ops am rq PostThreads sv =
     apfst Answer (create_thread ops (am_now am) (am_random am) (am_ms am) (rq_body rq) sv)"
| "serve mtd ops am rq (GetState tid) sv = (Answer (get_state mtd ops tid sv), sv)"
| "serve mtd ops am rq (GetHistory tid) sv =
     (Answer (get_history mtd ops tid (rq_limit rq) (rq_before rq) sv), sv)"
| "serve mtd ops am rq (PostHistory tid) sv = (Answer (search_history mtd ops tid (rq_body rq) sv), sv)"
| "serve mtd ops am rq (PostCommands tid) sv =
     apfst Answer (dispatch_command mtd ops (am_now am) (am_run_id am) tid (rq_body rq) sv)"
| "serve mtd ops am rq (PostCancel tid rid) sv = apfst Answer (cancel_run ops tid rid sv)"
| "serve mtd ops am rq (PostStream tid) sv = stream_response (open_stream ops tid (rq_body rq) sv)"
| "serve mtd ops am rq (PostStreamEvents tid) sv = stream_response (open_stream ops tid (rq_body rq) sv)"
| "serve mtd ops am rq GetInfo sv = (Answer (Inr (200, info sv)), sv)"

section \<open>Paths\<close>

text \<open>A path parameter is one segment.\<close>

definition segment :: "string \<Rightarrow> bool" where
  "segment s = list_all (\<lambda>c. c \<noteq> CHR ''/'') s"

fun segment_params :: "endpoint \<Rightarrow> bool" where
  "segment_params (PostCancel tid rid) = (segment tid \<and> segment rid)"
| "segment_params e = (case thread_of e of Some tid \<Rightarrow> segment tid | None \<Rightarrow> True)"

fun segments :: "string \<Rightarrow> string list" where
  "segments [] = [[]]"
| "segments (c # cs) =
     (if c = CHR ''/'' then [] # segments cs
      else (case segments cs of s # ss \<Rightarrow> (c # s) # ss | [] \<Rightarrow> [[c]]))"

lemma segments_step: "segment s \<Longrightarrow> segments (s @ CHR ''/'' # rest) = s # segments rest"
  by (induction s) (auto simp: segment_def)

lemma thread_path_segments:
  "segment tid \<Longrightarrow> segments (thread_path tid rest) = [] # ''threads'' # tid # segments rest"
  by (simp add: thread_path_def segments_step)

lemma declared_segments:
  assumes "segment_params e"
  shows "segments (snd (declared e)) =
     (case e of
        PostThreads \<Rightarrow> [[], ''threads'']
      | GetState tid \<Rightarrow> [[], ''threads'', tid, ''state'']
      | GetHistory tid \<Rightarrow> [[], ''threads'', tid, ''history'']
      | PostHistory tid \<Rightarrow> [[], ''threads'', tid, ''history'']
      | PostCommands tid \<Rightarrow> [[], ''threads'', tid, ''commands'']
      | PostCancel tid rid \<Rightarrow> [[], ''threads'', tid, ''runs'', rid, ''cancel'']
      | PostStream tid \<Rightarrow> [[], ''threads'', tid, ''stream'']
      | PostStreamEvents tid \<Rightarrow> [[], ''threads'', tid, ''stream'', ''events'']
      | GetInfo \<Rightarrow> [[], ''info''])"
  using assms by (cases e) (simp_all add: thread_path_segments segments_step)

section \<open>Isolation\<close>

lemma run_to_end_same:
  assumes "run_inv m" and "k \<noteq> tid"
    and "\<And>i m1. reserved = Inr (i, m1) \<Longrightarrow>
      \<exists>aid inp config metadata rid. start_reserve k aid inp config metadata rid m = Inr (i, m1)"
  shows "same_thread tid m (snd (run_to_end reserved m))"
proof (cases reserved)
  case (Inr x)
  obtain i m1 where x: "x = (i, m1)" by (cases x)
  with assms(3) Inr obtain aid inp config metadata rid where
    s: "start_reserve k aid inp config metadata rid m = Inr (i, m1)" by blast
  then obtain p where p: "m_starts m1 i = Some p" "p_thread p = k"
    by (auto simp: start_reserve_def Let_def split: option.splits)
  have "same_thread tid m m1" by (rule start_reserve_same [OF assms(1) s assms(2)])
  moreover have "same_thread tid m1 (snd (start_finish i p m1))"
    using start_finish_same [OF start_reserve_inv [OF assms(1) s] p(1)] p(2) assms(2) by simp
  ultimately show ?thesis using Inr x p(1) by (auto simp: run_to_end_def intro: same_thread_trans)
qed (simp add: run_to_end_def)

lemma manager_start_same:
  "run_inv m \<Longrightarrow> k \<noteq> tid \<Longrightarrow> same_thread tid m (snd (manager_start k aid inp config metadata rid m))"
  unfolding manager_start_def by (rule run_to_end_same) blast+

lemma manager_respond_same:
  "run_inv m \<Longrightarrow> k \<noteq> tid \<Longrightarrow> same_thread tid m (snd (manager_respond k iid response aid rid m))"
  unfolding manager_respond_def
  by (rule run_to_end_same) (force simp: respond_reserve_def split: sum.splits)+

text \<open>A server that keeps all it holds of a thread: what the manager holds, and the record.\<close>

definition keeps :: "'s store_ops \<Rightarrow> string \<Rightarrow> 's server \<Rightarrow> 's server \<Rightarrow> bool" where
  "keeps ops tid sv sv' =
     (same_thread tid (v_manager sv) (v_manager sv') \<and> so_get ops tid (v_store sv') = so_get ops tid (v_store sv))"

lemma keeps_refl [simp]: "keeps ops tid sv sv"
  by (simp add: keeps_def)

lemma keeps_manager: "same_thread tid (v_manager sv) m \<Longrightarrow> keeps ops tid sv (sv\<lparr>v_manager := m\<rparr>)"
  by (simp add: keeps_def)

lemma keeps_with_params:
  "(\<And>d. keeps ops tid sv (snd (k d))) \<Longrightarrow> keeps ops tid sv (snd (with_params params sv k))"
  by (auto simp: with_params_def split: pyval.split sum.split)

lemma command_respond_keeps:
  assumes "run_inv (v_manager sv)" and "k \<noteq> tid"
  shows "keeps ops tid sv (snd (command_respond mtd ops rid k cid params sv))"
proof -
  have "same_thread tid (v_manager sv) m"
    if "manager_respond k iid response aid rid (v_manager sv) = (r, m)" for iid response aid r m
    using manager_respond_same [OF assms, of iid response aid rid] that by simp
  then show ?thesis
    by (auto simp: command_respond_def keeps_def Let_def split: sum.split option.split prod.split)
qed

lemma cancel_run_keeps:
  "run_inv (v_manager sv) \<Longrightarrow> k \<noteq> tid \<Longrightarrow> keeps ops tid sv (snd (cancel_run ops k rid sv))"
  by (auto simp: cancel_run_def Let_def split: sum.split option.split intro!: keeps_manager cancel_same)

lemma open_stream_keeps:
  assumes "k \<noteq> tid"
  shows "keeps ops tid sv (snd (open_stream ops k b sv))"
proof -
  have "keeps ops tid sv (sv\<lparr>v_manager := (v_manager sv)\<lparr>m_hubs := r\<rparr>\<rparr>)"
    if "hub_at r tid = hub_at (m_hubs (v_manager sv)) tid" for r
    using that by (simp add: keeps_def same_thread_def)
  moreover have "hub_at r tid = hub_at (m_hubs (v_manager sv)) tid"
    if "hub_of k (m_hubs (v_manager sv)) = (h, r)" for h r
    using hub_at_of [of k "m_hubs (v_manager sv)" tid] that by simp
  ultimately show ?thesis using assms
    by (auto simp: open_stream_def Let_def split: sum.split option.split prod.split)
qed

lemma stream_response_server [simp]: "snd (stream_response x) = snd x"
  by (auto simp: stream_response_def split: prod.split sum.split)

lemma apfst_server [simp]: "snd (apfst f x) = snd x"
  by (simp add: apfst_def map_prod_def split: prod.split)

context thread_store
begin

lemma command_start_keeps:
  assumes "inv (v_store sv)" and "run_inv (v_manager sv)" and "k \<noteq> tid"
  shows "keeps ops tid sv (snd (command_start ops now rid k rec cid params sv))"
proof -
  have m: "same_thread tid (v_manager sv) m"
    if "manager_start k aid inp config metadata rid (v_manager sv) = (r, m)" for aid inp config metadata r m
    using manager_start_same [OF assms(2,3), of aid inp config metadata rid] that by simp
  moreover have "get tid st = get tid (v_store sv)" if "set_assistant now k s (v_store sv) = Inr st" for st s
    using set_known [OF assms(1), of now k s] that assms(3) by auto
  ultimately show ?thesis
    by (auto simp: command_start_def keeps_def Let_def split: sum.split prod.split)
qed

lemma serve_keeps:
  assumes "thread_of e = Some k" and "k \<noteq> tid" and "inv (v_store sv)" and "run_inv (v_manager sv)"
  shows "keeps ops tid sv (snd (serve mtd ops am rq e sv))"
proof (cases e)
  case (PostCommands k')
  have "keeps ops tid sv (sv\<lparr>v_manager := snd (cancel k x (v_manager sv))\<rparr>)" for x
    by (intro keeps_manager cancel_same assms)
  with PostCommands assms show ?thesis
    by (auto simp: dispatch_command_def Let_def split: sum.split option.split pyval.split
        intro!: keeps_with_params command_start_keeps command_respond_keeps)
next
  case (PostCancel k' rid)
  with assms show ?thesis by (simp add: cancel_run_keeps)
next
  case (PostStream k')
  with assms show ?thesis by (simp add: open_stream_keeps)
next
  case (PostStreamEvents k')
  with assms show ?thesis by (simp add: open_stream_keeps)
qed (use assms(1) in simp_all)

end

section \<open>Properties\<close>

text \<open>The table of routes is unambiguous: no two endpoints, whatever their ids, are declared with
  the same method and path, as long as an id is one segment of a path.\<close>

theorem routes_unambiguous:
  assumes "segment_params e" and "segment_params e'" and "declared e = declared e'"
  shows "e = e'"
proof -
  have "segments (snd (declared e)) = segments (snd (declared e'))" "fst (declared e) = fst (declared e')"
    using assms(3) by simp_all
  then show ?thesis unfolding declared_segments [OF assms(1)] declared_segments [OF assms(2)]
    by (cases e; cases e'; simp)
qed

theorem routes_unambiguous_witness:
  "segment_params (PostStream ''a'') \<and> declared (PostStream ''a'') \<noteq> declared (PostStreamEvents ''a'') \<and>
   \<not> segment_params (PostStream ''a/stream'')"
proof -
  have s: "segment_params (PostStream ''a'')" "segment_params (PostStreamEvents ''a'')" by (simp_all add: segment_def)
  from routes_unambiguous [OF s] s show ?thesis by (auto simp: segment_def)
qed

text \<open>C39: no endpoint acts on a thread that the store does not know: each of them answers 404 with the
  same detail and leaves the whole server as it was, whatever the request says.\<close>

theorem unknown_thread_refused:
  assumes "thread_of e = Some tid" and "so_get ops tid (v_store sv) = Inr None"
  shows "serve mtd ops am rq e sv = (Answer (Inr (404, PDict [(''detail'', PStr ''thread not found'')])), sv)"
  using assms
  by (cases e) (simp_all add: get_state_def get_history_def search_history_def history_def dispatch_command_def
      cancel_run_def open_stream_def stream_response_def not_found_def detail_def Let_def apfst_def)

definition demo_request :: request where
  "demo_request = \<lparr>rq_limit = 10, rq_before = None,
     rq_body = Inr (PDict [(''id'', PInt 1), (''method'', PStr ''run.start''),
                           (''params'', PDict [(''assistant_id'', PStr ''a'')])])\<rparr>"

definition demo_ambient :: ambient where
  "demo_ambient = \<lparr>am_now = ''later'', am_ms = 1000, am_random = replicate 16 1, am_run_id = ''r7''\<rparr>"

theorem unknown_thread_refused_witness:
  "serve plain_message memory.ops demo_ambient demo_request (PostCommands ''nobody'') (fresh_server [])
     = (Answer (Inr (404, PDict [(''detail'', PStr ''thread not found'')])), fresh_server [])"
  by (rule unknown_thread_refused [of "PostCommands ''nobody''" "''nobody''"])
     (simp_all add: fresh_server_def memory_get_def)

text \<open>C15: a request to one thread leaves every other thread as it was: its slot, pending interrupts, last
  assistant, starts, tasks and hub, and its row in the store, whichever endpoint is called and
  whatever the reply.\<close>

theorem request_isolated:
  assumes "thread_of e = Some k" and "k \<noteq> tid" and "sqlite_inv (v_store sv)" and "run_inv (v_manager sv)"
  shows "same_thread tid (v_manager sv) (v_manager (snd (serve mtd sqlite.ops am rq e sv))) \<and>
     sqlite_get tid (v_store (snd (serve mtd sqlite.ops am rq e sv))) = sqlite_get tid (v_store sv)"
  using sqlite.serve_keeps [OF assms, of mtd am rq] by (simp add: keeps_def)

definition blank_row :: "string \<Rightarrow> thread_row" where
  "blank_row tid = \<lparr>w_thread_id = tid, w_metadata_json = ''{}'', w_assistant_id = None,
     w_created_at = ''now'', w_updated_at = ''now''\<rparr>"

definition two_threads :: "sqlite_store server" where
  "two_threads = \<lparr>v_store = \<lparr>q_open = True, q_rows = [blank_row ''t'', blank_row ''u'']\<rparr>,
     v_manager = new_manager demo_registry 5\<rparr>"

theorem request_isolated_witness:
  "sqlite_get ''u'' (v_store (snd (serve plain_message sqlite.ops demo_ambient demo_request (PostCommands ''t'') two_threads)))
     = sqlite_get ''u'' (v_store two_threads) \<and>
   sqlite_get ''t'' (v_store (snd (serve plain_message sqlite.ops demo_ambient demo_request (PostCommands ''t'') two_threads)))
     \<noteq> sqlite_get ''t'' (v_store two_threads)"
proof -
  have json: "read_metadata ''{}'' = Inr []" by code_simp
  then have inv: "sqlite_inv (v_store two_threads)" by (simp add: two_threads_def blank_row_def sqlite_inv_def row_ok_def)
  have "run_inv (v_manager two_threads)" by (simp add: two_threads_def run_inv_new)
  from request_isolated [OF _ _ inv this, of "PostCommands ''t''" "''t''" "''u''"]
  have "sqlite_get ''u'' (v_store (snd (serve plain_message sqlite.ops demo_ambient demo_request (PostCommands ''t'') two_threads)))
     = sqlite_get ''u'' (v_store two_threads)" by simp
  moreover have "case sqlite_get ''t'' (v_store (snd (serve plain_message sqlite.ops demo_ambient demo_request
       (PostCommands ''t'') two_threads))) of Inr (Some r) \<Rightarrow> tr_assistant_id r = Some ''a'' | _ \<Rightarrow> False"
    unfolding sqlite.ops_def by code_simp
  moreover have "case sqlite_get ''t'' (v_store two_threads) of Inr (Some r) \<Rightarrow> tr_assistant_id r = None | _ \<Rightarrow> False"
    by code_simp
  ultimately show ?thesis by (auto split: sum.splits option.splits)
qed

end
