(* ===== verification/Slots.thy ===== *)
theory Slots
  imports Runner
begin

text \<open>
  The slot of a thread as a small machine. A start takes it, the resolution of its graph turns it
  into an active run or frees it, a run that is done may be replaced or cleared. The lemmas show
  that the run manager, seen through \<open>slot_of\<close>, only ever makes the steps of this machine.
\<close>

section \<open>The machine\<close>

text \<open>Every slot but the free one names the run that holds it.\<close>

datatype slot = Free | Resolving string | Executing string | Finished string | Blocked string

text \<open>What an event means for slots.\<close>

datatype slot_act = Starts string | Resolves | Abandons | Steps | Clears | Nothing

definition vacant :: "slot \<Rightarrow> bool" where
  "vacant s = (case s of Free \<Rightarrow> True | Finished r \<Rightarrow> True | _ \<Rightarrow> False)"

lemma vacant_simps [simp]:
  "vacant Free" "vacant (Finished r)" "\<not> vacant (Resolving r)" "\<not> vacant (Executing r)" "\<not> vacant (Blocked r)"
  by (simp_all add: vacant_def)

inductive slot_step :: "slot \<Rightarrow> slot_act \<Rightarrow> slot \<Rightarrow> bool" where
  accepted: "vacant s \<Longrightarrow> slot_step s (Starts r) (Resolving r)"
| resolved: "slot_step (Resolving r) Resolves (Executing r)"
| unresolved: "slot_step (Resolving r) Resolves Free"
| misconfigured: "slot_step (Resolving r) Resolves (Blocked r)"
| abandoned: "slot_step (Resolving r) Abandons (Blocked r)"
| over: "slot_step (Executing r) Steps (Finished r)"
| cleared: "slot_step (Finished r) Clears Free"

inductive_cases slot_step_elims:
  "slot_step Free a s" "slot_step (Resolving r) a s" "slot_step (Executing r) a s" "slot_step (Finished r) a s"
  "slot_step (Blocked r) a s"

inductive_simps slot_step_simps:
  "slot_step s (Starts r) s'" "slot_step s Resolves s'" "slot_step s Abandons s'" "slot_step s Steps s'"
  "slot_step s Clears s'" "slot_step s Nothing s'"

text \<open>A blocked slot has no step.\<close>

lemma blocked_stays: "\<not> slot_step (Blocked r) a s"
  by (auto elim: slot_step_elims)

section \<open>The manager through the slots\<close>

definition slot_of :: "manager \<Rightarrow> string \<Rightarrow> slot" where
  "slot_of m tid =
     (case m_active m tid of
        None \<Rightarrow> Free
      | Some a \<Rightarrow>
          (case a_owner a of
             Reserved i \<Rightarrow> if m_starts m i = None then Blocked (a_run_id a) else Resolving (a_run_id a)
           | Running j \<Rightarrow> if task_done m j then Finished (a_run_id a) else Executing (a_run_id a)))"

definition act_of :: "run_event \<Rightarrow> slot_act" where
  "act_of ev =
     (case ev of
        StartCall tid aid inp config metadata rid \<Rightarrow> Starts rid
      | RespondCall tid iid response aid rid \<Rightarrow> Starts rid
      | StartDone i \<Rightarrow> Resolves
      | StartCancelled i \<Rightarrow> Abandons
      | TaskStep j ts \<Rightarrow> Steps
      | TaskCallback j \<Rightarrow> Clears
      | CancelCall tid rid \<Rightarrow> Nothing
      | RegisterCall aid f \<Rightarrow> Nothing)"

lemma busy_vacant: "busy_run m tid = None \<longleftrightarrow> vacant (slot_of m tid)"
  by (simp add: busy_run_def slot_of_def split: option.split owner.split)

text \<open>What the slot of a thread depends on.\<close>

lemma slot_of_frame:
  assumes "m_active m' tid = m_active m tid"
    and "\<And>i. owned_by m tid (Reserved i) \<Longrightarrow> (m_starts m' i = None) = (m_starts m i = None)"
    and "\<And>j. owned_by m tid (Running j) \<Longrightarrow> task_done m' j = task_done m j"
  shows "slot_of m' tid = slot_of m tid"
proof (cases "m_active m tid")
  case (Some a)
  with assms(2,3) show ?thesis by (cases "a_owner a") (simp_all add: slot_of_def assms(1) owned_by_def)
qed (simp add: slot_of_def assms(1))

lemma own_of_None: "(\<And>x. h i = Some x \<Longrightarrow> f x = tid) \<Longrightarrow> own_of f h tid i = h i"
  by (simp add: own_of_def split: option.split)

lemma slot_of_same:
  assumes inv: "run_inv m" "run_inv m'" and same: "same_thread tid m m'"
  shows "slot_of m' tid = slot_of m tid"
proof (rule slot_of_frame)
  show act: "m_active m' tid = m_active m tid" using same by (simp add: same_thread_def)
  fix i
  assume "owned_by m tid (Reserved i)"
  then obtain a where a: "m_active m tid = Some a" "a_owner a = Reserved i" by (auto simp: owned_by_iff)
  have "own_of p_thread (m_starts m) tid i = m_starts m i" "own_of p_thread (m_starts m') tid i = m_starts m' i"
    using run_invD(3) [OF inv(1) a(1)] run_invD(3) [OF inv(2), of tid a] a act
    by (auto simp: slot_inv_def intro!: own_of_None)
  with same show "(m_starts m' i = None) = (m_starts m i = None)" by (simp add: same_thread_def)
next
  fix j
  assume "owned_by m tid (Running j)"
  then obtain a where a: "m_active m tid = Some a" "a_owner a = Running j" by (auto simp: owned_by_iff)
  have act: "m_active m' tid = m_active m tid" using same by (simp add: same_thread_def)
  have "own_of t_thread (m_tasks m) tid j = m_tasks m j" "own_of t_thread (m_tasks m') tid j = m_tasks m' j"
    using run_invD(3) [OF inv(1) a(1)] run_invD(3) [OF inv(2), of tid a] a act
    by (auto simp: slot_inv_def intro!: own_of_None)
  with same show "task_done m' j = task_done m j" by (simp add: same_thread_def task_done_def)
qed

text \<open>The events, one by one, on the thread they are about.\<close>

definition slot_moves :: "manager \<Rightarrow> slot_act \<Rightarrow> manager \<Rightarrow> string \<Rightarrow> bool" where
  "slot_moves m a m' tid = (slot_of m' tid = slot_of m tid \<or> slot_step (slot_of m tid) a (slot_of m' tid))"

lemma slot_start:
  assumes "start_reserve tid aid inp config metadata rid m = Inr (i, m')"
  shows "slot_moves m (Starts rid) m' tid"
proof -
  have "busy_run m tid = None" using assms by (simp add: start_reserve_def split: option.splits)
  moreover have "slot_of m' tid = Resolving rid"
    using assms by (auto simp: start_reserve_def slot_of_def Let_def split: option.splits)
  ultimately show ?thesis by (simp add: slot_moves_def busy_vacant slot_step.accepted)
qed

text \<open>A start that is still under way has its thread resolving.\<close>

lemma slot_starting:
  assumes "run_inv m" and "m_starts m i = Some p"
  shows "slot_of m (p_thread p) = Resolving (p_run_id p)"
  using run_invD(1) [OF assms] assms(2) by (auto simp: start_inv_def slot_of_def)

lemma slot_abandon:
  assumes "run_inv m" and "m_starts m i = Some p"
  shows "slot_moves m Abandons (start_cancelled i m) (p_thread p)"
proof -
  have "slot_of (start_cancelled i m) (p_thread p) = Blocked (p_run_id p)"
    using run_invD(1) [OF assms] by (auto simp: start_inv_def slot_of_def start_cancelled_def)
  then show ?thesis by (simp add: slot_moves_def slot_starting [OF assms] slot_step.abandoned)
qed

lemma slot_resolve:
  assumes inv: "run_inv m" and p: "m_starts m i = Some p"
  shows "slot_moves m Resolves (snd (start_finish i p m)) (p_thread p)"
proof -
  have own: "owned_by m (p_thread p) (Reserved i)" by (rule start_slot [OF inv p])
  have a: "\<exists>a. m_active m (p_thread p) = Some a \<and> a_owner a = Reserved i \<and> a_run_id a = p_run_id p"
    using run_invD(1) [OF inv p] by (simp add: start_inv_def)
  have "slot_of (snd (start_finish i p m)) (p_thread p) \<in> {Executing (p_run_id p), Free, Blocked (p_run_id p)}"
  proof (cases "p_outcome p")
    case (Inl e)
    with own show ?thesis by (simp add: start_finish_def Let_def slot_of_def)
  next
    case (Inr g)
    with a show ?thesis
      by (cases "run_config (p_thread p) (p_config p) (p_metadata p)")
         (auto simp: start_finish_def Let_def slot_of_def task_done_def new_task_def)
  qed
  then show ?thesis unfolding slot_moves_def slot_starting [OF inv p] by (auto intro: slot_step.intros)
qed

lemma slot_task:
  assumes inv: "run_inv m" and t: "m_tasks m j = Some t"
  shows "slot_moves m Steps (task_step mtd j ts m) (t_thread t)"
proof -
  obtain out pd t' where e: "exec_step mtd t = (out, pd, t')" by (metis prod_cases3)
  have m': "m_tasks (task_step mtd j ts m) = (m_tasks m)(j \<mapsto> t')" "m_active (task_step mtd j ts m) = m_active m"
    "m_starts (task_step mtd j ts m) = m_starts m"
    by (simp_all add: task_step_def t e)
  have "t_stage t = Settled \<Longrightarrow> t_stage t' = Settled" using e by (auto simp: exec_step_def)
  then show ?thesis
    using t by (auto simp: slot_moves_def slot_of_def m' task_done_def slot_step_simps split: option.split owner.split)
qed

lemma slot_callback:
  assumes "m_tasks m j = Some t"
  shows "slot_moves m Clears (task_callback j m) (t_thread t)"
proof (cases "t_stage t = Settled \<and> owned_by m (t_thread t) (Running j)")
  case True
  then obtain a where "m_active m (t_thread t) = Some a" "a_owner a = Running j" by (auto simp: owned_by_iff)
  with True assms show ?thesis
    by (simp add: slot_moves_def slot_of_def task_callback_def task_done_def slot_step.cleared)
next
  case False
  with assms show ?thesis by (auto simp: slot_moves_def task_callback_def)
qed

lemma slot_cancel: "slot_moves m Nothing (snd (cancel k rid m)) tid"
proof -
  have "slot_of (snd (cancel k rid m)) tid = slot_of m tid"
    by (rule slot_of_frame)
       (auto simp: cancel_def task_done_def request_cancel_def split: option.split owner.split)
  then show ?thesis by (simp add: slot_moves_def)
qed

lemma slot_moves_step:
  assumes inv: "run_inv m"
  shows "slot_moves m (act_of ev) (run_step mtd m ev) tid"
proof (cases "concerns m ev = Some tid")
  case False
  with slot_of_same [OF inv run_inv_step [OF inv] run_step_same [OF inv False]] show ?thesis
    by (simp add: slot_moves_def)
next
  case True
  have stay: "slot_moves m a m tid" for a by (simp add: slot_moves_def)
  show ?thesis
  proof (cases ev)
    case (StartCall k aid inp config metadata rid)
    with True slot_start [of tid aid inp config metadata rid m] show ?thesis
      by (auto simp: concerns_def act_of_def stay split: sum.split)
  next
    case (RespondCall k iid response aid rid)
    with True slot_start [of tid _ "CommandResume response" None PNone rid m] show ?thesis
      by (auto simp: concerns_def act_of_def respond_reserve_def stay split: sum.split)
  next
    case (StartDone i)
    with True obtain p where "m_starts m i = Some p" "p_thread p = tid" by (auto simp: concerns_def)
    with slot_resolve [OF inv, of i p] StartDone show ?thesis by (simp add: act_of_def)
  next
    case (StartCancelled i)
    with True obtain p where "m_starts m i = Some p" "p_thread p = tid" by (auto simp: concerns_def)
    with slot_abandon [OF inv, of i p] StartCancelled show ?thesis by (simp add: act_of_def)
  next
    case (TaskStep j ts)
    with True obtain t where "m_tasks m j = Some t" "t_thread t = tid" by (auto simp: concerns_def)
    with slot_task [OF inv, of j t mtd ts] TaskStep show ?thesis by (simp add: act_of_def)
  next
    case (TaskCallback j)
    with True obtain t where "m_tasks m j = Some t" "t_thread t = tid" by (auto simp: concerns_def)
    with slot_callback [of m j t] TaskCallback show ?thesis by (simp add: act_of_def)
  qed (use True in \<open>simp_all add: act_of_def slot_cancel stay concerns_def\<close>)
qed

section \<open>Properties\<close>

text \<open>The states a slot goes through.\<close>

inductive slot_path :: "slot \<Rightarrow> slot \<Rightarrow> bool" where
  here: "slot_path s s"
| onward: "slot_path s s' \<Longrightarrow> slot_step s' a s'' \<Longrightarrow> slot_path s s''"

lemma slot_path_moves: "slot_path s (slot_of m tid) \<Longrightarrow> slot_moves m a m' tid \<Longrightarrow> slot_path s (slot_of m' tid)"
  by (auto simp: slot_moves_def intro: slot_path.onward)

lemma slot_path_run: "run_inv m \<Longrightarrow> slot_path (slot_of m tid) (slot_of (runs_from mtd m evs) tid)"
proof (induction evs rule: rev_induct)
  case (snoc ev evs)
  have "run_inv (runs_from mtd m evs)" by (rule runs.inv_run [OF snoc.prems])
  from slot_path_moves [OF snoc.IH [OF snoc.prems] slot_moves_step [OF this]] show ?case by simp
qed (simp add: slot_path.here)

lemma slot_path_blocked: "slot_path (Blocked r) s \<Longrightarrow> s = Blocked r"
  by (induction "Blocked r" s rule: slot_path.induct) (auto simp: blocked_stays)

text \<open>C11: the slot of a thread is the small machine: whatever happens to whatever thread, the slot stays
  as it is or makes the step of the machine that belongs to the event. A start is accepted exactly
  while the slot is vacant, only the resolution activates it, only the end of its task and the
  callback of that task lead from an active run back to a free slot, cancellations and
  registrations never move it, and a blocked slot never moves again.\<close>

theorem slots_refined:
  "(slot_of (reached mtd reg n (evs @ [ev])) tid = slot_of (reached mtd reg n evs) tid \<or>
    slot_step (slot_of (reached mtd reg n evs) tid) (act_of ev) (slot_of (reached mtd reg n (evs @ [ev])) tid)) \<and>
   (busy_run (reached mtd reg n evs) tid = None \<longleftrightarrow> vacant (slot_of (reached mtd reg n evs) tid)) \<and>
   slot_path Free (slot_of (reached mtd reg n evs) tid)"
proof (intro conjI)
  show "slot_of (reached mtd reg n (evs @ [ev])) tid = slot_of (reached mtd reg n evs) tid \<or>
      slot_step (slot_of (reached mtd reg n evs) tid) (act_of ev) (slot_of (reached mtd reg n (evs @ [ev])) tid)"
    using slot_moves_step [OF reached_inv [of mtd reg n evs], of ev mtd tid] by (simp add: slot_moves_def reached_def)
  have "slot_of (new_manager reg n) tid = Free" by (simp add: slot_of_def new_manager_def)
  with slot_path_run [OF run_inv_new [of reg n], of tid mtd evs]
  show "slot_path Free (slot_of (reached mtd reg n evs) tid)" by (simp add: reached_def)
qed (rule busy_vacant)

end
