(* ===== verification/Subscribers.thy ===== *)
theory Subscribers
  imports Streams
begin

text \<open>
  What a hub keeps. A publisher never waits, so a slow client must not cost memory without bound:
  the lemmas bound the replay buffer and every queue, and say exactly which subscriptions stay
  registered with a hub.
\<close>

section \<open>Queues\<close>

definition queues_bounded :: "hub \<Rightarrow> bool" where
  "queues_bounded h = (\<forall>i s. h_subs h i = Some s \<longrightarrow> length (s_queue s) \<le> MAX_QUEUE)"

lemma queues_boundedI: "(\<And>i s. h_subs h i = Some s \<Longrightarrow> length (s_queue s) \<le> MAX_QUEUE) \<Longrightarrow> queues_bounded h"
  by (simp add: queues_bounded_def)

lemma queues_boundedD: "queues_bounded h \<Longrightarrow> h_subs h i = Some s \<Longrightarrow> length (s_queue s) \<le> MAX_QUEUE"
  by (simp add: queues_bounded_def)

lemma queues_bounded_frame [simp]:
  "queues_bounded (h\<lparr>h_subscribers := is\<rparr>) = queues_bounded h"
  "queues_bounded (h\<lparr>h_next := k\<rparr>) = queues_bounded h"
  by (simp_all add: queues_bounded_def)

lemma queues_bounded_update:
  "queues_bounded h \<Longrightarrow> length (s_queue s) \<le> MAX_QUEUE \<Longrightarrow> queues_bounded (h\<lparr>h_subs := (h_subs h)(i \<mapsto> s)\<rparr>)"
  by (simp add: queues_bounded_def)

lemma deliver_bounded: "length (s_queue s) \<le> MAX_QUEUE \<Longrightarrow> length (s_queue (deliver e s)) \<le> MAX_QUEUE"
  by (simp add: deliver_queue)

lemma fan_out_bounded:
  "(\<And>i s. subs i = Some s \<Longrightarrow> length (s_queue s) \<le> MAX_QUEUE) \<Longrightarrow> fan_out e is subs k = Some s' \<Longrightarrow>
   length (s_queue s') \<le> MAX_QUEUE"
proof (induction e "is" subs rule: fan_out.induct)
  case (2 e i "is" subs)
  show ?case by (rule "2.IH") (use 2(2,3) deliver_bounded in \<open>auto split: option.splits if_splits\<close>)
qed simp

lemma publish_bounded: "queues_bounded h \<Longrightarrow> queues_bounded (snd (publish now m d ns ts eid h))"
  by (rule queues_boundedI) (auto simp: publish_def Let_def dest: queues_boundedD elim: fan_out_bounded [rotated])

lemma live_take_shrinks: "live_take q s = (r, s') \<Longrightarrow> length (s_queue s') \<le> length q"
  by (induction q s rule: live_take.induct) (auto split: if_splits)

lemma live_take_bounded:
  "queues_bounded h \<Longrightarrow> h_subs h i = Some s \<Longrightarrow> live_take (s_queue s) s = (r, s') \<Longrightarrow> length (s_queue s') \<le> MAX_QUEUE"
  using live_take_shrinks [of "s_queue s" s r s'] queues_boundedD [of h i s] by simp

lemma live_loop_bounded: "queues_bounded h \<Longrightarrow> live_loop i h = (out, ph, h') \<Longrightarrow> queues_bounded h'"
  by (auto simp: live_loop_def yield_event_def unsubscribe_def intro!: queues_bounded_update
      dest: live_take_bounded split: option.splits prod.splits if_splits)

lemma replay_bounded: "queues_bounded h \<Longrightarrow> queues_bounded (snd (replay i h))"
  by (auto simp: replay_def replay_sub_def Let_def intro!: queues_bounded_update
      dest: queues_boundedD split: option.split prod.split)

lemma replay_loop_bounded: "queues_bounded h \<Longrightarrow> replay_loop es i h = (out, ph, h') \<Longrightarrow> queues_bounded h'"
  by (auto simp: replay_loop_def yield_event_def unsubscribe_def dest: live_loop_bounded
      split: list.splits if_splits)

lemma resume_bounded: "queues_bounded h \<Longrightarrow> resume ph i h = (out, ph', h') \<Longrightarrow> queues_bounded h'"
  using replay_bounded [of h i]
  by (cases ph) (auto split: prod.splits dest: live_loop_bounded replay_loop_bounded)

section \<open>Registered subscriptions\<close>

definition open_conns :: "stream_sys \<Rightarrow> nat set" where
  "open_conns y = {i. \<exists>c. y_conns y i = Some c \<and> c_phase c \<noteq> GClosed}"

text \<open>The connections that are closed before their generator was started.\<close>

definition leaks :: "stream_sys \<Rightarrow> stream_event \<Rightarrow> nat set" where
  "leaks y ev =
     (case ev of
        Close i \<Rightarrow> {j. j = i \<and> (\<exists>c. y_conns y i = Some c \<and> c_phase c = GStart)}
      | _ \<Rightarrow> {})"

fun leaked :: "stream_sys \<Rightarrow> stream_event list \<Rightarrow> nat set" where
  "leaked y [] = {}"
| "leaked y (ev # evs) = leaks y ev \<union> leaked (stream_step y ev) evs"

definition kept_inv :: "nat set \<Rightarrow> stream_sys \<Rightarrow> bool" where
  "kept_inv L y =
     (sys_inv y \<and> queues_bounded (y_hub y) \<and> set (h_subscribers (y_hub y)) = open_conns y \<union> L \<and>
      (\<forall>i \<in> L. \<exists>c. y_conns y i = Some c \<and> c_phase c = GClosed))"

lemma kept_invI:
  "sys_inv y \<Longrightarrow> queues_bounded (y_hub y) \<Longrightarrow> set (h_subscribers (y_hub y)) = open_conns y \<union> L \<Longrightarrow>
   (\<And>i. i \<in> L \<Longrightarrow> \<exists>c. y_conns y i = Some c \<and> c_phase c = GClosed) \<Longrightarrow> kept_inv L y"
  by (simp add: kept_inv_def)

lemma open_conns_set:
  "y_conns y' = (y_conns y)(i \<mapsto> c) \<Longrightarrow>
   open_conns y' = (if c_phase c = GClosed then open_conns y - {i} else insert i (open_conns y))"
  by (auto simp: open_conns_def)

lemma kept_invD:
  assumes "kept_inv L y"
  shows "sys_inv y" "queues_bounded (y_hub y)" "set (h_subscribers (y_hub y)) = open_conns y \<union> L"
    "i \<in> L \<Longrightarrow> \<exists>c. y_conns y i = Some c \<and> c_phase c = GClosed"
  using assms by (auto simp: kept_inv_def)

lemma kept_publish:
  assumes k: "kept_inv L y"
  shows "kept_inv L (stream_step y (Publish now m d))"
proof (rule kept_invI)
  show "sys_inv (stream_step y (Publish now m d))" by (rule sys_inv_step [OF kept_invD(1) [OF k]])
  show "queues_bounded (y_hub (stream_step y (Publish now m d)))"
    using publish_bounded [OF kept_invD(2) [OF k]] by (simp add: case_prod_beta)
  have "open_conns (stream_step y (Publish now m d)) = open_conns y" by (simp add: open_conns_def case_prod_beta)
  then show "set (h_subscribers (y_hub (stream_step y (Publish now m d))))
      = open_conns (stream_step y (Publish now m d)) \<union> L"
    using kept_invD(3) [OF k] by (simp add: case_prod_beta publish_def Let_def)
  show "\<exists>c. y_conns (stream_step y (Publish now m d)) i = Some c \<and> c_phase c = GClosed" if "i \<in> L" for i
    using kept_invD(4) [OF k that] by (simp add: case_prod_beta)
qed

lemma kept_open:
  assumes k: "kept_inv L y"
  shows "kept_inv L (stream_step y (Open chans nss since))"
proof (cases "subscribe chans nss since (y_hub y)")
  case (Inl e)
  with k show ?thesis by simp
next
  case (Inr p)
  obtain i h where p: "p = (i, h)" by (cases p)
  then have sub: "subscribe chans nss since (y_hub y) = Inr (i, h)" using Inr by simp
  from subscribe_spec [OF sub] obtain s where s: "i = h_next (y_hub y)"
    "h_subs h = (h_subs (y_hub y))(i \<mapsto> s)" "h_subscribers h = i # h_subscribers (y_hub y)" "s_queue s = []"
    by blast
  have "i \<notin> L"
  proof
    assume "i \<in> L"
    with kept_invD(4) [OF k] obtain c where "y_conns y i = Some c" by blast
    with kept_invD(1) [OF k] obtain s' where "h_subs (y_hub y) i = Some s'" by (auto simp: sys_inv_def)
    with kept_invD(1) [OF k] s(1) show False by (auto simp: sys_inv_def hub_log_def)
  qed
  moreover have "queues_bounded h" using kept_invD(2) [OF k] s(2,4) by (auto simp: queues_bounded_def)
  moreover have "open_conns (stream_step y (Open chans nss since)) = insert i (open_conns y)"
    by (subst open_conns_set) (auto simp: sub)
  ultimately show ?thesis
    using sys_inv_step [OF kept_invD(1) [OF k], of "Open chans nss since"] kept_invD(3,4) [OF k] s(3)
    by (intro kept_invI) (auto simp: sub)
qed

text \<open>A step of one connection that unregisters it exactly if it ends it.\<close>

lemma kept_conn:
  assumes k: "kept_inv L y" and c: "y_conns y i = Some c" and inv: "sys_inv y'"
    and y': "y_conns y' = (y_conns y)(i \<mapsto> c')" and q: "queues_bounded (y_hub y')"
    and subs: "set (h_subscribers (y_hub y')) = (if c_phase c' = GClosed \<and> c_phase c \<noteq> GClosed
      then set (h_subscribers (y_hub y)) - {i} else set (h_subscribers (y_hub y)))"
    and closed: "c_phase c = GClosed \<Longrightarrow> c_phase c' = GClosed"
  shows "kept_inv L y'"
proof (rule kept_invI [OF inv q])
  have L: "i \<in> L \<Longrightarrow> c_phase c = GClosed" using kept_invD(4) [OF k] c by force
  moreover have "i \<in> open_conns y \<longleftrightarrow> c_phase c \<noteq> GClosed" using c by (simp add: open_conns_def)
  ultimately show "set (h_subscribers (y_hub y')) = open_conns y' \<union> L"
    unfolding subs open_conns_set [OF y'] using kept_invD(3) [OF k] closed by auto
  show "\<exists>d. y_conns y' j = Some d \<and> c_phase d = GClosed" if "j \<in> L" for j
    using kept_invD(4) [OF k that] that L closed by (cases "j = i") (auto simp: y')
qed

lemma kept_resume:
  assumes k: "kept_inv L y" and c: "y_conns y i = Some c"
  shows "kept_inv L (stream_step y (Resume i))"
proof -
  obtain out ph h where r: "resume (c_phase c) i (y_hub y) = (out, ph, h)" by (metis prod_cases3)
  obtain s where s: "h_subs (y_hub y) i = Some s" "conn_inv (y_log y) s c" "hub_log (y_log y) (y_hub y)"
    using kept_invD(1) [OF k] c by (auto simp: sys_inv_def)
  have "h_subscribers h = (if ph = GClosed \<and> c_phase c \<noteq> GClosed
      then removeAll i (h_subscribers (y_hub y)) else h_subscribers (y_hub y))"
    using resume_inv [OF s(2,3,1) r refl] by (auto simp: resumed_def)
  moreover have "c_phase c = GClosed \<Longrightarrow> ph = GClosed" using r by auto
  ultimately show ?thesis using resume_bounded [OF kept_invD(2) [OF k] r]
    by (intro kept_conn [OF k c sys_inv_step [OF kept_invD(1) [OF k]],
          of _ "c\<lparr>c_phase := ph, c_out := c_out c @ out\<rparr>"]) (auto simp: c r)
qed

lemma kept_timeout:
  assumes k: "kept_inv L y" and c: "y_conns y i = Some c"
  shows "kept_inv L (stream_step y (Timeout i))"
  using kept_invD(2) [OF k]
  by (intro kept_conn [OF k c sys_inv_step [OF kept_invD(1) [OF k]],
        of _ "c\<lparr>c_out := c_out c @ timeout (c_phase c) i (y_hub y)\<rparr>"]) (auto simp: c)

lemma kept_close:
  assumes k: "kept_inv L y" and c: "y_conns y i = Some c"
  shows "kept_inv (L \<union> leaks y (Close i)) (stream_step y (Close i))"
proof (cases "c_phase c = GStart")
  case False
  then have "kept_inv L (stream_step y (Close i))" using kept_invD(2) [OF k]
    by (intro kept_conn [OF k c sys_inv_step [OF kept_invD(1) [OF k]], of _ "c\<lparr>c_phase := GClosed\<rparr>"])
       (auto simp: c close_gen_def unsubscribe_def)
  with False c show ?thesis by (simp add: leaks_def)
next
  case True
  have "open_conns (stream_step y (Close i)) = open_conns y - {i}" "i \<in> open_conns y"
    using c True by (auto simp: open_conns_def close_gen_def split: if_splits)
  with True sys_inv_step [OF kept_invD(1) [OF k], of "Close i"] kept_invD(2-4) [OF k] c show ?thesis
    by (intro kept_invI) (auto simp: leaks_def close_gen_def)
qed

lemma kept_step:
  assumes k: "kept_inv L y"
  shows "kept_inv (L \<union> leaks y ev) (stream_step y ev)"
proof (cases ev)
  case (Resume i)
  with k kept_resume [OF k, of i] show ?thesis by (cases "y_conns y i") (auto simp: leaks_def)
next
  case (Timeout i)
  with k kept_timeout [OF k, of i] show ?thesis by (cases "y_conns y i") (auto simp: leaks_def)
next
  case (Close i)
  with k kept_close [OF k, of i] show ?thesis by (cases "y_conns y i") (auto simp: leaks_def)
qed (use kept_publish [OF k] kept_open [OF k] in \<open>auto simp: leaks_def\<close>)

lemma kept_run: "kept_inv L y \<Longrightarrow> kept_inv (L \<union> leaked y evs) (stream_run y evs)"
proof (induction evs arbitrary: L y)
  case (Cons ev evs)
  from Cons.IH [OF kept_step [OF Cons.prems, of ev]] show ?case by (simp add: Un_assoc)
qed simp

lemma kept_new: "kept_inv {} (new_sys n)"
  by (intro kept_invI sys_inv_new) (simp_all add: new_sys_def new_hub_def queues_bounded_def open_conns_def)

section \<open>Properties\<close>

text \<open>C26: what a hub holds on to. However publications and connections interleave, and however slow
  the clients read, the replay buffer holds at most \<open>replay_size\<close> events, every queue at most
  \<open>MAX_QUEUE\<close>, and the registered subscriptions are, each once, those of the open connections and
  of the connections that were closed before their generator had started.\<close>

theorem hub_resources:
  "length (h_buffer (y_hub (stream_run (new_sys n) evs))) \<le> n \<and>
   (\<lambda>s. length (s_queue s)) ` ran (h_subs (y_hub (stream_run (new_sys n) evs))) \<subseteq> {..MAX_QUEUE} \<and>
   distinct (h_subscribers (y_hub (stream_run (new_sys n) evs))) \<and>
   set (h_subscribers (y_hub (stream_run (new_sys n) evs)))
     = open_conns (stream_run (new_sys n) evs) \<union> leaked (new_sys n) evs \<and>
   open_conns (stream_run (new_sys n) evs) \<inter> leaked (new_sys n) evs = {}"
proof -
  let ?y = "stream_run (new_sys n) evs"
  have k: "kept_inv (leaked (new_sys n) evs) ?y" using kept_run [OF kept_new, of n evs] by simp
  have hub: "hub_log (y_log ?y) (y_hub ?y)" using k by (simp add: kept_inv_def sys_inv_def)
  have "h_replay_size (y_hub ?y) = n" by (simp add: new_sys_def new_hub_def)
  with hub have "length (h_buffer (y_hub ?y)) \<le> n" by (simp add: hub_log_def length_last_n)
  moreover have "(\<lambda>s. length (s_queue s)) ` ran (h_subs (y_hub ?y)) \<subseteq> {..MAX_QUEUE}"
    using k by (auto simp: kept_inv_def ran_def dest: queues_boundedD)
  moreover have "distinct (h_subscribers (y_hub ?y))" using hub by (simp add: hub_log_def)
  moreover have "open_conns ?y \<inter> leaked (new_sys n) evs = {}"
    using k by (force simp: kept_inv_def open_conns_def)
  ultimately show ?thesis using k by (simp add: kept_inv_def)
qed

end
