(* ===== verification/Spec2Isabelle.thy ===== *)
theory Spec2Isabelle
  imports Answers Resume Routes Slots Subscribers
begin

text \<open>
  A model of the library \<open>fastapi_agent_protocol\<close>: a runtime that serves host-owned agent graphs
  over HTTP. A client creates a thread, sends commands to it (\<open>run.start\<close>, \<open>input.respond\<close>,
  \<open>run.cancel\<close>, \<open>state.get\<close>) and reads the events of its runs as server-sent events.

  \<^bold>\<open>Parts and interaction.\<close> A command reaches the router (\<open>router.py\<close>), which looks up the thread in
  the thread store (\<open>threads.py\<close>, ids from \<open>uuid7.py\<close>) and calls the run manager (\<open>runner.py\<close>). The
  manager reserves the thread's slot, resolves the graph through the registry (\<open>registry.py\<close>) and
  creates one task. The task iterates over the graph's stream, translates message chunks into
  frames (\<open>translation.py\<close>), converts state values to JSON data (\<open>state.py\<close>), and publishes both
  and the lifecycle on the thread's hub (\<open>hub.py\<close>), from which any number of connections read
  through the generator of the stream endpoint (\<open>router.py\<close>). \<open>factory.py\<close> wires these together.

  \<^bold>\<open>Theories.\<close>
  \<^item> \<open>Prelude\<close>: association lists as Python dicts (\<open>dget\<close>, \<open>dset\<close>, \<open>dmerge\<close>), bounded buffers,
    increasing lists, and the locales \<open>event_system\<close> (an invariant kept by every step) and
    \<open>event_refinement\<close> (an abstraction under which a step is an abstract step).
  \<^item> \<open>PyValues\<close>, \<open>PyJson\<close>: Python values, their truth, \<open>str\<close> and \<open>repr\<close>, the exceptions, and the
    \<open>json\<close> module as the source uses it: \<open>json_dumps\<close>, \<open>json_loads\<close> with the interpreter's limit
    of 4300 digits for integer literals, and the round trip of the two on JSON data.
  \<^item> \<open>Hub\<close>: \<open>hub.py\<close>; \<open>hub\<close> is \<open>ThreadEventHub\<close> with its subscriptions kept by address, \<open>publish\<close>,
    \<open>subscribe\<close>, \<open>unsubscribe\<close>, \<open>replay\<close>, the filters, and \<open>hub_registry\<close>.
  \<^item> \<open>Streams\<close>, \<open>Sse\<close>: the generator \<open>gen\<close> of \<open>_stream\<close> as a machine (\<open>gen_phase\<close>, \<open>resume\<close>,
    \<open>timeout\<close>, \<open>close_gen\<close>); a system of one hub and its connections under any interleaving of
    publications, resumptions, timeouts and closings; the text of a block (\<open>sse_block\<close>). Its lemmas
    show what a connection receives, also over a reconnection with the last number it has seen.
  \<^item> \<open>Subscribers\<close>: what a hub keeps: bounds of its buffer and queues, and which subscriptions stay
    registered.
  \<^item> \<open>Translation\<close>: \<open>MessagesTranslator\<close> with its emitters and blocks. The frame protocol is an
    automaton (\<open>frame_run\<close>) that accepts the frames of every run.
  \<^item> \<open>StateReads\<close>: \<open>state.py\<close>: conversion to JSON data, thread state, and the reconstruction of
    history from pending writes.
  \<^item> \<open>RunTask\<close>: the body \<open>_execute\<close> of a run, cut at its awaits (\<open>exec_step\<close>), against the abstract
    lifecycle \<open>life_step\<close> and with a budget that bounds its steps.
  \<^item> \<open>RunText\<close>: the text a run publishes, against an abstract listener (\<open>hear\<close>) that knows one open
    message and the closed ones.
  \<^item> \<open>Registry\<close>, \<open>Uuid7\<close>, \<open>Threads\<close>: the registry of factories, the ids as words of 8 bits, and the
    two stores as instances of the locale \<open>thread_store\<close>, whose laws make a store a map.
  \<^item> \<open>Runner\<close>: \<open>RunManager\<close>. \<open>start\<close> is cut at its await (\<open>start_reserve\<close>, \<open>start_finish\<close>,
    \<open>start_cancelled\<close>); the invariant \<open>run_inv\<close> says that whoever can still act on a thread owns the
    thread's slot; it holds for every interleaving of \<open>run_event\<close>s.
  \<^item> \<open>Slots\<close>: a thread's slot as a machine (\<open>slot_step\<close>), which the manager refines event by event.
  \<^item> \<open>RunTrace\<close>: what the runs of a thread publish over time, one lifecycle after the other, and an
    interrupt from its request to the run that answers it.
  \<^item> \<open>ThreadRuns\<close>: a thread as the list of its runs (\<open>thread_history\<close>), of which only the last moves;
    the manager refines it too, so that results on one run hold along a thread.
  \<^item> \<open>Router\<close>, \<open>Factory\<close>: every endpoint as a function of the request and the server's state, over
    any thread store, and the wiring of \<open>create_protocol\<close>.
  \<^item> \<open>Routes\<close>: the table of endpoints with their methods and paths, and what all endpoints have in
    common: unknown threads are refused, and a request to one thread leaves the others alone.
  \<^item> \<open>Handlers\<close>: the command handler cut at its awaits of host code (\<open>begin_command\<close>, \<open>proceed\<close>,
    \<open>abandon\<close>), with any number of handlers suspended at once. Uninterrupted it is the handler of
    \<open>Router\<close>; interrupted, it is a sequence of events of the run system.
  \<^item> \<open>Serving\<close>: the running server, which puts the handlers, the run events and the steps of the
    connections around one shared state. It refines the stream system of \<open>Streams\<close> and the run
    system of \<open>Runner\<close>, which carries their results over: every run that is given its steps ends, a
    thread is a list of runs, and a client reads the text that the graphs streamed.
  \<^item> \<open>LastAssistant\<close>: the assistant stored on a thread's row is that of the thread's last run, proved
    for any store inside \<open>thread_store\<close> and used for both.
  \<^item> \<open>Pending\<close>, \<open>Resume\<close>: the pending interrupts of a thread belong to its last run, which is over
    (\<open>pending_inv\<close>); joined with \<open>LastAssistant\<close>, an answer resumes the graph that asked.
  \<^item> \<open>Answers\<close>: the awaits a suspended handler has before it (\<open>awaits_left\<close>, at most three), by which
    every request is answered, once.

  \<^bold>\<open>Arguments.\<close> Code outside the repository is an argument: the items a graph streams and the
  exception that ends it, \<open>aget_state\<close>, the checkpointer's \<open>alist\<close>, \<open>message_to_dict\<close>, the clock,
  the random bytes, and what a factory returns. What a theorem needs of them is a hypothesis of it.

  \<^bold>\<open>Bounds.\<close> The JSON parser has fuel \<open>2 * length + 2\<close>, proved enough (\<open>json_parse_total\<close>). A task's
  budget is the number of its items plus three. The queue of a subscription holds \<open>MAX_QUEUE\<close>
  events and the replay buffer a parameter of the hub.

  \<^bold>\<open>Not modelled.\<close> The package's re-exports; routing and rendering by the web framework, which turns
  an exception of a handler into status 500; suspension of the read-only endpoints, which are one
  stretch each and change nothing, and of the reading of a request's body, before which a command
  has only read the thread's metadata, which never change; threads of the operating system,
  the stores' operations being critical sections; \<open>RecursionError\<close> for deep
  values, integers beyond the digit limit in \<open>json.dumps\<close>, and characters beyond code point 255;
  the aliasing of the record that the in-memory \<open>create\<close> returns, which the router only reads.
\<close>

end
